(* ===== verification/Kurn_Prelude.thy ===== *)
theory Kurn_Prelude
  imports Main "HOL-Library.Word" "HOL-Library.Char_ord" "HOL-Library.List_Lexorder"
    "HOL-Library.Multiset" "HOL-Library.AList"
begin

text \<open>
  The vocabulary every component of the development shares.

  \<^item> Go's \<open>string\<close> and \<open>[]byte\<close> are byte sequences, and Isabelle's \<^typ>\<open>char\<close> is a byte, so
    both are \<^typ>\<open>string\<close>. Go compares strings bytewise; \<open>Char_ord\<close> and \<open>List_Lexorder\<close> give
    \<^typ>\<open>string\<close> exactly that linear order, so \<open>sort.Strings\<close> is \<^const>\<open>sort\<close>.
  \<^item> \<open>uint32\<close> and \<open>uint64\<close> are words of their width. A Go \<open>int\<close> that counts things held in
    memory is a \<^typ>\<open>nat\<close>; where a value may be negative it is an \<^typ>\<open>int\<close>.
  \<^item> A Go map is a HOL map where the code only looks keys up. Where the code ranges over a map,
    Go leaves the order of the iteration open: the order is then an argument of the model,
    constrained by \<open>map_iter\<close>.
  \<^item> A slice expression that would panic is \<^const>\<open>None\<close> (\<open>go_slice\<close>).
\<close>

unbundle bit_operations_syntax

type_synonym u8 = "8 word"
type_synonym u32 = "32 word"
type_synonym u64 = "64 word"

named_theorems kurn_inv "preservation of the component invariants"
named_theorems kurn_defs "definitions that open a component in its own proofs"

subsection \<open>Slices and map iteration\<close>

definition go_slice :: "'a list \<Rightarrow> nat \<Rightarrow> nat \<Rightarrow> 'a list option" where
  "go_slice xs lo hi = (if lo \<le> hi \<and> hi \<le> length xs then Some (take (hi - lo) (drop lo xs)) else None)"

definition map_iter :: "('k \<rightharpoonup> 'v) \<Rightarrow> 'k list \<Rightarrow> bool" where
  "map_iter m ks \<longleftrightarrow> distinct ks \<and> set ks = dom m"

definition enum_map :: "('k \<rightharpoonup> 'v) \<Rightarrow> 'k list \<Rightarrow> ('k \<times> 'v) list" where
  "enum_map m ks = List.map_filter (\<lambda>k. map_option (Pair k) (m k)) ks"

lemma go_slice_append [simp]:
  "hi \<le> length xs \<Longrightarrow> go_slice (xs @ ys) lo hi = go_slice xs lo hi"
  by (simp add: go_slice_def)

lemma go_slice_tail [simp]:
  "go_slice (xs @ ys @ zs) (length xs) (length xs + length ys) = Some ys"
  by (simp add: go_slice_def)

lemma enum_map_Nil [simp]: "enum_map m [] = []"
  by (simp add: enum_map_def map_filter_simps)

lemma enum_map_Cons [simp]:
  "enum_map m (k # ks) = (case m k of None \<Rightarrow> enum_map m ks | Some v \<Rightarrow> (k, v) # enum_map m ks)"
  by (simp add: enum_map_def map_filter_simps split: option.splits)

lemma map_fst_enum_map [simp]: "set ks \<subseteq> dom m \<Longrightarrow> map fst (enum_map m ks) = ks"
  by (induction ks) (auto split: option.splits)

lemma set_enum_map: "set (enum_map m ks) = {(k, v). k \<in> set ks \<and> m k = Some v}"
  by (induction ks) (auto split: option.splits)

lemma map_iter_enum:
  assumes "map_iter m ks"
  shows "map fst (enum_map m ks) = ks" and "set (enum_map m ks) = {(k, v). m k = Some v}"
  using assms by (auto simp: map_iter_def set_enum_map)

subsection \<open>Generic facts about lists\<close>

lemma filter_upt_Suc:
  "filter P [0..<Suc n] = filter P [0..<n] @ (if P n then [n] else [])"
  by simp

lemma take_drop_split: "n \<le> length xs \<Longrightarrow> take n xs @ drop n xs = xs"
  by simp

lemma sum_list_concat_length: "length (concat xss) = sum_list (map length xss)"
  by (induction xss) auto

lemma last_in_concat: "xs \<in> set xss \<Longrightarrow> x \<in> set xs \<Longrightarrow> x \<in> set (concat xss)"
  by auto

lemma length_le_concat: "x \<in> set xs \<Longrightarrow> length (f x) \<le> length (concat (map f xs))"
  by (induction xs) auto

lemma filter_eq_single: "distinct zs \<Longrightarrow> a \<in> set zs \<Longrightarrow> filter (\<lambda>x. a = x) zs = [a]"
  by (induction zs) (auto simp: filter_empty_conv)

subsection \<open>Successors of words\<close>

lemma word_succ_greater: "w \<noteq> - 1 \<Longrightarrow> w < w + (1 :: 'a::len word)"
  using unatSuc [of w] by (simp add: word_less_nat_alt eq_neg_iff_add_eq_0 add.commute)

lemma word_succ_le: "w < v \<Longrightarrow> w + 1 \<le> (v :: 'a::len word)"
  using unatSuc [of w] by (cases "1 + w = 0") (auto simp: word_less_nat_alt word_le_nat_alt add.commute)

lemma of_nat_not_max_u32: "i < 2 ^ 32 - 1 \<Longrightarrow> (of_nat i :: u32) \<noteq> - 1"
  by (simp add: word_unat_eq_iff unat_of_nat unsigned_minus_1_eq_mask mask_eq_exp_minus_1)

subsection \<open>First-occurrence deduplication\<close>

text \<open>The \<open>seen\<close>-set idiom of the sources: keep an element the first time it appears.\<close>

fun dedup :: "'a set \<Rightarrow> 'a list \<Rightarrow> 'a list" where
  "dedup seen [] = []"
| "dedup seen (x # xs) = (if x \<in> seen then dedup seen xs else x # dedup (insert x seen) xs)"

lemma set_dedup [simp]: "set (dedup seen xs) = set xs - seen"
  by (induction xs arbitrary: seen) auto

lemma distinct_dedup [simp]: "distinct (dedup seen xs)"
  by (induction xs arbitrary: seen) auto

lemma dedup_id: "distinct xs \<Longrightarrow> set xs \<inter> seen = {} \<Longrightarrow> dedup seen xs = xs"
  by (induction xs arbitrary: seen) auto

end
