(* ===== verification/Index_Interface.thy ===== *)
theory Index_Interface
  imports Kurn_Prelude
begin

text \<open>
  What the list layer (\<open>engine/list.go\<close>) relies on when it turns index results into entries:
  a lookup on a well-formed index answers, and every ordinal it answers with lies below the
  index's ordinal count. The list compares that count with its entry count once, at install time
  (\<open>ReplaceWithIndexesInfo\<close>, \<open>ReplaceWithExactIndexInfo\<close>), and from then on reads
  \<open>seg.entries[ord]\<close> unchecked; the lemmas of this interface are why that read cannot panic.
  The exact and the n-gram index both provide it.
\<close>

locale ordinal_index =
  fixes lookup_ords :: "'i \<Rightarrow> 'q \<Rightarrow> u32 list option"
    and num_ords :: "'i \<Rightarrow> u32"
    and index_wf :: "'i \<Rightarrow> bool"
  assumes lookup_answers: "index_wf i \<Longrightarrow> lookup_ords i q \<noteq> None"
    and lookup_in_range: "index_wf i \<Longrightarrow> lookup_ords i q = Some ords \<Longrightarrow> ord \<in> set ords
      \<Longrightarrow> ord < num_ords i"
begin

lemma reads_in_bounds:
  assumes "index_wf i" "unat (num_ords i) \<le> length es" "lookup_ords i q = Some ords" "ord \<in> set ords"
  shows "unat ord < length es"
  using lookup_in_range [OF assms(1,3,4)] assms(2) by (simp add: word_less_nat_alt)

lemma read_all_entries:
  assumes "index_wf i" "unat (num_ords i) \<le> length es"
  obtains ords where "lookup_ords i q = Some ords" "\<forall>ord \<in> set ords. unat ord < length es"
  using lookup_answers [OF assms(1)] reads_in_bounds [OF assms] by blast

end

end
