(* ===== verification/Exact_Index.thy ===== *)
theory Exact_Index
  imports Index_Interface
begin

text \<open>
  The normalized-exact index of \<open>engine/exact/exact.go\<close>: analyzed key to entry ordinals.
  The builder (\<open>Add\<close>, \<open>Finish\<close>), the reconstruction from serialized sections (\<open>Restore\<close>)
  and the queries (\<open>Lookup\<close>, \<open>Keys\<close>, \<open>NumOrds\<close>, \<open>SortedKeys\<close>), with the packed 44/20-bit
  locator at its 64-bit width. The map's keys are views into the arena; the model keys the map by
  the bytes the view reads when it is taken.
\<close>

subsection \<open>Data\<close>

type_synonym packed = u64

record exact_index =
  ix_m :: "string \<rightharpoonup> packed"
  ix_arena :: string
  ix_postings :: "u32 list"
  ix_numOrds :: u32

datatype exact_error =
    KeyOverflowError string nat nat
  | OffsetOverflow nat
  | NoSuccessor string u32
  | RestoreLengths nat nat
  | RestoreKeyBounds nat int
  | RestoreRunRange nat int
  | RestoreRunExceeds nat int
  | RestoreOffset nat
  | RestoreDuplicate string
  | RestoreArenaSum nat nat
  | RestorePostingSum nat nat
  | RestoreOrdinal u32
  | ExactPanic

definition lenBits :: nat where "lenBits = 20"
definition lenMask :: u64 where "lenMask = mask 20"
definition maxRun :: nat where "maxRun = 2 ^ 20 - 1"
definition maxOff :: nat where "maxOff = 2 ^ 44 - 1"

definition pack :: "nat \<Rightarrow> nat \<Rightarrow> packed" where
  "pack off n = push_bit lenBits (of_nat off) OR of_nat n"

subsection \<open>The builder\<close>

type_synonym exact_builder = "string \<rightharpoonup> u32 list"

definition new_builder :: exact_builder where
  "new_builder = Map.empty"

fun exact_add :: "exact_builder \<Rightarrow> u32 \<Rightarrow> string list \<Rightarrow> exact_builder" where
  "exact_add b ord [] = b"
| "exact_add b ord (k # ks) =
     (if k = '''' then exact_add b ord ks
      else
        let p = (case b k of None \<Rightarrow> [] | Some p \<Rightarrow> p)
        in if p \<noteq> [] \<and> last p = ord then exact_add b ord ks
           else exact_add (b(k \<mapsto> p @ [ord])) ord ks)"

fun finish_sizes :: "(string \<times> u32 list) list \<Rightarrow> nat \<Rightarrow> nat \<Rightarrow> exact_error + nat \<times> nat" where
  "finish_sizes [] totalOrds totalKeyBytes = Inr (totalOrds, totalKeyBytes)"
| "finish_sizes ((k, p) # src) totalOrds totalKeyBytes =
     (if length p > maxRun then Inl (KeyOverflowError k (length p) maxRun)
      else finish_sizes src (totalOrds + length p) (totalKeyBytes + length k))"

fun finish_fill :: "(string \<times> u32 list) list \<Rightarrow> nat \<Rightarrow> exact_index \<Rightarrow> exact_error + exact_index" where
  "finish_fill [] off idx = Inr idx"
| "finish_fill ((k, p) # src) off idx =
     (let pOff = length (ix_postings idx) in
      if pOff > maxOff then Inl (OffsetOverflow pOff)
      else if p = [] then Inl ExactPanic
      else
        let lst = last p in
        if lst = - 1 then Inl (NoSuccessor k lst)
        else
          let ords = (if lst + 1 > ix_numOrds idx then lst + 1 else ix_numOrds idx);
              n = min (length k) (length (ix_arena idx) - off);
              ar = take off (ix_arena idx) @ take n k @ drop (off + n) (ix_arena idx);
              ak = take n (drop off ar)
          in finish_fill src (off + n)
               (idx\<lparr>ix_postings := ix_postings idx @ p, ix_numOrds := ords, ix_arena := ar,
                    ix_m := (ix_m idx)(ak \<mapsto> pack pOff (length p))\<rparr>))"

definition exact_finish ::
  "string list \<Rightarrow> string list \<Rightarrow> exact_builder \<Rightarrow> exact_error + exact_index" where
  "exact_finish order1 order2 b =
     (case finish_sizes (enum_map b order1) 0 0 of
        Inl e \<Rightarrow> Inl e
      | Inr (totalOrds, totalKeyBytes) \<Rightarrow>
          finish_fill (enum_map b order2) 0
            \<lparr>ix_m = Map.empty, ix_arena = replicate totalKeyBytes (CHR 0x00),
             ix_postings = [], ix_numOrds = 0\<rparr>)"

subsection \<open>Queries\<close>

definition exact_lookup :: "exact_index \<Rightarrow> string \<Rightarrow> u32 list option" where
  "exact_lookup i analyzed =
     (case ix_m i analyzed of
        None \<Rightarrow> Some []
      | Some p \<Rightarrow>
          let off = unat (drop_bit lenBits p); n = unat (p AND lenMask)
          in go_slice (ix_postings i) off (off + n))"

definition exact_keys :: "exact_index \<Rightarrow> nat" where
  "exact_keys i = card (dom (ix_m i))"

definition exact_num_ords :: "exact_index \<Rightarrow> u32" where
  "exact_num_ords i = ix_numOrds i"

definition exact_sorted_keys :: "string list \<Rightarrow> exact_index \<Rightarrow> string list" where
  "exact_sorted_keys order i = sort (map fst (enum_map (ix_m i) order))"

subsection \<open>Restore\<close>

fun restore_keys ::
  "string \<Rightarrow> u32 list \<Rightarrow> nat \<Rightarrow> (int \<times> int) list \<Rightarrow> nat \<Rightarrow> nat \<Rightarrow> (string \<rightharpoonup> packed)
    \<Rightarrow> exact_error + (nat \<times> nat \<times> (string \<rightharpoonup> packed))" where
  "restore_keys arena postings i [] aOff pOff m = Inr (aOff, pOff, m)"
| "restore_keys arena postings i ((kl, rl) # ls) aOff pOff m =
     (if kl < 1 \<or> kl > int (length arena) - int aOff then Inl (RestoreKeyBounds i kl)
      else if rl < 1 \<or> rl > int maxRun then Inl (RestoreRunRange i rl)
      else if rl > int (length postings) - int pOff then Inl (RestoreRunExceeds i rl)
      else if pOff > maxOff then Inl (RestoreOffset pOff)
      else
        let k = take (nat kl) (drop aOff arena) in
        if m k \<noteq> None then Inl (RestoreDuplicate k)
        else restore_keys arena postings (Suc i) ls (aOff + nat kl) (pOff + nat rl)
               (m(k \<mapsto> pack pOff (nat rl))))"

fun restore_ords :: "u32 list \<Rightarrow> u32 \<Rightarrow> exact_error + u32" where
  "restore_ords [] numOrds = Inr numOrds"
| "restore_ords (ord # ords) numOrds =
     (if ord = - 1 then Inl (RestoreOrdinal ord)
      else restore_ords ords (if ord + 1 > numOrds then ord + 1 else numOrds))"

definition exact_restore ::
  "string \<Rightarrow> int list \<Rightarrow> int list \<Rightarrow> u32 list \<Rightarrow> exact_error + exact_index" where
  "exact_restore arena keyLens runLens postings =
     (if length keyLens \<noteq> length runLens then Inl (RestoreLengths (length keyLens) (length runLens))
      else case restore_keys arena postings 0 (zip keyLens runLens) 0 0 Map.empty of
        Inl e \<Rightarrow> Inl e
      | Inr (aOff, pOff, m) \<Rightarrow>
          if aOff \<noteq> length arena then Inl (RestoreArenaSum aOff (length arena))
          else if pOff \<noteq> length postings then Inl (RestorePostingSum pOff (length postings))
          else case restore_ords postings 0 of
            Inl e \<Rightarrow> Inl e
          | Inr n \<Rightarrow> Inr \<lparr>ix_m = m, ix_arena = arena, ix_postings = postings, ix_numOrds = n\<rparr>)"

subsection \<open>What the index promises\<close>

text \<open>
  \<open>exact_add_all\<close> is the caller's loop over the entries (ordinal = slice position, as in
  \<open>buildSegment\<close> and \<open>buildCompanion\<close>); \<open>holders\<close> is the specification of a lookup: the positions
  of the entries that hold the key, ascending. \<open>exact_wf\<close> is the invariant of a finished index:
  every key is non-empty and its run is in range, non-empty, encodable and below the ordinal count.
\<close>

fun exact_add_all :: "exact_builder \<Rightarrow> nat \<Rightarrow> string list list \<Rightarrow> exact_builder" where
  "exact_add_all b i [] = b"
| "exact_add_all b i (ks # kss) = exact_add_all (exact_add b (of_nat i) ks) (Suc i) kss"

definition holders :: "string list list \<Rightarrow> string \<Rightarrow> nat list" where
  "holders kss k = (if k = '''' then [] else filter (\<lambda>i. k \<in> set (kss ! i)) [0..<length kss])"

definition map_to :: "exact_builder \<Rightarrow> string \<Rightarrow> u32 list" where
  "map_to b k = (case b k of None \<Rightarrow> [] | Some p \<Rightarrow> p)"

definition exact_wf :: "exact_index \<Rightarrow> bool" where
  "exact_wf i \<longleftrightarrow> finite (dom (ix_m i)) \<and>
     (\<forall>k \<in> dom (ix_m i). k \<noteq> '''' \<and>
       (\<exists>run. exact_lookup i k = Some run \<and> run \<noteq> [] \<and> length run \<le> maxRun \<and>
          (\<forall>ord \<in> set run. ord < ix_numOrds i)))"

definition run_ok :: "u32 list \<Rightarrow> string \<Rightarrow> packed \<Rightarrow> bool" where
  "run_ok postings k v \<longleftrightarrow> k \<noteq> '''' \<and>
     (\<exists>off n. v = pack off n \<and> off \<le> maxOff \<and> 1 \<le> n \<and> n \<le> maxRun \<and> off + n \<le> length postings)"

subsection \<open>The packed locator\<close>

lemma pack_off:
  assumes "off \<le> maxOff" "n \<le> maxRun"
  shows "unat (drop_bit lenBits (pack off n)) = off"
proof -
  have n: "drop_bit 20 (of_nat n :: u64) = 0"
  proof (rule word_unat_eq_iff [THEN iffD2])
    have "unat (drop_bit 20 (of_nat n :: u64)) = drop_bit 20 (unat (of_nat n :: u64))"
      by (rule unat_drop_bit_eq)
    then show "unat (drop_bit 20 (of_nat n :: u64)) = unat (0 :: u64)"
      using assms(2) by (simp add: maxRun_def unat_of_nat drop_bit_eq_div)
  qed
  have "unat (drop_bit lenBits (pack off n)) = unat (drop_bit 20 (push_bit 20 (of_nat off :: u64)))"
    by (simp add: pack_def lenBits_def n)
  also have "\<dots> = drop_bit 20 (unat (push_bit 20 (of_nat off :: u64)))"
    by (rule unat_drop_bit_eq)
  also have "\<dots> = off"
    using assms(1)
    by (simp add: maxOff_def unat_of_nat unat_word_ariths drop_bit_eq_div push_bit_eq_mult
        take_bit_nat_def)
  finally show ?thesis .
qed

lemma pack_len:
  assumes "n \<le> maxRun"
  shows "unat (pack off n AND lenMask) = n"
proof -
  have "take_bit 20 (push_bit 20 (of_nat off :: u64)) = 0"
    by (simp add: take_bit_push_bit)
  then have "pack off n AND lenMask = take_bit 20 (of_nat n :: u64)"
    by (simp add: pack_def lenBits_def lenMask_def take_bit_eq_mask [symmetric])
  then show ?thesis using assms
    by (simp add: maxRun_def unsigned_take_bit_eq unat_of_nat take_bit_nat_def)
qed

text \<open>A run of \<open>n\<close> postings at offset \<open>off\<close>, read through its packed locator.\<close>

lemma lookup_packed:
  assumes "ix_m i k = Some (pack off n)" "off \<le> maxOff" "n \<le> maxRun"
  shows "exact_lookup i k = go_slice (ix_postings i) off (off + n)"
  using assms by (simp add: exact_lookup_def pack_off pack_len)

subsection \<open>What the builder accumulates\<close>

lemma exact_add_apply:
  "exact_add b ord ks k =
     (if k \<in> set ks \<and> k \<noteq> '''' \<and> \<not> (map_to b k \<noteq> [] \<and> last (map_to b k) = ord)
      then Some (map_to b k @ [ord]) else b k)"
proof (induction ks arbitrary: b)
  case Nil
  then show ?case by simp
next
  case (Cons x ks)
  let ?dup = "map_to b x \<noteq> [] \<and> last (map_to b x) = ord"
  have step: "exact_add b ord (x # ks) =
      (if x = [] \<or> ?dup then exact_add b ord ks else exact_add (b(x \<mapsto> map_to b x @ [ord])) ord ks)"
    by (simp add: Let_def map_to_def)
  show ?case
    unfolding step by (cases "x = k") (auto simp: Cons.IH map_to_def)
qed

lemma exact_add_all_snoc:
  "exact_add_all b i (kss @ [ks]) = exact_add (exact_add_all b i kss) (of_nat (i + length kss)) ks"
  by (induction kss arbitrary: b i) (auto simp: add.assoc add.left_commute)

lemma holders_snoc:
  "holders (kss @ [ks]) k =
     holders kss k @ (if k \<noteq> '''' \<and> k \<in> set ks then [length kss] else [])"
proof -
  have "filter (\<lambda>i. k \<in> set ((kss @ [ks]) ! i)) [0..<length kss]
      = filter (\<lambda>i. k \<in> set (kss ! i)) [0..<length kss]"
    by (rule filter_cong) (auto simp: nth_append)
  then show ?thesis by (simp add: holders_def)
qed

lemma holders_less: "i \<in> set (holders kss k) \<Longrightarrow> i < length kss"
  by (auto simp: holders_def split: if_splits)

lemma exact_add_all_holders:
  assumes "length kss \<le> 2 ^ 32"
  shows "exact_add_all new_builder 0 kss k =
    (if holders kss k = [] then None else Some (map of_nat (holders kss k)))"
  using assms
proof (induction kss rule: rev_induct)
  case Nil
  then show ?case by (simp add: new_builder_def holders_def)
next
  case (snoc ks kss)
  let ?b = "exact_add_all new_builder 0 kss"
  have b: "?b k = (if holders kss k = [] then None else Some (map of_nat (holders kss k)))"
    using snoc by simp
  then have to: "map_to ?b k = map of_nat (holders kss k)"
    by (simp add: map_to_def)
  have fresh: "\<not> (map_to ?b k \<noteq> [] \<and> last (map_to ?b k) = of_nat (length kss))"
  proof
    assume a: "map_to ?b k \<noteq> [] \<and> last (map_to ?b k) = of_nat (length kss)"
    then have ne: "holders kss k \<noteq> []" by (simp add: to)
    then have "last (holders kss k) < length kss" by (blast intro: holders_less last_in_set)
    moreover have "(of_nat (last (holders kss k)) :: u32) = of_nat (length kss)"
      using a ne by (simp add: to last_map)
    ultimately show False
      using snoc.prems by (simp add: word_of_nat_eq_iff take_bit_nat_eq_self)
  qed
  show ?case
    using fresh b to by (auto simp: exact_add_all_snoc exact_add_apply holders_snoc)
qed

lemma finish_fill_spec:
  assumes "finish_fill src off idx = Inr idx'"
    and "distinct (map fst src)"
    and "\<forall>(k, p) \<in> set src. length p \<le> maxRun"
    and "off + length (concat (map fst src)) = length (ix_arena idx)"
  shows "ix_postings idx' = ix_postings idx @ concat (map snd src)
    \<and> ix_arena idx' = take off (ix_arena idx) @ concat (map fst src)
    \<and> (\<forall>(k, p) \<in> set src. ix_m idx' k \<noteq> None \<and> exact_lookup idx' k = Some p \<and> last p < ix_numOrds idx')
    \<and> (\<forall>k. k \<notin> fst ` set src \<longrightarrow> ix_m idx' k = ix_m idx k)
    \<and> ix_numOrds idx \<le> ix_numOrds idx'"
  using assms
proof (induction src arbitrary: off idx)
  case Nil
  then show ?case by simp
next
  case (Cons kp src)
  obtain k p where kp: "kp = (k, p)" by force
  let ?pOff = "length (ix_postings idx)"
  let ?ar = "take off (ix_arena idx) @ k @ drop (off + length k) (ix_arena idx)"
  let ?ords = "if last p + 1 > ix_numOrds idx then last p + 1 else ix_numOrds idx"
  let ?idx1 = "idx\<lparr>ix_postings := ix_postings idx @ p, ix_numOrds := ?ords, ix_arena := ?ar,
      ix_m := (ix_m idx)(k \<mapsto> pack ?pOff (length p))\<rparr>"
  have n: "min (length k) (length (ix_arena idx) - off) = length k" and offle: "off \<le> length (ix_arena idx)"
    using Cons.prems(4) by (simp_all add: kp)
  from Cons.prems(1) have ok: "?pOff \<le> maxOff" "p \<noteq> []" "last p \<noteq> - 1"
    and rec: "finish_fill src (off + length k) ?idx1 = Inr idx'"
    using n offle by (auto simp: kp Let_def simp del: fun_upd_apply split: if_splits)
  have len: "length ?ar = length (ix_arena idx)" using Cons.prems(4) by (simp add: kp)
  have pre: "distinct (map fst src)" "\<forall>(k, p) \<in> set src. length p \<le> maxRun"
    "off + length k + length (concat (map fst src)) = length (ix_arena ?idx1)"
    using Cons.prems(2,3,4) len by (simp_all add: kp)
  note IH = Cons.IH [OF rec pre]
  have notin: "k \<notin> fst ` set src" using Cons.prems(2) by (simp add: kp)
  have post: "ix_postings idx' = ix_postings idx @ p @ concat (map snd src)" using IH by simp
  have mk: "ix_m idx' k = Some (pack ?pOff (length p))" using IH notin by simp
  have "exact_lookup idx' k = Some p"
    using lookup_packed [OF mk ok(1)] Cons.prems(3) by (simp add: kp post)
  moreover have "last p < ix_numOrds idx'" "ix_numOrds idx \<le> ix_numOrds idx'"
    using IH word_succ_greater [OF ok(3)] by (auto split: if_splits)
  moreover have "take (off + length k) ?ar = take off (ix_arena idx) @ k"
    using offle by simp
  ultimately show ?case using IH post mk by (auto simp: kp)
qed

lemma finish_fill_total:
  assumes "\<forall>(k, p) \<in> set src. p \<noteq> [] \<and> last p \<noteq> - 1"
    and "length (ix_postings idx) + length (concat (map snd src)) \<le> maxOff"
  shows "\<exists>idx'. finish_fill src off idx = Inr idx'"
  using assms
proof (induction src arbitrary: off idx)
  case (Cons kp src)
  then show ?case
    by (cases kp) (simp add: Let_def, blast?)
qed simp

lemma finish_sizes_Inr:
  "finish_sizes src o1 kb = Inr (o2, kb2) \<longleftrightarrow>
     (\<forall>(k, p) \<in> set src. length p \<le> maxRun)
     \<and> o2 = o1 + length (concat (map snd src)) \<and> kb2 = kb + length (concat (map fst src))"
  by (induction src o1 kb rule: finish_sizes.induct) auto

lemma finish_sizes_Inl:
  "finish_sizes src o1 kb = Inl e \<Longrightarrow>
     \<exists>(k, p) \<in> set src. length p > maxRun \<and> e = KeyOverflowError k (length p) maxRun"
  by (induction src o1 kb rule: finish_sizes.induct) (auto split: if_splits)

text \<open>The two passes of \<open>Finish\<close> over the map, whatever order each of them takes.\<close>

lemma exact_finish_Inr:
  assumes it: "map_iter b o1" "map_iter b o2" and fin: "exact_finish o1 o2 b = Inr idx"
  shows "b k = Some p \<Longrightarrow> exact_lookup idx k = Some p \<and> last p < ix_numOrds idx \<and> length p \<le> maxRun"
    and "dom (ix_m idx) = dom b"
proof -
  let ?z = "\<lambda>n. \<lparr>ix_m = Map.empty, ix_arena = replicate n (CHR 0x00), ix_postings = [], ix_numOrds = 0\<rparr>"
  note en1 = map_iter_enum [OF it(1)] and en2 = map_iter_enum [OF it(2)]
  from fin obtain to tk where sz: "finish_sizes (enum_map b o1) 0 0 = Inr (to, tk)"
    and fill: "finish_fill (enum_map b o2) 0 (?z tk) = Inr idx"
    by (auto simp: exact_finish_def split: sum.splits)
  have runs: "\<forall>(k, p) \<in> set (enum_map b o2). length p \<le> maxRun"
    using sz en1(2) en2(2) by (auto simp: finish_sizes_Inr)
  have "mset o1 = mset o2"
    using it by (simp add: map_iter_def set_eq_iff_mset_eq_distinct [symmetric])
  then have "length (concat o1) = length (concat o2)"
    by (metis mset_map sum_list_concat_length sum_mset_sum_list)
  then have tk: "0 + length (concat (map fst (enum_map b o2))) = length (ix_arena (?z tk))"
    using sz en1(1) en2(1) by (simp add: finish_sizes_Inr)
  have "distinct (map fst (enum_map b o2))"
    using it(2) en2(1) by (simp add: map_iter_def)
  from finish_fill_spec [OF fill this runs tk]
  have s: "\<forall>(k, p) \<in> set (enum_map b o2). ix_m idx k \<noteq> None \<and> exact_lookup idx k = Some p \<and> last p < ix_numOrds idx"
    and m: "\<forall>k. k \<notin> fst ` set (enum_map b o2) \<longrightarrow> ix_m idx k = None"
    by simp_all
  show "b k = Some p \<Longrightarrow> exact_lookup idx k = Some p \<and> last p < ix_numOrds idx \<and> length p \<le> maxRun"
    using s runs en2(2) by auto
  show "dom (ix_m idx) = dom b"
    using s m en2(2) by (fastforce simp: dom_def)
qed

lemma exact_finish_Inl:
  assumes it: "map_iter b o1" "map_iter b o2"
    and wf: "\<And>k p. b k = Some p \<Longrightarrow> p \<noteq> [] \<and> last p \<noteq> - 1"
    and total: "length (concat (map snd (enum_map b o2))) \<le> maxOff"
    and fin: "exact_finish o1 o2 b = Inl e"
  shows "\<exists>k p. b k = Some p \<and> length p > maxRun \<and> e = KeyOverflowError k (length p) maxRun"
proof (cases "finish_sizes (enum_map b o1) 0 0")
  case (Inl e')
  then show ?thesis
    using finish_sizes_Inl [OF Inl] fin map_iter_enum(2) [OF it(1)]
    by (auto simp: exact_finish_def)
next
  case (Inr r)
  let ?z = "\<lparr>ix_m = Map.empty, ix_arena = replicate (snd r) (CHR 0x00), ix_postings = [], ix_numOrds = 0\<rparr>"
  have "\<forall>(k, p) \<in> set (enum_map b o2). p \<noteq> [] \<and> last p \<noteq> - 1"
    using wf map_iter_enum(2) [OF it(2)] by auto
  moreover have "length (ix_postings ?z) + length (concat (map snd (enum_map b o2))) \<le> maxOff"
    using total by simp
  ultimately obtain i where "finish_fill (enum_map b o2) 0 ?z = Inr i"
    using finish_fill_total by blast
  then show ?thesis
    using fin Inr by (simp add: exact_finish_def split_beta)
qed

subsection \<open>Building an index from entries\<close>

lemma sorted_last_ge: "sorted xs \<Longrightarrow> (x :: 'a::linorder) \<in> set xs \<Longrightarrow> x \<le> last xs"
  by (induction xs) auto

lemma holders_sorted: "sorted (holders kss k)"
  by (simp add: holders_def sorted_wrt_filter)

lemma build_dom:
  assumes "length kss < 2 ^ 32"
  shows "exact_add_all new_builder 0 kss k = Some p \<Longrightarrow>
    p = map of_nat (holders kss k) \<and> holders kss k \<noteq> []"
  using exact_add_all_holders [of kss k] assms by (auto split: if_splits)

lemma of_nat_less_u32:
  "i \<le> j \<Longrightarrow> j < 2 ^ 32 \<Longrightarrow> (of_nat i :: u32) \<le> of_nat j"
  by (simp add: word_le_nat_alt unat_of_nat)

text \<open>The ordinals of a key never pass the index's ordinal count: the last of a run is its largest.\<close>

lemma build_run_bound:
  assumes "length kss < 2 ^ 32" "i \<in> set (holders kss k)"
  shows "(of_nat i :: u32) \<le> last (map of_nat (holders kss k))"
proof -
  have ne: "holders kss k \<noteq> []" using assms(2) by auto
  have "i \<le> last (holders kss k)"
    using assms(2) holders_sorted by (rule sorted_last_ge [rotated])
  moreover have "last (holders kss k) < 2 ^ 32"
    using holders_less [OF last_in_set [OF ne]] assms(1) by simp
  ultimately show ?thesis
    using ne by (simp add: last_map of_nat_less_u32)
qed

lemma exact_build_lookup:
  assumes small: "length kss < 2 ^ 32"
    and it: "map_iter (exact_add_all new_builder 0 kss) o1" "map_iter (exact_add_all new_builder 0 kss) o2"
    and fin: "exact_finish o1 o2 (exact_add_all new_builder 0 kss) = Inr idx"
  shows "exact_lookup idx k = Some (map of_nat (holders kss k))
    \<and> (\<forall>i \<in> set (holders kss k). of_nat i < exact_num_ords idx)"
proof (cases "holders kss k = []")
  case True
  then have "exact_add_all new_builder 0 kss k = None"
    using exact_add_all_holders [of kss k] small by simp
  then have "ix_m idx k = None"
    using exact_finish_Inr(2) [OF it fin] by (metis domIff)
  then show ?thesis using True by (simp add: exact_lookup_def)
next
  case False
  then have "exact_add_all new_builder 0 kss k = Some (map of_nat (holders kss k))"
    using exact_add_all_holders [of kss k] small by simp
  from exact_finish_Inr(1) [OF it fin this]
  show ?thesis using build_run_bound [OF small] by (fastforce simp: exact_num_ords_def)
qed

lemma exact_build_cap:
  assumes small: "length kss < 2 ^ 32"
    and it: "map_iter (exact_add_all new_builder 0 kss) o1" "map_iter (exact_add_all new_builder 0 kss) o2"
    and total: "length (concat (map snd (enum_map (exact_add_all new_builder 0 kss) o2))) \<le> maxOff"
  shows "case exact_finish o1 o2 (exact_add_all new_builder 0 kss) of
      Inr idx \<Rightarrow> \<forall>k. length (holders kss k) \<le> maxRun
    | Inl e \<Rightarrow> \<exists>k. length (holders kss k) > maxRun
        \<and> e = KeyOverflowError k (length (holders kss k)) maxRun"
proof (cases "exact_finish o1 o2 (exact_add_all new_builder 0 kss)")
  case (Inl e)
  have "p \<noteq> [] \<and> last p \<noteq> - 1" if "exact_add_all new_builder 0 kss k = Some p" for k p
  proof -
    from build_dom [OF small that] have p: "p = map of_nat (holders kss k)" "holders kss k \<noteq> []" by auto
    then have "last (holders kss k) < 2 ^ 32 - 1"
      using holders_less [OF last_in_set] small by fastforce
    then show ?thesis using p by (simp add: last_map of_nat_not_max_u32)
  qed
  from exact_finish_Inl [OF it this total Inl] show ?thesis
    using Inl build_dom [OF small] by fastforce
next
  case (Inr idx)
  have "length (holders kss k) \<le> maxRun" for k
    using exact_add_all_holders [of kss k] small exact_finish_Inr(1) [OF it Inr, of k]
    by (cases "holders kss k = []") auto
  then show ?thesis using Inr by simp
qed

subsection \<open>Restore\<close>

lemma restore_keys_run_ok:
  assumes "restore_keys arena postings i ls aOff pOff m = Inr (a, p, m')"
    and "\<forall>k v. m k = Some v \<longrightarrow> run_ok postings k v" and "finite (dom m)"
  shows "(\<forall>k v. m' k = Some v \<longrightarrow> run_ok postings k v) \<and> finite (dom m')"
  using assms
proof (induction arena postings i ls aOff pOff m rule: restore_keys.induct)
  case (2 arena postings i kl rl ls aOff pOff m)
  let ?k = "take (nat kl) (drop aOff arena)"
  from "2.prems"(1) have g: "\<not> (kl < 1 \<or> kl > int (length arena) - int aOff)" "\<not> (rl < 1 \<or> rl > int maxRun)"
    "\<not> rl > int (length postings) - int pOff" "\<not> pOff > maxOff" "\<not> m ?k \<noteq> None"
    and rec: "restore_keys arena postings (Suc i) ls (aOff + nat kl) (pOff + nat rl)
      (m(?k \<mapsto> pack pOff (nat rl))) = Inr (a, p, m')"
    by (auto simp: Let_def simp del: fun_upd_apply split: if_splits)
  have "0 < length ?k" using g(1) by auto
  then have ne: "?k \<noteq> []" by blast
  have "1 \<le> nat rl" "nat rl \<le> maxRun" "pOff + nat rl \<le> length postings" using g by linarith+
  then have "run_ok postings ?k (pack pOff (nat rl))"
    using g(4) ne unfolding run_ok_def by (metis not_less)
  then have inv: "\<forall>k v. (m(?k \<mapsto> pack pOff (nat rl))) k = Some v \<longrightarrow> run_ok postings k v"
    using "2.prems"(2) by simp
  have fin: "finite (dom (m(?k \<mapsto> pack pOff (nat rl))))" using "2.prems"(3) by simp
  show ?case using "2.IH" [OF g(1-4) refl g(5) rec inv fin] .
qed simp

lemma restore_ords_bound:
  "restore_ords ords n0 = Inr n \<Longrightarrow> n0 \<le> n \<and> (\<forall>ord \<in> set ords. ord < n)"
proof (induction ords n0 rule: restore_ords.induct)
  case (2 ord ords n0)
  then have ne: "ord \<noteq> - 1" by (auto split: if_splits)
  then show ?case
    using 2 word_succ_greater [OF ne] by (auto split: if_splits)
qed simp

lemma run_ok_lookup:
  assumes "ix_m i k = Some v" "run_ok (ix_postings i) k v" "\<forall>ord \<in> set (ix_postings i). ord < ix_numOrds i"
  shows "\<exists>run. exact_lookup i k = Some run \<and> run \<noteq> [] \<and> length run \<le> maxRun
    \<and> (\<forall>ord \<in> set run. ord < ix_numOrds i)"
proof -
  obtain off n where v: "v = pack off n" "off \<le> maxOff" "1 \<le> n" "n \<le> maxRun" "off + n \<le> length (ix_postings i)"
    using assms(2) by (auto simp: run_ok_def)
  have "exact_lookup i k = Some (take n (drop off (ix_postings i)))"
    using lookup_packed [of i k off n] v assms(1) by (simp add: go_slice_def)
  moreover have "length (take n (drop off (ix_postings i))) = n" using v by simp
  moreover have "\<forall>ord \<in> set (take n (drop off (ix_postings i))). ord < ix_numOrds i"
    using assms(3) by (meson in_set_dropD in_set_takeD)
  ultimately show ?thesis using v(3,4) by (intro exI [of _ "take n (drop off (ix_postings i))"]) auto
qed

lemma exact_restore_wf [kurn_inv]:
  assumes "exact_restore arena keyLens runLens postings = Inr idx"
  shows "exact_wf idx"
proof -
  from assms obtain m n a p where
    rk: "restore_keys arena postings 0 (zip keyLens runLens) 0 0 Map.empty = Inr (a, p, m)"
    and ro: "restore_ords postings 0 = Inr n"
    and idx: "idx = \<lparr>ix_m = m, ix_arena = arena, ix_postings = postings, ix_numOrds = n\<rparr>"
    by (auto simp: exact_restore_def split: if_splits sum.splits prod.splits)
  from restore_keys_run_ok [OF rk] have inv: "\<forall>k v. m k = Some v \<longrightarrow> run_ok postings k v" "finite (dom m)"
    by simp_all
  show ?thesis
    unfolding exact_wf_def
    using inv run_ok_lookup [of idx] restore_ords_bound [OF ro]
    by (auto simp: idx run_ok_def)
qed

lemma exact_wf_absent: "k \<notin> dom (ix_m i) \<Longrightarrow> exact_lookup i k = Some []"
  by (auto simp: exact_lookup_def split: option.splits)

lemma exact_wf_lookup:
  assumes "exact_wf i"
  obtains run where "exact_lookup i k = Some run" "\<And>ord. ord \<in> set run \<Longrightarrow> ord < exact_num_ords i"
proof (cases "k \<in> dom (ix_m i)")
  case True
  with assms obtain run where "exact_lookup i k = Some run" "\<forall>ord \<in> set run. ord < ix_numOrds i"
    unfolding exact_wf_def by blast
  then show ?thesis by (intro that) (auto simp: exact_num_ords_def)
next
  case False
  then show ?thesis by (intro that [of "[]"]) (simp_all add: exact_wf_absent)
qed

interpretation exact_ords: ordinal_index exact_lookup exact_num_ords exact_wf
proof unfold_locales
  fix i k assume wf: "exact_wf i"
  show "exact_lookup i k \<noteq> None"
    by (rule exact_wf_lookup [OF wf, of k]) simp
  fix ords ord assume "exact_lookup i k = Some ords" "ord \<in> set ords"
  then show "ord < exact_num_ords i"
    by (metis exact_wf_lookup [OF wf, of k] option.inject)
qed

lemma exact_build_wf [kurn_inv]:
  assumes small: "length kss < 2 ^ 32"
    and it: "map_iter (exact_add_all new_builder 0 kss) o1" "map_iter (exact_add_all new_builder 0 kss) o2"
    and fin: "exact_finish o1 o2 (exact_add_all new_builder 0 kss) = Inr idx"
  shows "exact_wf idx"
proof -
  have d: "dom (ix_m idx) = dom (exact_add_all new_builder 0 kss)"
    by (rule exact_finish_Inr(2) [OF it fin])
  have "finite (dom (ix_m idx))"
    using it(1) d by (metis List.finite_set map_iter_def)
  moreover have "k \<noteq> '''' \<and> map of_nat (holders kss k) \<noteq> ([] :: u32 list)
      \<and> length (map of_nat (holders kss k) :: u32 list) \<le> maxRun" if "k \<in> dom (ix_m idx)" for k
  proof -
    from that obtain p where p: "exact_add_all new_builder 0 kss k = Some p" by (auto simp: d)
    then show ?thesis
      using build_dom [OF small p] exact_finish_Inr(1) [OF it fin p] by (auto simp: holders_def)
  qed
  ultimately show ?thesis
    using exact_build_lookup [OF small it fin] by (fastforce simp: exact_wf_def exact_num_ords_def)
qed


lemma finish_fill_ords:
  "finish_fill src off idx = Inr idx' \<Longrightarrow>
     ix_numOrds idx' = ix_numOrds idx \<or> (\<exists>(k, p) \<in> set src. p \<noteq> [] \<and> ix_numOrds idx' = last p + 1)"
proof (induction src arbitrary: off idx)
  case (Cons kp src)
  obtain k p where kp: "kp = (k, p)" by force
  from Cons.prems obtain off1 idx1 where "finish_fill src off1 idx1 = Inr idx'" "p \<noteq> []"
    "ix_numOrds idx1 = (if last p + 1 > ix_numOrds idx then last p + 1 else ix_numOrds idx)"
    by (auto simp: kp Let_def simp del: fun_upd_apply split: if_splits)
  then show ?case using Cons.IH [of off1 idx1] by (auto simp: kp split: if_splits)
qed simp

subsection \<open>Saving and restoring\<close>

text \<open>
  The sections a save writes (\<open>engine/artifact/exact.go\<close>): the keys in sorted order back to back,
  their lengths, and their runs back to back. \<open>Restore\<close> of these sections answers every lookup as
  the saved index does.
\<close>

lemma restore_keys_sections:
  assumes "\<forall>(k, p) \<in> set es. k \<noteq> [] \<and> p \<noteq> [] \<and> length p \<le> maxRun"
    and "distinct (map fst es)" "fst ` set es \<inter> dom m = {}"
    and "length pp + length (concat (map snd es)) \<le> maxOff"
  shows "\<exists>m'. restore_keys (pa @ concat (map fst es)) (pp @ concat (map snd es)) i
      (map (\<lambda>x. (int (length (fst x)), int (length (snd x)))) es) (length pa) (length pp) m
      = Inr (length (pa @ concat (map fst es)), length (pp @ concat (map snd es)), m')
    \<and> (\<forall>x \<in> set es. \<exists>off. m' (fst x) = Some (pack off (length (snd x))) \<and> off \<le> maxOff
        \<and> go_slice (pp @ concat (map snd es)) off (off + length (snd x)) = Some (snd x))
    \<and> (\<forall>k. k \<notin> fst ` set es \<longrightarrow> m' k = m k)"
  using assms
proof (induction es arbitrary: pa pp i m)
  case (Cons kp es)
  obtain k p where kp: "kp = (k, p)" by force
  have pre: "\<forall>(k, p) \<in> set es. k \<noteq> [] \<and> p \<noteq> [] \<and> length p \<le> maxRun" "distinct (map fst es)"
    "fst ` set es \<inter> dom (m(k \<mapsto> pack (length pp) (length p))) = {}"
    "length (pp @ p) + length (concat (map snd es)) \<le> maxOff"
    using Cons.prems by (auto simp: kp)
  obtain m' where IH: "restore_keys ((pa @ k) @ concat (map fst es)) ((pp @ p) @ concat (map snd es)) (Suc i)
      (map (\<lambda>x. (int (length (fst x)), int (length (snd x)))) es) (length (pa @ k)) (length (pp @ p))
      (m(k \<mapsto> pack (length pp) (length p)))
      = Inr (length ((pa @ k) @ concat (map fst es)), length ((pp @ p) @ concat (map snd es)), m')"
    and es: "\<forall>x \<in> set es. \<exists>off. m' (fst x) = Some (pack off (length (snd x))) \<and> off \<le> maxOff
        \<and> go_slice ((pp @ p) @ concat (map snd es)) off (off + length (snd x)) = Some (snd x)"
    and out: "\<forall>q. q \<notin> fst ` set es \<longrightarrow> m' q = (m(k \<mapsto> pack (length pp) (length p))) q"
    using Cons.IH [OF pre, of "pa @ k" "Suc i"] by blast
  have kok: "k \<noteq> []" "p \<noteq> []" "length p \<le> maxRun" "m k = None" "length pp \<le> maxOff" "k \<notin> fst ` set es"
    using Cons.prems by (auto simp: kp)
  then have "restore_keys (pa @ concat (map fst (kp # es))) (pp @ concat (map snd (kp # es))) i
      (map (\<lambda>x. (int (length (fst x)), int (length (snd x)))) (kp # es)) (length pa) (length pp) m
      = Inr (length (pa @ concat (map fst (kp # es))), length (pp @ concat (map snd (kp # es))), m')"
    using IH by (simp add: kp Let_def Suc_le_eq)
  moreover have "m' k = Some (pack (length pp) (length p))" using out kok(6) by simp
  ultimately show ?case
    using es out kok(5) by (intro exI [of _ m']) (auto simp: kp)
qed simp

lemma restore_ords_total:
  "- 1 \<notin> set ords \<Longrightarrow> \<exists>n. restore_ords ords n0 = Inr n"
  by (induction ords n0 rule: restore_ords.induct) auto

lemma restore_ords_least:
  "restore_ords ords n0 = Inr n \<Longrightarrow> n0 \<le> N \<Longrightarrow> \<forall>ord \<in> set ords. ord < N \<Longrightarrow> n \<le> N"
  by (induction ords n0 rule: restore_ords.induct) (auto simp: word_succ_le split: if_splits)

lemma zip_maps: "zip (map f xs) (map g xs) = map (\<lambda>x. (f x, g x)) xs"
  by (induction xs) auto

lemma exact_restore_sections:
  assumes ok: "\<forall>x \<in> set es. fst x \<noteq> [] \<and> snd x \<noteq> [] \<and> length (snd x) \<le> maxRun \<and> - 1 \<notin> set (snd x)"
    and dist: "distinct (map fst es)" and total: "length (concat (map snd es)) \<le> maxOff"
  shows "\<exists>idx. exact_restore (concat (map fst es)) (map (\<lambda>x. int (length (fst x))) es)
      (map (\<lambda>x. int (length (snd x))) es) (concat (map snd es)) = Inr idx
    \<and> (\<forall>k. exact_lookup idx k = Some (case map_of es k of None \<Rightarrow> [] | Some run \<Rightarrow> run))
    \<and> (\<forall>N. (\<forall>x \<in> set es. \<forall>ord \<in> set (snd x). ord < N) \<longrightarrow> exact_num_ords idx \<le> N)"
proof -
  have pre: "\<forall>(k, p) \<in> set es. k \<noteq> [] \<and> p \<noteq> [] \<and> length p \<le> maxRun" using ok by fastforce
  obtain m' where rk: "restore_keys (concat (map fst es)) (concat (map snd es)) 0
      (map (\<lambda>x. (int (length (fst x)), int (length (snd x)))) es) 0 0 Map.empty
      = Inr (length (concat (map fst es)), length (concat (map snd es)), m')"
    and hit: "\<forall>x \<in> set es. \<exists>off. m' (fst x) = Some (pack off (length (snd x))) \<and> off \<le> maxOff
        \<and> go_slice (concat (map snd es)) off (off + length (snd x)) = Some (snd x)"
    and miss: "\<forall>k. k \<notin> fst ` set es \<longrightarrow> m' k = None"
    using restore_keys_sections [OF pre dist, of Map.empty "[]" "[]" 0] total by auto
  obtain n where ro: "restore_ords (concat (map snd es)) 0 = Inr n"
    using restore_ords_total [of "concat (map snd es)" 0] ok by auto
  let ?i = "\<lparr>ix_m = m', ix_arena = concat (map fst es), ix_postings = concat (map snd es), ix_numOrds = n\<rparr>"
  have "exact_lookup ?i k = Some (case map_of es k of None \<Rightarrow> [] | Some run \<Rightarrow> run)" for k
  proof (cases "map_of es k")
    case None
    then have "m' k = None" using miss by (simp add: map_of_eq_None_iff)
    then show ?thesis using None by (simp add: exact_lookup_def)
  next
    case (Some run)
    then have x: "(k, run) \<in> set es" by (rule map_of_SomeD)
    then obtain off where "m' k = Some (pack off (length run))" "off \<le> maxOff"
      "go_slice (concat (map snd es)) off (off + length run) = Some run"
      using hit by fastforce
    moreover have "length run \<le> maxRun" using ok x by fastforce
    ultimately show ?thesis using Some by (simp add: lookup_packed)
  qed
  moreover have "\<forall>N. (\<forall>x \<in> set es. \<forall>ord \<in> set (snd x). ord < N) \<longrightarrow> exact_num_ords ?i \<le> N"
    using restore_ords_least [OF ro] by (auto simp: exact_num_ords_def)
  ultimately show ?thesis using rk ro by (auto simp: exact_restore_def zip_maps)
qed

subsection \<open>Properties\<close>

text \<open>
  C6: The exact index is correct. For any entries (each with its list of analyzed keys), whatever
  order Go iterates the builder's map in, the finished index is well formed and looks up, for every
  key, exactly the ordinals of the entries that hold it, ascending and without duplicates, while no
  key is over the run cap; or the build fails, and then with the \<open>KeyOverflowError\<close> of a key that
  really is held by more than \<open>maxRun\<close> entries. The empty key is never indexed.
\<close>

theorem exact_index_correct:
  assumes "length kss < 2 ^ 32"
    and "map_iter (exact_add_all new_builder 0 kss) o1" "map_iter (exact_add_all new_builder 0 kss) o2"
    and "length (concat (map snd (enum_map (exact_add_all new_builder 0 kss) o2))) \<le> maxOff"
  shows "case exact_finish o1 o2 (exact_add_all new_builder 0 kss) of
      Inr idx \<Rightarrow> exact_wf idx \<and> (\<forall>k. exact_lookup idx k = Some (map of_nat (holders kss k))
        \<and> length (holders kss k) \<le> maxRun)
    | Inl e \<Rightarrow> \<exists>k. length (holders kss k) > maxRun \<and> e = KeyOverflowError k (length (holders kss k)) maxRun"
  using exact_build_cap [OF assms] exact_build_lookup [OF assms(1-3)] exact_build_wf [OF assms(1-3)]
  by (auto split: sum.splits)

theorem exact_index_correct_witness:
  "\<exists>idx. exact_finish [''a'', ''b''] [''b'', ''a''] (exact_add_all new_builder 0 [[''a'', ''b''], ['''', ''b'']]) = Inr idx
    \<and> exact_wf idx \<and> exact_lookup idx ''b'' = Some [0, 1] \<and> exact_lookup idx ''a'' = Some [0]
    \<and> exact_lookup idx '''' = Some []"
proof -
  let ?kss = "[[''a'', ''b''], ['''', ''b'']]"
  have b: "exact_add_all new_builder 0 ?kss = [''a'' \<mapsto> [0], ''b'' \<mapsto> [0, 1]]"
    by (auto simp: new_builder_def)
  have it: "map_iter [''a'' \<mapsto> [0 :: u32], ''b'' \<mapsto> [0, 1]] [''a'', ''b'']"
    "map_iter [''a'' \<mapsto> [0 :: u32], ''b'' \<mapsto> [0, 1]] [''b'', ''a'']"
    by (auto simp: map_iter_def)
  have fin: "\<not> isl (exact_finish [''a'', ''b''] [''b'', ''a''] [''a'' \<mapsto> [0], ''b'' \<mapsto> [0, 1]])"
    by (simp add: exact_finish_def maxRun_def maxOff_def Let_def)
  have h: "holders ?kss ''b'' = [0, 1]" "holders ?kss ''a'' = [0]" "holders ?kss '''' = []"
    by (simp_all add: holders_def)
  obtain idx where idx: "exact_finish [''a'', ''b''] [''b'', ''a''] [''a'' \<mapsto> [0], ''b'' \<mapsto> [0, 1]] = Inr idx"
    using fin by (metis isl_def sum.exhaust sum.disc(1))
  have "exact_wf idx \<and> (\<forall>k. exact_lookup idx k = Some (map of_nat (holders ?kss k)) \<and> length (holders ?kss k) \<le> maxRun)"
    using exact_index_correct [of ?kss "[''a'', ''b'']" "[''b'', ''a'']", unfolded b, OF _ it, unfolded idx]
    by (simp add: maxOff_def)
  then have "exact_wf idx" "\<And>k. exact_lookup idx k = Some (map of_nat (holders ?kss k))" by blast+
  then show ?thesis unfolding b using idx by (intro exI [of _ idx]) (simp only: h list.map of_nat_1 simp_thms, simp)
qed

text \<open>
  C24: \<open>Restore\<close> trusts nothing. Whatever bytes an artifact supplies as arena, lengths and postings,
  a \<open>Restore\<close> that succeeds yields a well-formed index (every key non-empty, every run non-empty,
  in range and below the ordinal count), so that no lookup on it panics and every ordinal it returns
  indexes an entry slice of at least \<open>NumOrds\<close> entries.
\<close>

theorem exact_restore_safe:
  assumes "exact_restore arena keyLens runLens postings = Inr idx"
    and "unat (exact_num_ords idx) \<le> length es"
  shows "exact_wf idx \<and> (\<exists>ords. exact_lookup idx k = Some ords \<and> (\<forall>ord \<in> set ords. unat ord < length es))"
proof -
  have wf: "exact_wf idx" by (rule exact_restore_wf [OF assms(1)])
  obtain ords where "exact_lookup idx k = Some ords" "\<forall>ord \<in> set ords. unat ord < length es"
    by (rule exact_ords.read_all_entries [OF wf assms(2), of k])
  then show ?thesis using wf by blast
qed

theorem exact_restore_safe_witness:
  "\<exists>idx. exact_restore ''abc'' [2, 1] [2, 1] [0, 1, 1] = Inr idx \<and> exact_wf idx
    \<and> (\<exists>ords. exact_lookup idx ''ab'' = Some ords \<and> (\<forall>ord \<in> set ords. unat ord < length [True, False]))"
proof -
  obtain idx where i: "exact_restore ''abc'' [2, 1] [2, 1] [0, 1, 1] = Inr idx" "exact_num_ords idx = 2"
    by (simp add: exact_restore_def maxRun_def maxOff_def Let_def exact_num_ords_def)
  show ?thesis
    using exact_restore_safe [OF i(1), of "[True, False]" "''ab''"] i by auto
qed

end
