(* ===== verification/Index_Artifact.thy ===== *)
theory Index_Artifact
  imports Exact_Index
begin

text \<open>
  The index artifacts of \<open>engine/artifact\<close> at the level of their bytes: the KURNEXA1 file of an
  exact index, written by \<open>SaveExact\<close> and read back by \<open>LoadExact\<close>. The JSON codec of the header
  is an argument (\<open>marshal\<close>, \<open>unmarshal\<close>); the temporary file, the flush and the rename around
  the bytes are not modelled here.
\<close>

subsection \<open>Data\<close>

record build_info =
  bi_BaseID :: string
  bi_Entries :: int
  bi_DroppedKeys :: int
  bi_KeylessEntries :: int

record exact_meta =
  em_KeyCount :: int
  em_PostingsLen :: int
  em_ArenaLen :: int
  em_Analyzer :: string
  em_Build :: "build_info option"

datatype artifact_error =
    BadMagic
  | HeaderRead
  | HeaderRange nat
  | HeaderJSON
  | Inconsistent
  | Implausible
  | ShortSection
  | LengthsExceed nat
  | TrailingData
  | RestoreFailed exact_error
  | BuildNegative
  | BuildKeyless
  | OrdinalsExceed

definition exactMagic :: string where "exactMagic = ''KURNEXA1''"
definition maxLen :: nat where "maxLen = 2 ^ 20"
definition minExactKeyBytes :: int where "minExactKeyBytes = 7"

definition build_validate :: "build_info option \<Rightarrow> artifact_error option" where
  "build_validate b = (case b of
     None \<Rightarrow> None
   | Some b \<Rightarrow>
       if bi_Entries b < 0 \<or> bi_DroppedKeys b < 0 \<or> bi_KeylessEntries b < 0 then Some BuildNegative
       else if bi_KeylessEntries b > bi_Entries b then Some BuildKeyless
       else None)"

subsection \<open>Varints and little-endian words\<close>

text \<open>
  \<open>binary.PutUvarint\<close> and \<open>binary.ReadUvarint\<close>: seven bits a byte, least significant first, at
  most ten bytes, the tenth at most one. Below that bound no shift leaves 64 bits.
\<close>

fun put_uvarint :: "nat \<Rightarrow> string" where
  "put_uvarint v = (if v < 128 then [char_of v] else char_of (v mod 128 + 128) # put_uvarint (v div 128))"

declare put_uvarint.simps [simp del]

fun read_uvarint_at :: "nat \<Rightarrow> nat \<Rightarrow> string \<Rightarrow> (nat \<times> string) option" where
  "read_uvarint_at i x [] = None"
| "read_uvarint_at i x (c # cs) =
     (if i \<ge> 10 then None
      else
        let b = (of_char c :: nat) in
        if b < 128 then (if i = 9 \<and> b > 1 then None else Some (x + b * 2 ^ (7 * i), cs))
        else read_uvarint_at (Suc i) (x + b mod 128 * 2 ^ (7 * i)) cs)"

definition read_uvarint :: "string \<Rightarrow> (nat \<times> string) option" where
  "read_uvarint cs = read_uvarint_at 0 0 cs"

definition put_le32 :: "u32 \<Rightarrow> string" where
  "put_le32 w = map char_of [unat w mod 256, unat w div 256 mod 256, unat w div 65536 mod 256,
     unat w div 16777216 mod 256]"

fun le32s :: "string \<Rightarrow> u32 list" where
  "le32s (a # b # c # d # cs) =
     of_nat (of_char a + 256 * of_char b + 65536 * of_char c + 16777216 * of_char d) # le32s cs"
| "le32s _ = []"

subsection \<open>SaveExact and LoadExact\<close>

definition save_exact ::
  "(exact_meta \<Rightarrow> string) \<Rightarrow> string list \<Rightarrow> exact_index \<Rightarrow> string \<Rightarrow> build_info \<Rightarrow> string option" where
  "save_exact marshal order idx analyzerDigest build =
     (let keys = exact_sorted_keys order idx in
      case those (map (exact_lookup idx) keys) of
        None \<Rightarrow> None
      | Some runs \<Rightarrow>
          let arenaLen = length (concat keys);
              postLen = length (concat runs);
              hdr = marshal \<lparr>em_KeyCount = int (length keys), em_PostingsLen = int postLen,
                em_ArenaLen = int arenaLen, em_Analyzer = analyzerDigest, em_Build = Some build\<rparr>
          in Some (exactMagic @ put_uvarint (length hdr) @ hdr
               @ concat keys
               @ concat (map (\<lambda>(k, run). put_uvarint (length k) @ put_uvarint (length run)) (zip keys runs))
               @ concat (map put_le32 (concat runs))))"

definition read_full :: "nat \<Rightarrow> string \<Rightarrow> (string \<times> string) option" where
  "read_full n cs = (if n \<le> length cs then Some (take n cs, drop n cs) else None)"

fun read_lens ::
  "exact_meta \<Rightarrow> nat \<Rightarrow> nat \<Rightarrow> string \<Rightarrow> artifact_error + ((int \<times> int) list \<times> string)" where
  "read_lens m i 0 cs = Inr ([], cs)"
| "read_lens m i (Suc n) cs =
     (case read_uvarint cs of
        None \<Rightarrow> Inl ShortSection
      | Some (kl, cs1) \<Rightarrow>
          (case read_uvarint cs1 of
             None \<Rightarrow> Inl ShortSection
           | Some (rl, cs2) \<Rightarrow>
               if int kl > em_ArenaLen m \<or> int rl > em_PostingsLen m then Inl (LengthsExceed i)
               else (case read_lens m (Suc i) n cs2 of
                       Inl e \<Rightarrow> Inl e
                     | Inr (ls, cs3) \<Rightarrow> Inr ((int kl, int rl) # ls, cs3))))"

definition load_exact_body ::
  "exact_meta \<Rightarrow> string \<Rightarrow> artifact_error + (exact_index \<times> string \<times> build_info option)" where
  "load_exact_body m cs =
     (case read_full (nat (em_ArenaLen m)) cs of
        None \<Rightarrow> Inl ShortSection
      | Some (arena, cs1) \<Rightarrow>
     (case read_lens m 0 (nat (em_KeyCount m)) cs1 of
        Inl e \<Rightarrow> Inl e
      | Inr (ls, cs2) \<Rightarrow>
     (case read_full (4 * nat (em_PostingsLen m)) cs2 of
        None \<Rightarrow> Inl ShortSection
      | Some (raw, cs3) \<Rightarrow>
     (if cs3 \<noteq> [] then Inl TrailingData
      else case exact_restore arena (map fst ls) (map snd ls) (le32s raw) of
        Inl e \<Rightarrow> Inl (RestoreFailed e)
      | Inr idx \<Rightarrow>
     (case build_validate (em_Build m) of
        Some e \<Rightarrow> Inl e
      | None \<Rightarrow>
         let build = (case em_Build m of
               None \<Rightarrow> None
             | Some b \<Rightarrow> if bi_Entries b = 0 \<and> exact_num_ords idx > 0 then None else Some b)
         in case build of
              None \<Rightarrow> Inr (idx, em_Analyzer m, None)
            | Some b \<Rightarrow>
                if int (unat (exact_num_ords idx)) > bi_Entries b then Inl OrdinalsExceed
                else Inr (idx, em_Analyzer m, Some b))))))"

definition load_exact ::
  "(string \<Rightarrow> exact_meta option) \<Rightarrow> string
    \<Rightarrow> artifact_error + (exact_index \<times> string \<times> build_info option)" where
  "load_exact unmarshal file =
     (case read_full (length exactMagic) file of
        None \<Rightarrow> Inl BadMagic
      | Some (got, r) \<Rightarrow>
     (if got \<noteq> exactMagic then Inl BadMagic
      else case read_uvarint r of
        None \<Rightarrow> Inl HeaderRead
      | Some (hlen, r1) \<Rightarrow>
     (if hlen = 0 \<or> hlen > maxLen then Inl (HeaderRange hlen)
      else case read_full hlen r1 of
        None \<Rightarrow> Inl HeaderRead
      | Some (hdr, r2) \<Rightarrow>
     (case unmarshal hdr of
        None \<Rightarrow> Inl HeaderJSON
      | Some m \<Rightarrow>
         let size = int (length file) in
         if em_KeyCount m < 0 \<or> em_PostingsLen m < em_KeyCount m \<or> em_ArenaLen m < em_KeyCount m
         then Inl Inconsistent
         else if em_KeyCount m > size div minExactKeyBytes then Inl Implausible
         else if em_ArenaLen m > size then Inl Implausible
         else if em_PostingsLen m > size div 4 then Inl Implausible
         else load_exact_body m r2))))"

subsection \<open>What the artifact promises\<close>

text \<open>
  \<open>exact_sections\<close> is what the file stores of an index, key by key in sorted order;
  \<open>exact_header\<close> is the header that describes it.
\<close>

definition exact_sections :: "string list \<Rightarrow> exact_index \<Rightarrow> (string \<times> u32 list) list" where
  "exact_sections order idx = map (\<lambda>k. (k, the (exact_lookup idx k))) (exact_sorted_keys order idx)"

definition exact_header :: "string list \<Rightarrow> exact_index \<Rightarrow> string \<Rightarrow> build_info \<Rightarrow> exact_meta" where
  "exact_header order idx analyzerDigest build =
     (let es = exact_sections order idx in
      \<lparr>em_KeyCount = int (length es), em_PostingsLen = int (length (concat (map snd es))),
       em_ArenaLen = int (length (concat (map fst es))), em_Analyzer = analyzerDigest, em_Build = Some build\<rparr>)"

subsection \<open>Round trips of the encodings\<close>

lemma of_char_char_of_nat [simp]: "n < 256 \<Longrightarrow> (of_char (char_of n :: char) :: nat) = n"
  by simp

lemma read_put_uvarint_at:
  "v < 2 ^ (64 - 7 * i) \<Longrightarrow> i \<le> 9 \<Longrightarrow>
     read_uvarint_at i x (put_uvarint v @ rest) = Some (x + v * 2 ^ (7 * i), rest)"
proof (induction v arbitrary: i x rule: put_uvarint.induct)
  case (1 v)
  show ?case
  proof (cases "v < 128")
    case True
    have "\<not> (i = 9 \<and> v > 1)" using "1.prems" by auto
    then show ?thesis using True "1.prems" by (auto simp: put_uvarint.simps [of v])
  next
    case False
    have i: "i \<le> 8"
    proof (rule ccontr)
      assume "\<not> i \<le> 8"
      then have "i = 9" using "1.prems" by simp
      then show False using "1.prems" False by simp
    qed
    have "64 - 7 * i = (64 - 7 * Suc i) + 7" using i by simp
    then have "(2 ^ (64 - 7 * i) :: nat) = 2 ^ (64 - 7 * Suc i) * 2 ^ 7"
      by (metis power_add)
    then have v: "v div 128 < 2 ^ (64 - 7 * Suc i)"
      using "1.prems" by (auto intro!: less_mult_imp_div_less)
    have rec: "read_uvarint_at (Suc i) (x + v mod 128 * 2 ^ (7 * i)) (put_uvarint (v div 128) @ rest)
        = Some (x + v mod 128 * 2 ^ (7 * i) + v div 128 * 2 ^ (7 * Suc i), rest)"
      using "1.IH" [OF False v] i by simp
    have split: "v mod 128 * 2 ^ (7 * i) + v div 128 * 2 ^ (7 * Suc i) = v * 2 ^ (7 * i)"
    proof -
      have "v mod 128 * 2 ^ (7 * i) + v div 128 * 2 ^ (7 * Suc i) = (v mod 128 + v div 128 * 128) * 2 ^ (7 * i)"
        by (simp only: power_add distrib_right mult_Suc_right) simp
      then show ?thesis by simp
    qed
    have b: "(of_char (char_of (v mod 128 + 128) :: char) :: nat) = v mod 128 + 128"
      by (rule of_char_char_of_nat) (use mod_less_divisor [of 128 v] in linarith)
    show ?thesis
      using False i rec b split by (simp add: put_uvarint.simps [of v] add.assoc)
  qed
qed

lemma read_put_uvarint [simp]: "v < 2 ^ 64 \<Longrightarrow> read_uvarint (put_uvarint v @ rest) = Some (v, rest)"
  using read_put_uvarint_at [of v 0 0 rest] by (simp add: read_uvarint_def)

lemma put_uvarint_length: "1 \<le> length (put_uvarint v)"
  by (subst put_uvarint.simps) simp

lemma u32_bytes:
  assumes "(n :: nat) < 2 ^ 32"
  shows "n mod 256 + 256 * (n div 256 mod 256) + 65536 * (n div 65536 mod 256)
    + 16777216 * (n div 16777216 mod 256) = n"
proof -
  define a where "a = n div 256"
  define b where "b = a div 256"
  define c where "c = b div 256"
  have "n div 65536 = b" "n div 16777216 = c"
    by (simp_all add: a_def b_def c_def flip: div_mult2_eq)
  moreover have "c mod 256 = c" using assms by (simp add: c_def b_def a_def flip: div_mult2_eq)
  moreover have "256 * c + b mod 256 = b" "256 * b + a mod 256 = a" "256 * a + n mod 256 = n"
    by (simp_all add: a_def b_def c_def)
  moreover have "x + 256 * y + 65536 * z + 16777216 * c = n"
    if "256 * c + z = b" "256 * b + y = a" "256 * a + x = n" for x y z
    using that by simp
  ultimately show ?thesis by (simp flip: a_def)
qed

lemma le32s_put [simp]: "le32s (put_le32 w @ cs) = w # le32s cs"
proof -
  have lt: "unat w < 2 ^ 32" using unsigned_less [of w] by simp
  have "of_nat (unat w mod 256 + 256 * (unat w div 256 mod 256) + 65536 * (unat w div 65536 mod 256)
      + 16777216 * (unat w div 16777216 mod 256)) = w"
    unfolding u32_bytes [OF lt] by simp
  then show ?thesis by (simp add: put_le32_def del: of_nat_add of_nat_mult)
qed

lemma le32s_concat [simp]: "le32s (concat (map put_le32 ws)) = ws"
  by (induction ws) simp_all

lemma length_le32s [simp]: "length (concat (map put_le32 ws)) = 4 * length ws"
  by (induction ws) (simp_all add: put_le32_def)

lemma read_full_append [simp]: "n = length xs \<Longrightarrow> read_full n (xs @ ys) = Some (xs, ys)"
  by (simp add: read_full_def)

lemma read_full_all [simp]: "n = length xs \<Longrightarrow> read_full n xs = Some (xs, [])"
  by (simp add: read_full_def)
lemma read_lens_put:
  assumes "\<forall>x \<in> set es. int (length (fst x)) \<le> em_ArenaLen m \<and> int (length (snd x)) \<le> em_PostingsLen m
      \<and> length (fst x) < 2 ^ 64 \<and> length (snd x) < 2 ^ 64"
  shows "read_lens m i (length es)
      (concat (map (\<lambda>x. put_uvarint (length (fst x)) @ put_uvarint (length (snd x))) es) @ rest)
    = Inr (map (\<lambda>x. (int (length (fst x)), int (length (snd x)))) es, rest)"
  using assms by (induction es arbitrary: i) simp_all

lemma load_exact_body_sections:
  assumes ok: "\<forall>x \<in> set es. fst x \<noteq> [] \<and> snd x \<noteq> [] \<and> length (snd x) \<le> maxRun \<and> - 1 \<notin> set (snd x)"
    and dist: "distinct (map fst es)" and total: "length (concat (map snd es)) \<le> maxOff"
    and lens: "\<forall>x \<in> set es. length (fst x) < 2 ^ 64"
    and m: "em_KeyCount m = int (length es)" "em_PostingsLen m = int (length (concat (map snd es)))"
      "em_ArenaLen m = int (length (concat (map fst es)))" "em_Build m = Some build"
    and build: "build_validate (Some build) = None" "int (unat N) \<le> bi_Entries build"
    and N: "\<forall>x \<in> set es. \<forall>ord \<in> set (snd x). ord < N"
  shows "\<exists>idx. load_exact_body m (concat (map fst es)
      @ concat (map (\<lambda>x. put_uvarint (length (fst x)) @ put_uvarint (length (snd x))) es)
      @ concat (map put_le32 (concat (map snd es)))) = Inr (idx, em_Analyzer m, Some build)
    \<and> (\<forall>k. exact_lookup idx k = Some (case map_of es k of None \<Rightarrow> [] | Some run \<Rightarrow> run))
    \<and> exact_num_ords idx \<le> N \<and> exact_wf idx"
proof -
  obtain idx where idx: "exact_restore (concat (map fst es)) (map (\<lambda>x. int (length (fst x))) es)
      (map (\<lambda>x. int (length (snd x))) es) (concat (map snd es)) = Inr idx"
    "\<forall>k. exact_lookup idx k = Some (case map_of es k of None \<Rightarrow> [] | Some run \<Rightarrow> run)"
    "exact_num_ords idx \<le> N"
    using exact_restore_sections [OF ok dist total] N by blast
  have sizes: "\<forall>x \<in> set es. int (length (fst x)) \<le> em_ArenaLen m \<and> int (length (snd x)) \<le> em_PostingsLen m
      \<and> length (fst x) < 2 ^ 64 \<and> length (snd x) < 2 ^ 64"
    using lens ok length_le_concat [of _ es fst] length_le_concat [of _ es snd] by (fastforce simp: m maxRun_def)
  have "int (unat (exact_num_ords idx)) \<le> bi_Entries build"
    using idx(3) build(2) by (meson of_nat_mono order_trans word_le_nat_alt)
  moreover have "\<not> (bi_Entries build = 0 \<and> exact_num_ords idx > 0)"
    using calculation by (metis linorder_not_less of_nat_0_less_iff unat_0 word_less_nat_alt)
  moreover have "exact_wf idx" by (rule exact_restore_wf [OF idx(1)])
  ultimately show ?thesis
    using idx build(1) read_lens_put [OF sizes, of 0]
    by (auto simp: load_exact_body_def m comp_def)
qed
lemma exact_sorted_keys_set:
  assumes "map_iter (ix_m idx) order"
  shows "set (exact_sorted_keys order idx) = dom (ix_m idx)" "distinct (exact_sorted_keys order idx)"
  using assms by (auto simp: exact_sorted_keys_def map_iter_enum(1) map_iter_def)

lemma those_map_Some: "\<forall>x \<in> set xs. f x = Some (g x) \<Longrightarrow> those (map f xs) = Some (map g xs)"
  by (induction xs) auto

lemma exact_wf_run:
  assumes "exact_wf idx" "k \<in> dom (ix_m idx)"
  shows "exact_lookup idx k = Some (the (exact_lookup idx k)) \<and> k \<noteq> [] \<and> the (exact_lookup idx k) \<noteq> []
    \<and> length (the (exact_lookup idx k)) \<le> maxRun \<and> - 1 \<notin> set (the (exact_lookup idx k))
    \<and> (\<forall>ord \<in> set (the (exact_lookup idx k)). ord < exact_num_ords idx)"
proof -
  obtain run where run: "exact_lookup idx k = Some run" "run \<noteq> []" "length run \<le> maxRun"
    "\<forall>ord \<in> set run. ord < ix_numOrds idx" "k \<noteq> []"
    using assms unfolding exact_wf_def by blast
  have "- 1 \<notin> set run"
    using run(4) word_order.extremum [of "ix_numOrds idx"] leD by blast
  then show ?thesis using run by (simp add: exact_num_ords_def)
qed

lemma map_of_exact_sections:
  assumes "map_iter (ix_m idx) order" "exact_wf idx"
  shows "Some (case map_of (exact_sections order idx) k of None \<Rightarrow> [] | Some run \<Rightarrow> run) = exact_lookup idx k"
proof (cases "k \<in> dom (ix_m idx)")
  case True
  obtain run where "exact_lookup idx k = Some run"
    using exact_wf_run [OF assms(2) True] by blast
  then show ?thesis
    using exact_sorted_keys_set(1) [OF assms(1)] True by (simp add: exact_sections_def map_of_map_restrict)
next
  case False
  then show ?thesis
    using exact_sorted_keys_set(1) [OF assms(1)] by (simp add: exact_sections_def map_of_map_restrict exact_wf_absent)
qed
lemma save_exact_bytes:
  assumes "map_iter (ix_m idx) order" "exact_wf idx"
  shows "save_exact marshal order idx digest build =
    (let es = exact_sections order idx; hdr = marshal (exact_header order idx digest build)
     in Some (exactMagic @ put_uvarint (length hdr) @ hdr @ concat (map fst es)
          @ concat (map (\<lambda>x. put_uvarint (length (fst x)) @ put_uvarint (length (snd x))) es)
          @ concat (map put_le32 (concat (map snd es)))))"
proof -
  have "those (map (exact_lookup idx) (exact_sorted_keys order idx))
      = Some (map (\<lambda>k. the (exact_lookup idx k)) (exact_sorted_keys order idx))"
    using exact_wf_run [OF assms(2)] exact_sorted_keys_set(1) [OF assms(1)]
    by (intro those_map_Some) blast
  moreover have "zip ks (map f ks) = map (\<lambda>k. (k, f k)) ks" for ks :: "string list" and f :: "string \<Rightarrow> u32 list"
    by (induction ks) auto
  ultimately show ?thesis
    by (simp add: save_exact_def exact_sections_def exact_header_def Let_def comp_def case_prod_beta)
qed

lemma concat_length_ge: "\<forall>x \<in> set xs. n \<le> length (f x) \<Longrightarrow> n * length xs \<le> length (concat (map f xs))"
  by (induction xs) auto

lemma length_exactMagic [simp]: "length exactMagic = 8"
  by (simp add: exactMagic_def)

lemma save_load_exact:
  assumes wf: "exact_wf idx" and it: "map_iter (ix_m idx) order"
    and codec: "unmarshal (marshal (exact_header order idx digest build)) = Some (exact_header order idx digest build)"
      "length (marshal (exact_header order idx digest build)) \<in> {1..maxLen}"
    and build: "build_validate (Some build) = None" "int (unat (exact_num_ords idx)) \<le> bi_Entries build"
    and saved: "save_exact marshal order idx digest build = Some file" and small: "length file < 2 ^ 46"
  shows "\<exists>idx'. load_exact unmarshal file = Inr (idx', digest, Some build) \<and> exact_wf idx'
    \<and> (\<forall>k. exact_lookup idx' k = exact_lookup idx k) \<and> exact_num_ords idx' \<le> exact_num_ords idx"
proof -
  define es where "es = exact_sections order idx"
  define m where "m = exact_header order idx digest build"
  have m_def': "m = \<lparr>em_KeyCount = int (length es), em_PostingsLen = int (length (concat (map snd es))),
           em_ArenaLen = int (length (concat (map fst es))), em_Analyzer = digest, em_Build = Some build\<rparr>"
    by (simp add: m_def exact_header_def Let_def es_def)
  define lens where "lens = concat (map (\<lambda>x. put_uvarint (length (fst x)) @ put_uvarint (length (snd x))) es)"
  define body where "body = concat (map fst es) @ lens @ concat (map put_le32 (concat (map snd es)))"
  have file': "file = exactMagic @ put_uvarint (length (marshal m)) @ marshal m @ body"
    using saved save_exact_bytes [OF it wf] by (simp add: Let_def m_def es_def lens_def body_def)
  have keys: "set (map fst es) = dom (ix_m idx)" "distinct (map fst es)"
    using exact_sorted_keys_set [OF it] by (simp_all add: es_def exact_sections_def comp_def)
  have ok: "\<forall>x \<in> set es. fst x \<noteq> [] \<and> snd x \<noteq> [] \<and> length (snd x) \<le> maxRun \<and> - 1 \<notin> set (snd x)
      \<and> (\<forall>ord \<in> set (snd x). ord < exact_num_ords idx)"
    using exact_wf_run [OF wf] exact_sorted_keys_set(1) [OF it] by (auto simp: es_def exact_sections_def)
  have counts: "length es \<le> length (concat (map fst es))" "length es \<le> length (concat (map snd es))"
    "2 * length es \<le> length lens"
  proof -
    show "length es \<le> length (concat (map fst es))" "length es \<le> length (concat (map snd es))"
      using concat_length_ge [of es 1 fst] concat_length_ge [of es 1 snd] ok by (auto simp: Suc_le_eq)
    have "2 \<le> length (put_uvarint a @ put_uvarint b)" for a b
      using add_mono [OF put_uvarint_length [of a] put_uvarint_length [of b]] by simp
    then show "2 * length es \<le> length lens"
      unfolding lens_def by (intro concat_length_ge) blast
  qed
  have size: "length body = length (concat (map fst es)) + length lens + 4 * length (concat (map snd es))"
    "length body \<le> length file"
    unfolding body_def file' by simp_all
  have total: "length (concat (map snd es)) \<le> maxOff" using size small by (simp add: maxOff_def)
  have klens: "\<forall>x \<in> set es. length (fst x) < 2 ^ 64"
    using length_le_concat [of _ es fst] size small by fastforce
  obtain idx' where "load_exact_body m body = Inr (idx', em_Analyzer m, Some build)"
    "\<forall>k. exact_lookup idx' k = Some (case map_of es k of None \<Rightarrow> [] | Some run \<Rightarrow> run)"
    "exact_num_ords idx' \<le> exact_num_ords idx" "exact_wf idx'"
    using load_exact_body_sections [of es m build "exact_num_ords idx"] ok keys(2) total klens build
    unfolding body_def lens_def by (auto simp: m_def')
  moreover have "em_KeyCount m \<le> int (length file) div minExactKeyBytes" "em_ArenaLen m \<le> int (length file)"
    "em_PostingsLen m \<le> int (length file) div 4"
    using size counts by (simp_all add: m_def' minExactKeyBytes_def)
  moreover have "em_KeyCount m \<ge> 0" "em_PostingsLen m \<ge> em_KeyCount m" "em_ArenaLen m \<ge> em_KeyCount m"
    using counts by (simp_all add: m_def')
  moreover have "length (marshal m) < 2 ^ 64"
    using codec(2) by (simp add: m_def maxLen_def)
  ultimately show ?thesis
    using codec map_of_exact_sections [OF it wf]
    unfolding m_def [symmetric] by (intro exI [of _ idx']) (auto simp: load_exact_def file' es_def m_def')
qed
subsection \<open>Properties\<close>

text \<open>
  C12: An exact index survives its artifact. Saving a well-formed index always produces bytes (no
  slice panics), and for a file that stays below \<open>2^46\<close> bytes (the 44-bit posting offset of the
  locator, in 4-byte postings) loading those bytes passes every consistency, plausibility, trailing-data
  and build-info check and yields a well-formed index that answers every lookup as the saved one
  did, together with the saved analyzer digest and build info. The JSON codec has to round-trip the
  one header that is written, in 1 to \<open>2^20\<close> bytes.
\<close>

theorem artifact_exact_roundtrip:
  assumes "exact_wf idx" and "map_iter (ix_m idx) order"
    and "unmarshal (marshal (exact_header order idx digest build)) = Some (exact_header order idx digest build)"
    and "length (marshal (exact_header order idx digest build)) \<in> {1..maxLen}"
    and "build_validate (Some build) = None" and "int (unat (exact_num_ords idx)) \<le> bi_Entries build"
  shows "\<exists>file. save_exact marshal order idx digest build = Some file \<and>
    (length file < 2 ^ 46 \<longrightarrow>
      (\<exists>idx'. load_exact unmarshal file = Inr (idx', digest, Some build) \<and> exact_wf idx'
        \<and> (\<forall>k. exact_lookup idx' k = exact_lookup idx k) \<and> exact_num_ords idx' \<le> exact_num_ords idx))"
proof -
  obtain data where f: "save_exact marshal order idx digest build = Some data"
    using save_exact_bytes [OF assms(2,1)] by (simp add: Let_def)
  show ?thesis
    by (rule exI [of _ data]) (use f save_load_exact [of idx order unmarshal marshal digest build data, OF assms f] in blast)
qed

definition demo_index :: exact_index where
  "demo_index = \<lparr>ix_m = [''ab'' \<mapsto> pack 0 2, ''c'' \<mapsto> pack 2 1], ix_arena = ''abc'',
     ix_postings = [0, 1, 1], ix_numOrds = 2\<rparr>"

definition demo_header :: exact_meta where
  "demo_header = \<lparr>em_KeyCount = 2, em_PostingsLen = 3, em_ArenaLen = 3, em_Analyzer = ''d'',
     em_Build = Some \<lparr>bi_BaseID = ''b'', bi_Entries = 2, bi_DroppedKeys = 0, bi_KeylessEntries = 0\<rparr>\<rparr>"

theorem artifact_exact_roundtrip_witness:
  "\<exists>file. save_exact (\<lambda>m. ''{}'') [''c'', ''ab''] demo_index ''d''
      \<lparr>bi_BaseID = ''b'', bi_Entries = 2, bi_DroppedKeys = 0, bi_KeylessEntries = 0\<rparr> = Some file \<and>
    (length file < 2 ^ 46 \<longrightarrow>
      (\<exists>idx'. load_exact (\<lambda>s. Some demo_header) file = Inr (idx', ''d'',
          Some \<lparr>bi_BaseID = ''b'', bi_Entries = 2, bi_DroppedKeys = 0, bi_KeylessEntries = 0\<rparr>) \<and> exact_wf idx'
        \<and> (\<forall>k. exact_lookup idx' k = exact_lookup demo_index k) \<and> exact_num_ords idx' \<le> exact_num_ords demo_index))"
proof (rule artifact_exact_roundtrip)
  let ?b = "\<lparr>bi_BaseID = ''b'', bi_Entries = 2, bi_DroppedKeys = 0, bi_KeylessEntries = 0\<rparr> :: build_info"
  have l: "exact_lookup demo_index ''ab'' = Some [0, 1]" "exact_lookup demo_index ''c'' = Some [1]"
    by (simp_all add: exact_lookup_def demo_index_def pack_off pack_len maxOff_def maxRun_def go_slice_def)
  have d: "dom (ix_m demo_index) = {''ab'', ''c''}" by (auto simp: demo_index_def)
  show "exact_wf demo_index" using l d by (auto simp: exact_wf_def demo_index_def maxRun_def)
  show "map_iter (ix_m demo_index) [''c'', ''ab'']" using d by (auto simp: map_iter_def)
  have "exact_header [''c'', ''ab''] demo_index ''d'' ?b = demo_header"
    using l by (simp add: exact_header_def exact_sections_def exact_sorted_keys_def demo_header_def) (simp add: demo_index_def)
  then show "Some demo_header = Some (exact_header [''c'', ''ab''] demo_index ''d'' ?b)" by simp
qed (simp_all add: maxLen_def build_validate_def demo_index_def exact_num_ords_def)

end
