(* ===== verification/Go_Strings.thy ===== *)
theory Go_Strings
  imports Kurn_Prelude
begin

text \<open>
  The part of Go's string handling the sources use: the UTF-8 decoding that \<open>range\<close>, \<open>[]rune\<close>,
  \<open>string([]rune)\<close> and \<open>utf8.RuneCountInString\<close> share, and a few functions of package \<open>strings\<close>.
  An invalid byte decodes to U+FFFD with width one, as the language specifies.
\<close>

subsection \<open>Runes\<close>

type_synonym rune = nat

abbreviation byte :: "char \<Rightarrow> nat" where "byte c \<equiv> of_char c"

definition rune_error :: rune where "rune_error = 65533"

definition cont :: "char \<Rightarrow> bool" where "cont c \<longleftrightarrow> 128 \<le> byte c \<and> byte c < 192"

definition second_ok :: "nat \<Rightarrow> nat \<Rightarrow> bool" where
  "second_ok b0 b1 \<longleftrightarrow>
     (if b0 = 224 then 160 \<le> b1 \<and> b1 < 192
      else if b0 = 237 then 128 \<le> b1 \<and> b1 < 160
      else if b0 = 240 then 144 \<le> b1 \<and> b1 < 192
      else if b0 = 244 then 128 \<le> b1 \<and> b1 < 144
      else 128 \<le> b1 \<and> b1 < 192)"

text \<open>\<open>rune_width\<close> is the number of bytes the first rune of a non-empty string takes, and whether they
  are a valid encoding.\<close>

definition valid_width :: "string \<Rightarrow> nat option" where
  "valid_width s = (case s of
     [] \<Rightarrow> None
   | c0 # r \<Rightarrow>
       if byte c0 < 128 then Some 1
       else if byte c0 < 194 then None
       else if byte c0 < 224 then
         (case r of c1 # _ \<Rightarrow> if cont c1 then Some 2 else None | _ \<Rightarrow> None)
       else if byte c0 < 240 then
         (case r of c1 # c2 # _ \<Rightarrow> if second_ok (byte c0) (byte c1) \<and> cont c2 then Some 3 else None | _ \<Rightarrow> None)
       else if byte c0 < 245 then
         (case r of c1 # c2 # c3 # _ \<Rightarrow>
            if second_ok (byte c0) (byte c1) \<and> cont c2 \<and> cont c3 then Some 4 else None | _ \<Rightarrow> None)
       else None)"

definition rune_width :: "string \<Rightarrow> nat" where
  "rune_width s = (case valid_width s of Some w \<Rightarrow> w | None \<Rightarrow> 1)"

definition chunk_rune :: "string \<Rightarrow> rune" where
  "chunk_rune s = (case valid_width s of
     None \<Rightarrow> rune_error
   | Some w \<Rightarrow>
       if w = 1 then byte (s ! 0)
       else if w = 2 then byte (s ! 0) mod 32 * 64 + byte (s ! 1) mod 64
       else if w = 3 then byte (s ! 0) mod 16 * 4096 + byte (s ! 1) mod 64 * 64 + byte (s ! 2) mod 64
       else byte (s ! 0) mod 8 * 262144 + byte (s ! 1) mod 64 * 4096 + byte (s ! 2) mod 64 * 64
         + byte (s ! 3) mod 64)"

lemma rune_width_pos: "0 < rune_width s"
  by (auto simp: rune_width_def valid_width_def split: option.splits list.splits if_splits)

function (sequential) chunks :: "string \<Rightarrow> string list" where
  "chunks [] = []"
| "chunks s = take (rune_width s) s # chunks (drop (rune_width s) s)"
  by pat_completeness auto
termination
  by (relation "measure length") (use rune_width_pos in \<open>auto intro!: diff_less\<close>)

definition runes :: "string \<Rightarrow> rune list" where
  "runes s = map chunk_rune (chunks s)"

definition rune_count :: "string \<Rightarrow> nat" where
  "rune_count s = length (chunks s)"

definition encode_rune :: "rune \<Rightarrow> string" where
  "encode_rune r =
     (if r < 128 then [char_of r]
      else if r < 2048 then [char_of (192 + r div 64), char_of (128 + r mod 64)]
      else if 1114111 < r \<or> 55296 \<le> r \<and> r \<le> 57343 then map char_of [239 :: nat, 191, 189]
      else if r < 65536 then
        [char_of (224 + r div 4096), char_of (128 + r div 64 mod 64), char_of (128 + r mod 64)]
      else [char_of (240 + r div 262144), char_of (128 + r div 4096 mod 64), char_of (128 + r div 64 mod 64),
        char_of (128 + r mod 64)])"

definition of_runes :: "rune list \<Rightarrow> string" where
  "of_runes rs = concat (map encode_rune rs)"

definition valid_utf8 :: "string \<Rightarrow> bool" where
  "valid_utf8 s \<longleftrightarrow> (\<forall>c \<in> set (chunks s). valid_width c \<noteq> None)"

definition strip_spaces :: "string \<Rightarrow> string" where
  "strip_spaces s = filter (\<lambda>c. c \<noteq> CHR '' '') s"

subsection \<open>Facts\<close>

lemma concat_chunks [simp]: "concat (chunks s) = s"
  by (induction s rule: chunks.induct) simp_all

lemma chunks_Nil_iff [simp]: "chunks s = [] \<longleftrightarrow> s = []"
  by (cases s) simp_all

lemma byte_less: "byte c < 256"
  by (cases c) (simp add: of_char_def)

lemma valid_width_take:
  "valid_width s = Some w \<Longrightarrow> valid_width (take w s) = Some w \<and> length (take w s) = w"
  by (auto simp: valid_width_def split: list.splits if_splits)

lemma chunk_nonempty: "c \<in> set (chunks s) \<Longrightarrow> c \<noteq> []"
  by (induction s rule: chunks.induct) (use rune_width_pos in \<open>auto simp: neq0_conv [symmetric] simp del: neq0_conv\<close>)

lemma char_of_byte: "n = byte c \<Longrightarrow> char_of n = c"
  by simp

lemma digit64: "z < 64 \<Longrightarrow> (a * 64 + z) div 64 = a \<and> (a * 64 + z) mod 64 = (z :: nat)"
  by simp

lemma encode_two:
  assumes "194 \<le> b0" "b0 < 224" "128 \<le> b1" "b1 < (192 :: nat)" "r = b0 mod 32 * 64 + b1 mod 64"
  shows "128 \<le> r \<and> r < 2048 \<and> 192 + r div 64 = b0 \<and> 128 + r mod 64 = b1"
proof -
  have "192 \<le> b0" using assms(1) by simp
  then obtain x y where xy: "b0 = 192 + x" "b1 = 128 + y"
    using assms(3) by (metis le_add_diff_inverse)
  then have lt: "2 \<le> x" "x < 32" "y < 64" using assms by auto
  have "(192 + x) mod 32 = x" "(128 + y) mod 64 = y"
    using lt mod_mult_self2 [of x 32 6] mod_mult_self2 [of y 64 2] by (simp_all add: add.commute)
  then have r: "r = x * 64 + y" using assms(5) xy by simp
  show ?thesis using lt digit64 [OF lt(3), of x] unfolding r xy by linarith
qed

lemma encode_three:
  assumes "224 \<le> b0" "b0 < 240" "second_ok b0 b1" "128 \<le> b2" "b2 < 192"
    and r: "r = b0 mod 16 * 4096 + b1 mod 64 * 64 + b2 mod 64"
  shows "2048 \<le> r \<and> r < 65536 \<and> \<not> (55296 \<le> r \<and> r \<le> 57343) \<and> 224 + r div 4096 = b0
    \<and> 128 + r div 64 mod 64 = b1 \<and> 128 + r mod 64 = b2"
proof -
  have b1: "128 \<le> b1" "b1 < 192" using assms(3) by (auto simp: second_ok_def split: if_splits)
  obtain x y z where xyz: "b0 = 224 + x" "b1 = 128 + y" "b2 = 128 + z"
    using assms(1,4) b1(1) by (metis le_add_diff_inverse)
  then have lt: "x < 16" "y < 64" "z < 64" using assms b1 by auto
  have "(224 + x) mod 16 = x" "(128 + y) mod 64 = y" "(128 + z) mod 64 = z"
    using lt mod_mult_self2 [of x 16 14] mod_mult_self2 [of y 64 2] mod_mult_self2 [of z 64 2]
    by (simp_all add: add.commute)
  then have r': "r = (x * 64 + y) * 64 + z" and rl: "r = 4096 * x + 64 * y + z" using r xyz by simp_all
  have s: "x = 0 \<Longrightarrow> 32 \<le> y" "x = 13 \<Longrightarrow> y < 32"
    using assms(3) by (auto simp: second_ok_def xyz split: if_splits)
  have d: "r div 64 = x * 64 + y" "r mod 64 = z"
    unfolding r' using digit64 [OF lt(3), of "x * 64 + y"] by blast+
  then have "r div 4096 = x" "r div 64 mod 64 = y"
    using digit64 [OF lt(2), of x] div_mult2_eq [of r 64 64] by simp_all
  moreover have "2048 \<le> r" using r' s(1) by (cases "x = 0") simp_all
  moreover have le: "x \<le> 15" "y \<le> 63" "z \<le> 63" using lt by simp_all
  moreover have "r < 65536" using rl le by linarith
  moreover have "\<not> (55296 \<le> r \<and> r \<le> 57343)"
  proof (cases "x = 13")
    case False
    then have "x \<le> 12 \<or> 14 \<le> x" by linarith
    then show ?thesis using rl le by linarith
  qed (use rl le s(2) in linarith)
  ultimately show ?thesis using d xyz by simp
qed

lemma encode_four:
  assumes "240 \<le> b0" "b0 < 245" "second_ok b0 b1" "128 \<le> b2" "b2 < 192" "128 \<le> b3" "b3 < 192"
    and r: "r = b0 mod 8 * 262144 + b1 mod 64 * 4096 + b2 mod 64 * 64 + b3 mod 64"
  shows "65536 \<le> r \<and> r \<le> 1114111 \<and> 240 + r div 262144 = b0 \<and> 128 + r div 4096 mod 64 = b1
    \<and> 128 + r div 64 mod 64 = b2 \<and> 128 + r mod 64 = b3"
proof -
  have b1: "128 \<le> b1" "b1 < 192" using assms(3) by (auto simp: second_ok_def split: if_splits)
  obtain x y z u where xyz: "b0 = 240 + x" "b1 = 128 + y" "b2 = 128 + z" "b3 = 128 + u"
    using assms(1,4,6) b1(1) by (metis le_add_diff_inverse)
  then have lt: "x < 5" "y < 64" "z < 64" "u < 64" using assms b1 by auto
  have "(240 + x) mod 8 = x" "(128 + y) mod 64 = y" "(128 + z) mod 64 = z" "(128 + u) mod 64 = u"
    using lt mod_mult_self2 [of x 8 30] mod_mult_self2 [of y 64 2] mod_mult_self2 [of z 64 2] mod_mult_self2 [of u 64 2]
    by (simp_all add: add.commute)
  then have r': "r = ((x * 64 + y) * 64 + z) * 64 + u" and rl: "r = 262144 * x + 4096 * y + 64 * z + u"
    using r xyz by simp_all
  have s: "x = 0 \<Longrightarrow> 16 \<le> y" "x = 4 \<Longrightarrow> y < 16"
    using assms(3) by (auto simp: second_ok_def xyz split: if_splits)
  have d: "r div 64 = (x * 64 + y) * 64 + z" "r mod 64 = u"
    unfolding r' using digit64 [OF lt(4), of "(x * 64 + y) * 64 + z"] by blast+
  then have d2: "r div 4096 = x * 64 + y" "r div 64 mod 64 = z"
    using digit64 [OF lt(3), of "x * 64 + y"] div_mult2_eq [of r 64 64] by simp_all
  then have "r div 262144 = x" "r div 4096 mod 64 = y"
    using digit64 [OF lt(2), of x] div_mult2_eq [of r 4096 64] by simp_all
  moreover have "65536 \<le> r" using r' s(1) by (cases "x = 0") simp_all
  moreover have "r \<le> 1114111"
  proof (cases "x = 4")
    case True
    then have "y \<le> 15" "z \<le> 63" "u \<le> 63" using lt s(2) by simp_all
    then show ?thesis using rl True by linarith
  next
    case False
    then have "x \<le> 3" "y \<le> 63" "z \<le> 63" "u \<le> 63" using lt by simp_all
    then show ?thesis using rl by linarith
  qed
  ultimately show ?thesis using d d2 xyz by simp
qed

lemma encode_chunk:
  assumes "valid_width c = Some (length c)"
  shows "encode_rune (chunk_rune c) = c"
proof -
  have cases: "(\<exists>a. c = [a] \<and> byte a < 128)
    \<or> (\<exists>a b. c = [a, b] \<and> 194 \<le> byte a \<and> byte a < 224 \<and> cont b)
    \<or> (\<exists>a b d. c = [a, b, d] \<and> 224 \<le> byte a \<and> byte a < 240 \<and> second_ok (byte a) (byte b) \<and> cont d)
    \<or> (\<exists>a b d e. c = [a, b, d, e] \<and> 240 \<le> byte a \<and> byte a < 245 \<and> second_ok (byte a) (byte b)
        \<and> cont d \<and> cont e)"
    using assms by (auto simp: valid_width_def split: list.splits if_splits)
  then consider
      (1) a where "c = [a]" "byte a < 128"
    | (2) a b where "c = [a, b]" "194 \<le> byte a" "byte a < 224" "cont b"
    | (3) a b d where "c = [a, b, d]" "224 \<le> byte a" "byte a < 240" "second_ok (byte a) (byte b)" "cont d"
    | (4) a b d e where "c = [a, b, d, e]" "240 \<le> byte a" "byte a < 245" "second_ok (byte a) (byte b)"
        "cont d" "cont e"
    by blast
  then show ?thesis
  proof cases
    case 1
    then show ?thesis using assms by (simp add: chunk_rune_def encode_rune_def)
  next
    case (2 a b)
    define r where "r = byte a mod 32 * 64 + byte b mod 64"
    have "chunk_rune c = r" using assms 2(1) by (simp add: chunk_rune_def r_def)
    moreover have "128 \<le> r \<and> r < 2048 \<and> 192 + r div 64 = byte a \<and> 128 + r mod 64 = byte b"
      using encode_two [of "byte a" "byte b" r] 2 by (simp add: cont_def r_def)
    ultimately show ?thesis using 2(1) by (simp add: encode_rune_def)
  next
    case (3 a b d)
    define r where "r = byte a mod 16 * 4096 + byte b mod 64 * 64 + byte d mod 64"
    have "chunk_rune c = r" using assms 3(1) by (simp add: chunk_rune_def r_def)
    moreover have "2048 \<le> r \<and> r < 65536 \<and> \<not> (55296 \<le> r \<and> r \<le> 57343) \<and> 224 + r div 4096 = byte a
        \<and> 128 + r div 64 mod 64 = byte b \<and> 128 + r mod 64 = byte d"
      using encode_three [of "byte a" "byte b" "byte d" r] 3 by (simp add: cont_def r_def)
    ultimately show ?thesis using 3(1) by (auto simp: encode_rune_def)
  next
    case (4 a b d e)
    define r where "r = byte a mod 8 * 262144 + byte b mod 64 * 4096 + byte d mod 64 * 64 + byte e mod 64"
    have "chunk_rune c = r" using assms 4(1) by (simp add: chunk_rune_def r_def)
    moreover have "65536 \<le> r \<and> r \<le> 1114111 \<and> 240 + r div 262144 = byte a \<and> 128 + r div 4096 mod 64 = byte b
        \<and> 128 + r div 64 mod 64 = byte d \<and> 128 + r mod 64 = byte e"
      using encode_four [of "byte a" "byte b" "byte d" "byte e" r] 4 by (simp add: cont_def r_def)
    ultimately show ?thesis using 4(1) by (simp add: encode_rune_def)
  qed
qed

lemma chunk_width:
  "c \<in> set (chunks s) \<Longrightarrow> valid_width c = Some w \<Longrightarrow> w = length c"
proof (induction s rule: chunks.induct)
  case (2 v va)
  show ?case
  proof (cases "c \<in> set (chunks (drop (rune_width (v # va)) (v # va)))")
    case False
    then have c: "c = take (rune_width (v # va)) (v # va)" using "2.prems" by simp
    show ?thesis
    proof (cases "valid_width (v # va)")
      case None
      then have "c = [v]" using c by (simp add: rune_width_def)
      then show ?thesis using "2.prems"(2) by (auto simp: valid_width_def split: if_splits)
    next
      case (Some w')
      then show ?thesis
        using c valid_width_take [OF Some] "2.prems"(2) by (auto simp: rune_width_def)
    qed
  qed (use "2.IH" "2.prems" in blast)
qed simp

lemma valid_chunk: "valid_utf8 s \<Longrightarrow> c \<in> set (chunks s) \<Longrightarrow> encode_rune (chunk_rune c) = c"
  unfolding valid_utf8_def using chunk_width encode_chunk by blast

lemma of_runes_chunks: "\<forall>c \<in> set cs. encode_rune (chunk_rune c) = c \<Longrightarrow> of_runes (map chunk_rune cs) = concat cs"
  by (induction cs) (simp_all add: of_runes_def)

text \<open>The round trip \<open>string([]rune(s)) = s\<close> of valid text.\<close>

lemma of_runes_runes: "valid_utf8 s \<Longrightarrow> of_runes (runes s) = s"
  using of_runes_chunks [of "chunks s"] valid_chunk [of s] by (simp add: runes_def)

end
