(* ===== verification/Go_Float.thy ===== *)
theory Go_Float
  imports Complex_Main Kurn_Prelude
begin

text \<open>
  Go's floating-point arithmetic as the engine uses it. A finite value is the rational it denotes;
  a computation is the exact operation followed by a rounding. The roundings and \<open>math.Log\<close> are
  the fields of a \<open>float_model\<close>: \<open>ieee\<close> rounds to nearest-even at 53 and 24 bits, \<open>exact_arith\<close>
  does not round and states what the formulas mean. The values met here (IDF weights between
  \<open>ln 2\<close> and 23, sums of them, fractions of those sums) are far from the subnormal and overflow
  ranges, so neither is modelled. Thresholds come from outside and may be any \<open>float64\<close>.
\<close>

subsection \<open>Data\<close>

datatype f64 = Fin rat | PInf | NInf | NaN

record float_model =
  fl_r64 :: "rat \<Rightarrow> rat"
  fl_r32 :: "rat \<Rightarrow> rat"
  fl_log :: "rat \<Rightarrow> rat"

subsection \<open>Comparisons and products with a threshold\<close>

fun f_less :: "f64 \<Rightarrow> rat \<Rightarrow> bool" where
  "f_less (Fin x) y = (x < y)"
| "f_less NInf y = True"
| "f_less _ y = False"

fun f_greater :: "f64 \<Rightarrow> rat \<Rightarrow> bool" where
  "f_greater (Fin x) y = (x > y)"
| "f_greater PInf y = True"
| "f_greater _ y = False"

fun f_neg :: "f64 \<Rightarrow> f64" where
  "f_neg (Fin x) = Fin (- x)"
| "f_neg PInf = NInf"
| "f_neg NInf = PInf"
| "f_neg NaN = NaN"

text \<open>\<open>f_scale r t m\<close> is the product of \<open>t\<close> and a finite positive \<open>m\<close>; \<open>f_rsub r m t\<close> is \<open>m - t\<close>.\<close>

fun f_scale :: "(rat \<Rightarrow> rat) \<Rightarrow> f64 \<Rightarrow> rat \<Rightarrow> f64" where
  "f_scale r (Fin x) m = Fin (r (x * m))"
| "f_scale r t m = (if m = 0 then NaN else if m < 0 then f_neg t else t)"

fun f_rsub :: "(rat \<Rightarrow> rat) \<Rightarrow> rat \<Rightarrow> f64 \<Rightarrow> f64" where
  "f_rsub r m (Fin x) = Fin (r (m - x))"
| "f_rsub r m t = f_neg t"

definition go_round :: "rat \<Rightarrow> rat" where
  "go_round x = (if x < 0 then - of_int \<lfloor>1 / 2 - x\<rfloor> else of_int \<lfloor>x + 1 / 2\<rfloor>)"

subsection \<open>Rounding to a significand\<close>

function bit_len :: "int \<Rightarrow> int" where
  "bit_len n = (if n \<le> 0 then 0 else 1 + bit_len (n div 2))"
  by pat_completeness auto
termination
  by (relation "measure nat") auto

declare bit_len.simps [simp del]

definition pow2 :: "int \<Rightarrow> rat" where
  "pow2 e = (if e \<ge> 0 then 2 ^ nat e else 1 / 2 ^ nat (- e))"

definition round_even :: "rat \<Rightarrow> int" where
  "round_even q =
     (let f = \<lfloor>q\<rfloor>; r = q - of_int f in
      if r < 1 / 2 then f else if r > 1 / 2 then f + 1 else if even f then f else f + 1)"

definition round_bits :: "nat \<Rightarrow> rat \<Rightarrow> rat" where
  "round_bits p x =
     (if x = 0 then 0
      else
        let (n, d) = quotient_of \<bar>x\<bar>;
            e0 = bit_len n - bit_len d - int p;
            e = (if pow2 (int p) \<le> \<bar>x\<bar> / pow2 e0 then e0 + 1 else e0)
        in (if x < 0 then - 1 else 1) * of_int (round_even (\<bar>x\<bar> / pow2 e)) * pow2 e)"

definition ieee :: "(rat \<Rightarrow> rat) \<Rightarrow> float_model" where
  "ieee lg = \<lparr>fl_r64 = round_bits 53, fl_r32 = round_bits 24, fl_log = lg\<rparr>"

definition exact_arith :: "(rat \<Rightarrow> rat) \<Rightarrow> float_model" where
  "exact_arith lg = \<lparr>fl_r64 = (\<lambda>x. x), fl_r32 = (\<lambda>x. x), fl_log = lg\<rparr>"

end
