(* ===== verification/Topk_Heap.thy ===== *)
theory Topk_Heap
  imports Kurn_Prelude
begin

text \<open>
  The two bounded selections of the engine keep their best \<open>K\<close> elements in a binary heap with the
  worst element at the root: \<open>siftWorst\<close>/\<open>heapifyWorst\<close> of \<open>engine/ngram/ngram.go\<close> over hits, and
  \<open>anyOfSelection\<close> (\<open>up\<close>, \<open>down\<close>, \<open>push\<close>, \<open>admits\<close>) of \<open>engine/list.go\<close> over entry IDs. Both are
  modelled once, over the comparison they use (\<open>worse a b\<close>: \<open>a\<close> ranks strictly worse than \<open>b\<close>), and
  verified in the locale \<open>worst_first\<close> of comparisons that come from a linear order.
\<close>

subsection \<open>The heap operations\<close>

definition swap :: "nat \<Rightarrow> nat \<Rightarrow> 'a list \<Rightarrow> 'a list" where
  "swap i j h = h[i := h ! j, j := h ! i]"

definition worst_child :: "('a \<Rightarrow> 'a \<Rightarrow> bool) \<Rightarrow> 'a list \<Rightarrow> nat \<Rightarrow> nat" where
  "worst_child worse h i =
     (let l = 2 * i + 1; r = 2 * i + 2;
          w = (if l < length h \<and> worse (h ! l) (h ! i) then l else i)
      in if r < length h \<and> worse (h ! r) (h ! w) then r else w)"

lemma worst_child_bound: "worst_child worse h i \<noteq> i \<Longrightarrow> i < worst_child worse h i \<and> worst_child worse h i < length h"
  by (auto simp: worst_child_def Let_def split: if_splits)

lemma length_swap [simp]: "length (swap i j h) = length h"
  by (simp add: swap_def)

function sift_down :: "('a \<Rightarrow> 'a \<Rightarrow> bool) \<Rightarrow> 'a list \<Rightarrow> nat \<Rightarrow> 'a list" where
  "sift_down worse h i =
     (let w = worst_child worse h i in if w = i then h else sift_down worse (swap i w h) w)"
  by pat_completeness auto
termination
  by (relation "measure (\<lambda>(worse, h, i). length h - i)") (auto dest!: worst_child_bound)

function sift_up :: "('a \<Rightarrow> 'a \<Rightarrow> bool) \<Rightarrow> 'a list \<Rightarrow> nat \<Rightarrow> 'a list" where
  "sift_up worse h i =
     (if i = 0 then h
      else let p = (i - 1) div 2 in
        if \<not> worse (h ! i) (h ! p) then h else sift_up worse (swap p i h) p)"
  by pat_completeness auto
termination
  by (relation "measure (\<lambda>(worse, h, i). i)") auto

declare sift_down.simps [simp del] sift_up.simps [simp del]

fun heapify_from :: "('a \<Rightarrow> 'a \<Rightarrow> bool) \<Rightarrow> nat \<Rightarrow> 'a list \<Rightarrow> 'a list" where
  "heapify_from worse 0 h = h"
| "heapify_from worse (Suc i) h = heapify_from worse i (sift_down worse h i)"

definition heapify :: "('a \<Rightarrow> 'a \<Rightarrow> bool) \<Rightarrow> 'a list \<Rightarrow> 'a list" where
  "heapify worse h = heapify_from worse (length h div 2) h"

text \<open>One step of the bounded collection of \<open>lookup\<close>: append below \<open>K\<close>, then heapify once and replace
  the root by anything that is not worse than it.\<close>

fun topk_step :: "('a \<Rightarrow> 'a \<Rightarrow> bool) \<Rightarrow> nat \<Rightarrow> 'a \<Rightarrow> 'a list \<times> bool \<Rightarrow> 'a list \<times> bool" where
  "topk_step worse k x (out, heaped) =
     (if k = 0 \<or> length out < k then (out @ [x], heaped)
      else
        let out1 = (if heaped then out else heapify worse out) in
        if worse x (out1 ! 0) then (out1, True)
        else (sift_down worse (out1[0 := x]) 0, True))"

fun topk_loop :: "('a \<Rightarrow> 'a \<Rightarrow> bool) \<Rightarrow> nat \<Rightarrow> 'a list \<Rightarrow> 'a list \<times> bool \<Rightarrow> 'a list \<times> bool" where
  "topk_loop worse k [] st = st"
| "topk_loop worse k (x # xs) st = topk_loop worse k xs (topk_step worse k x st)"

text \<open>\<open>push\<close> of the any-of selection: append, sift up, and evict the root when over \<open>K\<close>.\<close>

definition heap_push :: "('a \<Rightarrow> 'a \<Rightarrow> bool) \<Rightarrow> nat \<Rightarrow> 'a \<Rightarrow> 'a list \<Rightarrow> 'a list \<times> 'a option" where
  "heap_push worse k x items =
     (let h = sift_up worse (items @ [x]) (length items) in
      if k > 0 \<and> length h > k then
        let n = length h - 1; h1 = swap 0 n h
        in (sift_down worse (take n h1) 0, Some (h1 ! n))
      else (h, None))"

subsection \<open>What every comparison preserves\<close>

lemma mset_swap_eq [simp]: "i < length h \<Longrightarrow> j < length h \<Longrightarrow> mset (swap i j h) = mset h"
  unfolding swap_def by (rule mset_swap)

lemma sift_down_mset [simp]: "mset (sift_down worse h i) = mset h"
proof (induction worse h i rule: sift_down.induct)
  case (1 worse h i)
  show ?case
    by (subst sift_down.simps) (use "1.IH" worst_child_bound [of worse h i] in \<open>auto simp: Let_def\<close>)
qed

lemma sift_up_mset [simp]: "i < length h \<Longrightarrow> mset (sift_up worse h i) = mset h"
proof (induction worse h i rule: sift_up.induct)
  case (1 worse h i)
  show ?case
    by (subst sift_up.simps) (use "1.IH" "1.prems" in \<open>auto simp: Let_def\<close>)
qed

lemma heapify_mset [simp]: "mset (heapify worse h) = mset h"
proof -
  have "mset (heapify_from worse i h) = mset h" for i
    by (induction i arbitrary: h) simp_all
  then show ?thesis by (simp add: heapify_def)
qed

lemma sift_length [simp]: "length (sift_down worse h i) = length h" "length (heapify worse h) = length h"
  by (metis sift_down_mset size_mset) (metis heapify_mset size_mset)

lemma sift_up_length [simp]: "i < length h \<Longrightarrow> length (sift_up worse h i) = length h"
  by (metis sift_up_mset size_mset)

subsection \<open>Orders with the worst element first\<close>

locale worst_first =
  fixes worse :: "'a \<Rightarrow> 'a \<Rightarrow> bool" and key :: "'a \<Rightarrow> 'k::linorder"
  assumes worse_key: "worse a b \<longleftrightarrow> key b < key a"
begin

definition heap_at :: "'a list \<Rightarrow> nat \<Rightarrow> bool" where
  "heap_at h p \<longleftrightarrow> (\<forall>c \<in> {2 * p + 1, 2 * p + 2}. c < length h \<longrightarrow> key (h ! c) \<le> key (h ! p))"

definition heap_from :: "'a list \<Rightarrow> nat \<Rightarrow> bool" where
  "heap_from h k \<longleftrightarrow> (\<forall>p \<ge> k. heap_at h p)"

lemma worst_child_cases:
  assumes "worst_child worse h i \<noteq> i"
  shows "worst_child worse h i \<in> {2 * i + 1, 2 * i + 2}"
    and "key (h ! i) < key (h ! worst_child worse h i)"
    and "\<forall>c \<in> {2 * i + 1, 2 * i + 2}. c < length h \<longrightarrow> key (h ! c) \<le> key (h ! worst_child worse h i)"
  using assms by (auto simp: worst_child_def Let_def worse_key split: if_splits)

lemma worst_child_self: "worst_child worse h i = i \<Longrightarrow> heap_at h i"
  by (auto simp: worst_child_def heap_at_def Let_def worse_key split: if_splits)

lemma swap_nth:
  assumes "i < length h" "j < length h"
  shows "swap i j h ! m = (if m = i then h ! j else if m = j then h ! i else h ! m)"
  using assms by (auto simp: swap_def nth_list_update)

lemma sift_down_heap:
  assumes "\<forall>p \<ge> k. p \<noteq> i \<longrightarrow> heap_at h p" "k \<le> i"
    and "\<forall>p \<ge> k. i \<in> {2 * p + 1, 2 * p + 2} \<longrightarrow>
      (\<forall>c \<in> {2 * i + 1, 2 * i + 2}. c < length h \<longrightarrow> key (h ! c) \<le> key (h ! p))"
  shows "heap_from (sift_down worse h i) k"
  using assms
proof (induction "length h - i" arbitrary: h i rule: less_induct)
  case less
  define w where "w = worst_child worse h i"
  show ?case
  proof (cases "w = i")
    case True
    then have "sift_down worse h i = h" by (simp add: sift_down.simps [of worse h i] w_def)
    moreover have "heap_at h i" using True worst_child_self w_def by simp
    ultimately show ?thesis using less.prems(1) by (auto simp: heap_from_def)
  next
    case False
    have w: "i < w" "w < length h" "w \<in> {2 * i + 1, 2 * i + 2}" "key (h ! i) < key (h ! w)"
      "\<forall>c \<in> {2 * i + 1, 2 * i + 2}. c < length h \<longrightarrow> key (h ! c) \<le> key (h ! w)"
      using worst_child_cases [of h i] worst_child_bound [of worse h i] False by (auto simp: w_def)
    let ?h = "swap i w h"
    have nth: "?h ! m = (if m = i then h ! w else if m = w then h ! i else h ! m)" for m
      using w by (intro swap_nth) simp_all
    have le_i: "key (h ! c) \<le> key (h ! p)" if "p \<ge> k" "p \<noteq> i" "c \<in> {2 * p + 1, 2 * p + 2}" "c < length h" for p c
      using less.prems(1) that by (auto simp: heap_at_def)
    have "heap_at ?h p" if "p \<ge> k" "p \<noteq> w" for p
      unfolding heap_at_def
    proof (intro ballI impI)
      fix c assume c: "c \<in> {2 * p + 1, 2 * p + 2}" "c < length ?h"
      show "key (?h ! c) \<le> key (?h ! p)"
      proof (cases "p = i")
        case True
        then show ?thesis using w c nth by auto
      next
        case pi: False
        have "c \<noteq> w" using c w(3) pi by auto
        then show ?thesis
          using that pi c le_i [OF that(1) pi c(1)] less.prems(3) w(2,3) by (auto simp: nth)
      qed
    qed
    moreover have "\<forall>p \<ge> k. w \<in> {2 * p + 1, 2 * p + 2} \<longrightarrow>
      (\<forall>c \<in> {2 * w + 1, 2 * w + 2}. c < length ?h \<longrightarrow> key (?h ! c) \<le> key (?h ! p))"
    proof (intro allI impI ballI)
      fix p c assume a: "p \<ge> k" "w \<in> {2 * p + 1, 2 * p + 2}" "c \<in> {2 * w + 1, 2 * w + 2}" "c < length ?h"
      then have "p = i" using w(3) by auto
      moreover have "key (h ! c) \<le> key (h ! w)" using le_i [of w c] a w less.prems(2) by auto
      ultimately show "key (?h ! c) \<le> key (?h ! p)" using a w by (auto simp: nth)
    qed
    ultimately have "heap_from (sift_down worse ?h w) k"
      using less.hyps [of ?h w] w(1,2) less.prems(2) by simp
    then show ?thesis using False by (simp add: sift_down.simps [of worse h i] Let_def w_def)
  qed
qed

lemma heap_root: "heap_from h 0 \<Longrightarrow> j < length h \<Longrightarrow> key (h ! j) \<le> key (h ! 0)"
proof (induction j rule: less_induct)
  case (less j)
  show ?case
  proof (cases "j = 0")
    case False
    define p where "p = (j - 1) div 2"
    have "p < j" "j \<in> {2 * p + 1, 2 * p + 2}" using False by (auto simp: p_def)
    then show ?thesis
      using less.IH [of p] less.prems by (force simp: heap_from_def heap_at_def)
  qed simp
qed

lemma heapify_from_heap: "heap_from h i \<Longrightarrow> heap_from (heapify_from worse i h) 0"
proof (induction i arbitrary: h)
  case (Suc i)
  then have "heap_from (sift_down worse h i) i"
    by (intro sift_down_heap) (auto simp: heap_from_def)
  then show ?case using Suc.IH by simp
qed simp

lemma heapify_heap: "heap_from (heapify worse h) 0"
  unfolding heapify_def by (rule heapify_from_heap) (auto simp: heap_from_def heap_at_def)

lemma sift_up_heap:
  assumes "\<forall>p c. c \<noteq> i \<longrightarrow> c \<in> {2 * p + 1, 2 * p + 2} \<longrightarrow> c < length h \<longrightarrow> key (h ! c) \<le> key (h ! p)"
    and "i < length h"
    and "\<forall>p. i \<in> {2 * p + 1, 2 * p + 2} \<longrightarrow>
      (\<forall>c \<in> {2 * i + 1, 2 * i + 2}. c < length h \<longrightarrow> key (h ! c) \<le> key (h ! p))"
  shows "heap_from (sift_up worse h i) 0"
  using assms
proof (induction i arbitrary: h rule: less_induct)
  case (less i)
  show ?case
  proof (cases "i = 0")
    case True
    then have "sift_up worse h i = h" by (subst sift_up.simps) simp
    then show ?thesis using less.prems(1) True by (auto simp: heap_from_def heap_at_def)
  next
    case False
    define p where "p = (i - 1) div 2"
    have p: "p < i" "i \<in> {2 * p + 1, 2 * p + 2}" using False by (auto simp: p_def)
    have uniq: "q = p" if "i \<in> {2 * q + 1, 2 * q + 2}" for q using that p(2) by auto
    show ?thesis
    proof (cases "worse (h ! i) (h ! p)")
      case False
      then have "key (h ! i) \<le> key (h ! p)" by (simp add: worse_key)
      then have "key (h ! c) \<le> key (h ! q)" if "c \<in> {2 * q + 1, 2 * q + 2}" "c < length h" for q c
        using less.prems(1) uniq [of q] that by (cases "c = i") auto
      moreover have "sift_up worse h i = h"
        using False \<open>i \<noteq> 0\<close> by (simp add: sift_up.simps [of worse h i] p_def)
      ultimately show ?thesis by (auto simp: heap_from_def heap_at_def)
    next
      case True
      then have kl: "key (h ! p) < key (h ! i)" by (simp add: worse_key)
      let ?h = "swap p i h"
      have nth: "?h ! m = (if m = p then h ! i else if m = i then h ! p else h ! m)" for m
        using p less.prems(2) by (intro swap_nth) simp_all
      have ch: "key (h ! c) \<le> key (h ! q)" if "c \<noteq> i" "c \<in> {2 * q + 1, 2 * q + 2}" "c < length h" for q c
        using less.prems(1) that by blast
      have gp: "key (h ! c) \<le> key (h ! p)" if "c \<in> {2 * i + 1, 2 * i + 2}" "c < length h" for c
        using less.prems(3) p(2) that by blast
      have "\<forall>q c. c \<noteq> p \<longrightarrow> c \<in> {2 * q + 1, 2 * q + 2} \<longrightarrow> c < length ?h \<longrightarrow> key (?h ! c) \<le> key (?h ! q)"
      proof (intro allI impI)
        fix q c assume a: "c \<noteq> p" "c \<in> {2 * q + 1, 2 * q + 2}" "c < length ?h"
        consider "c = i" | "q = i" "c \<noteq> i" | "q = p" "c \<noteq> i" | "c \<noteq> i" "q \<noteq> i" "q \<noteq> p" by blast
        then show "key (?h ! c) \<le> key (?h ! q)"
        proof cases
          case 1
          then show ?thesis using uniq [of q] a kl p by (auto simp: nth)
        next
          case 2
          then show ?thesis using gp a p by (auto simp: nth)
        next
          case 3
          then show ?thesis using ch [of c p] a kl by (auto simp: nth)
        next
          case 4
          then show ?thesis using ch a by (auto simp: nth)
        qed
      qed
      moreover have "\<forall>q. p \<in> {2 * q + 1, 2 * q + 2} \<longrightarrow>
        (\<forall>c \<in> {2 * p + 1, 2 * p + 2}. c < length ?h \<longrightarrow> key (?h ! c) \<le> key (?h ! q))"
      proof (intro allI impI ballI)
        fix q c assume a: "p \<in> {2 * q + 1, 2 * q + 2}" "c \<in> {2 * p + 1, 2 * p + 2}" "c < length ?h"
        have pq: "key (h ! p) \<le> key (h ! q)" using ch [of p q] a p less.prems(2) by auto
        have "q < p" using a(1) by auto
        then show "key (?h ! c) \<le> key (?h ! q)"
          using pq ch [of c p] a p(1) by (cases "c = i") (auto simp: nth)
      qed
      ultimately have "heap_from (sift_up worse ?h p) 0"
        using less.IH [OF p(1), of ?h] p less.prems(2) by simp
      then show ?thesis
        using True \<open>i \<noteq> 0\<close> by (simp add: sift_up.simps [of worse h i] p_def Let_def)
    qed
  qed
qed

text \<open>\<open>best_of k hs out\<close>: \<open>out\<close> holds the best \<open>k\<close> of \<open>hs\<close> (all of them for \<open>k = 0\<close>), in some order.\<close>

definition best_of :: "nat \<Rightarrow> 'a multiset \<Rightarrow> 'a list \<Rightarrow> bool" where
  "best_of k H out \<longleftrightarrow> (\<exists>D. H = mset out + D \<and> (k = 0 \<longrightarrow> D = {#}) \<and> (D \<noteq> {#} \<longrightarrow> length out = k)
     \<and> (k > 0 \<longrightarrow> length out \<le> k) \<and> (\<forall>a \<in> set out. \<forall>b \<in># D. key a \<le> key b))"

lemma best_of_Nil: "best_of k {#} []"
  by (auto simp: best_of_def)

lemma best_of_add:
  assumes "best_of k H out" "k = 0 \<or> length out < k" "mset out' = add_mset x (mset out)"
  shows "best_of k (add_mset x H) out'"
proof -
  from assms(1) obtain D where D: "H = mset out + D" "k = 0 \<longrightarrow> D = {#}" "D \<noteq> {#} \<longrightarrow> length out = k"
    "k > 0 \<longrightarrow> length out \<le> k" by (auto simp: best_of_def)
  have "D = {#}" using D assms(2) by auto
  moreover have "length out' = Suc (length out)" using assms(3) by (metis size_add_mset size_mset)
  ultimately show ?thesis using D assms by (auto simp: best_of_def)
qed

lemma best_of_drop:
  assumes "best_of k H out" "k > 0" "length out = k" "\<forall>a \<in> set out. key a \<le> key x"
    and "mset out' = mset out"
  shows "best_of k (add_mset x H) out'"
proof -
  from assms(1) obtain D where D: "H = mset out + D" "\<forall>a \<in> set out. \<forall>b \<in># D. key a \<le> key b"
    by (auto simp: best_of_def)
  have "set out' = set out" "length out' = length out" using assms(5) by (metis set_mset_mset, metis size_mset)
  then show ?thesis
    unfolding best_of_def using D assms by (intro exI [of _ "add_mset x D"]) auto
qed

lemma best_of_replace:
  assumes "best_of k H out" "k > 0" "length out = k" "r \<in> set out" "\<forall>a \<in> set out. key a \<le> key r"
    and "key x \<le> key r" "mset out' = add_mset x (mset out - {#r#})"
  shows "best_of k (add_mset x H) out'"
proof -
  from assms(1) obtain D where D: "H = mset out + D" "\<forall>a \<in> set out. \<forall>b \<in># D. key a \<le> key b"
    by (auto simp: best_of_def)
  have m: "mset out = add_mset r (mset out - {#r#})" using assms(4) by simp
  have "length out' = k"
    using assms(3,7) m by (metis size_add_mset size_mset)
  moreover have "set out' \<subseteq> insert x (set out)"
    using assms(7) by (metis in_diffD insert_iff set_mset_add_mset_insert set_mset_mset subsetI)
  moreover have "add_mset x H = mset out' + add_mset r D" using D(1) assms(7) m by simp
  ultimately show ?thesis
    unfolding best_of_def using D(2) assms(2,4-6) by (intro exI [of _ "add_mset r D"]) fastforce
qed

definition topk_inv :: "nat \<Rightarrow> 'a multiset \<Rightarrow> 'a list \<times> bool \<Rightarrow> bool" where
  "topk_inv k H st \<longleftrightarrow> best_of k H (fst st) \<and> (snd st \<longrightarrow> heap_from (fst st) 0 \<and> 0 < k \<and> length (fst st) = k)"

lemma nth0_max: "heap_from h 0 \<Longrightarrow> h \<noteq> [] \<Longrightarrow> h ! 0 \<in> set h \<and> (\<forall>a \<in> set h. key a \<le> key (h ! 0))"
  using heap_root by (auto simp: in_set_conv_nth)

lemma topk_step_inv:
  assumes "topk_inv k H st"
  shows "topk_inv k (add_mset x H) (topk_step worse k x st)"
proof -
  obtain out heaped where st: "st = (out, heaped)" by force
  have b: "best_of k H out" and hp: "heaped \<longrightarrow> heap_from out 0 \<and> 0 < k \<and> length out = k"
    using assms by (auto simp: topk_inv_def st)
  show ?thesis
  proof (cases "k = 0 \<or> length out < k")
    case True
    then have "\<not> heaped" using hp by auto
    then show ?thesis
      using best_of_add [OF b True, of "out @ [x]" x] True by (simp add: st topk_inv_def)
  next
    case False
    then have k: "k > 0" "length out = k" using b by (auto simp: best_of_def)
    define o1 where "o1 = (if heaped then out else heapify worse out)"
    have o1: "mset o1 = mset out" "heap_from o1 0" "length o1 = k"
      using hp heapify_heap k by (auto simp: o1_def)
    have b1: "best_of k H o1"
      using b o1 k unfolding best_of_def by (metis set_mset_mset)
    have ne: "o1 \<noteq> []" using o1(3) k by auto
    note mx = nth0_max [OF o1(2) ne]
    show ?thesis
    proof (cases "worse x (o1 ! 0)")
      case True
      then have "\<forall>a \<in> set o1. key a \<le> key x" using mx worse_key by (meson less_imp_le order_trans)
      then have "best_of k (add_mset x H) o1" using best_of_drop [OF b1 k(1) o1(3)] by blast
      then show ?thesis using False True o1(2,3) k(1) by (simp add: st topk_inv_def Let_def flip: o1_def)
    next
      case w: False
      let ?o2 = "sift_down worse (o1[0 := x]) 0"
      have "mset ?o2 = add_mset x (mset o1 - {#o1 ! 0#})" using o1(3) k by (simp add: mset_update)
      then have "best_of k (add_mset x H) ?o2"
        using best_of_replace [OF b1 k(1) o1(3), of "o1 ! 0" x] mx w by (simp add: worse_key)
      moreover have "heap_from ?o2 0"
      proof (rule sift_down_heap)
        show "\<forall>p \<ge> 0. p \<noteq> 0 \<longrightarrow> heap_at (o1[0 := x]) p"
          using o1(2) by (auto simp: heap_from_def heap_at_def nth_list_update)
      qed auto
      ultimately show ?thesis using False w o1(3) k(1) by (simp add: st topk_inv_def Let_def flip: o1_def)
    qed
  qed
qed

lemma topk_loop_inv: "topk_inv k H st \<Longrightarrow> topk_inv k (H + mset xs) (topk_loop worse k xs st)"
proof (induction xs arbitrary: H st)
  case (Cons x xs)
  from Cons.IH [OF topk_step_inv [OF Cons.prems, of x]] show ?case by simp
qed simp

lemma best_of_sorted:
  assumes "best_of k (mset hs) out" "inj_on key (set hs)" "distinct hs"
  shows "sort_key key out = (if k = 0 then sort_key key hs else take k (sort_key key hs))"
proof -
  obtain D where D: "mset hs = mset out + D" "k = 0 \<longrightarrow> D = {#}" "D \<noteq> {#} \<longrightarrow> length out = k"
    "k > 0 \<longrightarrow> length out \<le> k" "\<forall>a \<in> set out. \<forall>b \<in># D. key a \<le> key b"
    using assms(1) by (auto simp: best_of_def)
  obtain ds where ds: "mset ds = D" using ex_mset by blast
  let ?ys = "sort_key key out @ sort_key key ds"
  have perm: "mset ?ys = mset hs" using D(1) ds by simp
  have dist: "distinct ?ys" using assms(3) perm by (metis mset_eq_imp_distinct_iff)
  have "sorted (map key ?ys)" using D(5) ds by (auto simp: sorted_append)
  moreover have "filter (\<lambda>x. key a = key x) ?ys = filter (\<lambda>x. key a = key x) hs" if "a \<in> set ?ys" for a
  proof -
    have eq: "set ?ys = set hs" using perm by (metis set_mset_mset)
    have only: "\<And>zs. set zs = set hs \<Longrightarrow> distinct zs \<Longrightarrow> filter (\<lambda>x. key a = key x) zs = [a]"
    proof -
      fix zs assume z: "set zs = set hs" "distinct zs"
      have "filter (\<lambda>x. key a = key x) zs = filter (\<lambda>x. a = x) zs"
        using assms(2) z that eq by (intro filter_cong) (auto dest: inj_onD)
      also have "\<dots> = [a]" using z that eq by (intro filter_eq_single) auto
      finally show "filter (\<lambda>x. key a = key x) zs = [a]" .
    qed
    show ?thesis using only [OF eq dist] only [OF refl assms(3)] by simp
  qed
  ultimately have "sort_key key hs = ?ys" using perm by (intro properties_for_sort_key) auto
  then show ?thesis using D(2-4) ds by (cases "D = {#}") auto
qed

lemma topk_loop_best:
  assumes "inj_on key (set hs)" "distinct hs"
  shows "sort_key key (fst (topk_loop worse k hs ([], False)))
    = (if k = 0 then sort_key key hs else take k (sort_key key hs))"
proof -
  have "topk_inv k {#} ([], False)" by (simp add: topk_inv_def best_of_Nil)
  from topk_loop_inv [OF this, of hs] have "best_of k (mset hs) (fst (topk_loop worse k hs ([], False)))"
    by (simp add: topk_inv_def)
  from best_of_sorted [OF this assms] show ?thesis .
qed

lemma topk_loop_mset: "k = 0 \<Longrightarrow> topk_loop worse k hs (out, b) = (out @ hs, b)"
  by (induction hs arbitrary: out) simp_all

lemma heap_push_best:
  assumes "best_of k H items" "heap_from items 0" "heap_push worse k x items = (items', ev)"
  shows "best_of k (add_mset x H) items' \<and> heap_from items' 0
    \<and> mset items' + (case ev of None \<Rightarrow> {#} | Some e \<Rightarrow> {#e#}) = add_mset x (mset items)"
proof -
  let ?h = "sift_up worse (items @ [x]) (length items)"
  have ms: "mset ?h = add_mset x (mset items)" and len: "length ?h = Suc (length items)" by simp_all
  have heap: "heap_from ?h 0"
  proof (rule sift_up_heap)
    show "\<forall>p c. c \<noteq> length items \<longrightarrow> c \<in> {2 * p + 1, 2 * p + 2} \<longrightarrow> c < length (items @ [x])
        \<longrightarrow> key ((items @ [x]) ! c) \<le> key ((items @ [x]) ! p)"
      using assms(2) by (auto simp: heap_from_def heap_at_def nth_append)
  qed auto
  show ?thesis
  proof (cases "k > 0 \<and> length ?h > k")
    case False
    then have "items' = ?h" "ev = None" using assms(3) by (auto simp: heap_push_def)
    moreover have "best_of k (add_mset x H) ?h"
      using best_of_add [OF assms(1) _ ms] False len by auto
    ultimately show ?thesis using heap ms by simp
  next
    case True
    then have k: "k > 0" "length items = k" using assms(1) len by (auto simp: best_of_def)
    define n where "n = length items"
    let ?t = "take n (swap 0 n ?h)"
    have n: "n < length ?h" "0 < n" using len k by (auto simp: n_def)
    have res: "items' = sift_down worse ?t 0" "ev = Some (swap 0 n ?h ! n)"
      using assms(3) True len by (auto simp: heap_push_def Let_def n_def)
    have nth: "swap 0 n ?h ! m = (if m = 0 then ?h ! n else if m = n then ?h ! 0 else ?h ! m)" for m
      using n by (intro swap_nth) simp_all
    have split: "swap 0 n ?h = ?t @ [?h ! 0]"
      using n len nth [of n] by (metis Suc_eq_plus1 append_take_drop_id length_swap less_irrefl_nat n_def
          take_Suc_conv_app_nth take_all_iff order_refl)
    have "mset (swap 0 n ?h) = mset ?h" using n by simp
    then have mt: "add_mset (?h ! 0) (mset ?t) = add_mset x (mset items)"
      using ms split by (metis add_mset_add_single mset.simps mset_append union_mset_add_mset_right add.right_neutral)
    have root: "?h ! 0 \<in> set ?h" "\<forall>a \<in> set ?h. key a \<le> key (?h ! 0)"
      using nth0_max [OF heap] len by fastforce+
    have "heap_from items' 0"
      unfolding res(1)
    proof (rule sift_down_heap)
      show "\<forall>p \<ge> 0. p \<noteq> 0 \<longrightarrow> heap_at ?t p"
        using heap by (auto simp: heap_from_def heap_at_def nth)
    qed auto
    moreover have "mset items' + {#?h ! 0#} = add_mset x (mset items)" using mt res(1) by simp
    moreover have "best_of k (add_mset x H) items'"
    proof (cases "?h ! 0 = x")
      case True
      then have "mset items' = mset items" using calculation(2) by simp
      moreover have "\<forall>a \<in> set items. key a \<le> key x"
        using root(2) True ms by (metis insert_iff set_mset_add_mset_insert set_mset_mset)
      ultimately show ?thesis using best_of_drop [OF assms(1) k] by blast
    next
      case False
      then have r: "?h ! 0 \<in> set items"
        using root(1) ms by (metis insert_iff set_mset_add_mset_insert set_mset_mset)
      have "mset items' = add_mset x (mset items - {#?h ! 0#})"
        using calculation(2) r False
        by (metis add_mset_add_single add_mset_remove_trivial diff_union_swap set_mset_mset)
      moreover have "\<forall>a \<in> set items. key a \<le> key (?h ! 0)" "key x \<le> key (?h ! 0)"
        using root(2) ms by (metis insert_iff set_mset_add_mset_insert set_mset_mset)+
      ultimately show ?thesis using best_of_replace [OF assms(1) k r] by blast
    qed
    ultimately show ?thesis using res(2) nth by simp
  qed
qed

end

end
