(* ===== verification/Ngram_Index.thy ===== *)
theory Ngram_Index
  imports Index_Interface Go_Strings Go_Float Topk_Heap "HOL-Library.Product_Lexorder"
begin

text \<open>
  The character n-gram index of \<open>engine/ngram/ngram.go\<close>: gram extraction (\<open>CharGrams\<close>, \<open>EachGram\<close>),
  the builder (\<open>Add\<close>, \<open>Finish\<close>), \<open>Restore\<close>, and the IDF-weighted pigeonhole lookup with its
  generator scan, probes, bounded heap and cancellation polls.

  The roaring bitmaps are third-party code: their operations are the fields of a \<open>roaring\<close> record,
  an argument of every definition that uses them, and \<open>roaring_ok\<close> states what their documentation
  promises. Floating point is an argument too (\<open>float_model\<close>), and so is the order \<open>sort.Slice\<close> leaves
  equal cardinalities in (\<open>srt\<close>, constrained by \<open>slice_sort\<close>). A postings map is an association list.
\<close>

subsection \<open>Data\<close>

record ngram_config =
  nc_Grams :: "nat list"
  nc_StripSpaces :: bool

record 'b roaring =
  bm_new :: 'b
  bm_add :: "'b \<Rightarrow> u32 \<Rightarrow> 'b"
  bm_card :: "'b \<Rightarrow> nat"
  bm_max :: "'b \<Rightarrow> u32"
  bm_contains :: "'b \<Rightarrow> u32 \<Rightarrow> bool"
  bm_list :: "'b \<Rightarrow> u32 list"

record 'b ngram_index =
  ni_cfg :: ngram_config
  ni_postings :: "(string \<times> 'b) list"
  ni_numOrds :: u32

record 'b gram_info =
  gi_bm :: 'b
  gi_idf :: rat
  gi_card :: nat

record hit =
  h_Ord :: u32
  h_Score :: rat

datatype ngram_error =
    RestoreNoGrams
  | RestoreGramSize int
  | RestoreNumOrds u32 u32 string

definition roaring_ok :: "'b roaring \<Rightarrow> bool" where
  "roaring_ok R \<longleftrightarrow>
     bm_list R (bm_new R) = [] \<and>
     (\<forall>b x. set (bm_list R (bm_add R b x)) = insert x (set (bm_list R b))) \<and>
     (\<forall>b. sorted (bm_list R b) \<and> distinct (bm_list R b)) \<and>
     (\<forall>b. bm_card R b = length (bm_list R b)) \<and>
     (\<forall>b. bm_list R b \<noteq> [] \<longrightarrow> bm_max R b = last (bm_list R b)) \<and>
     (\<forall>b x. bm_contains R b x \<longleftrightarrow> x \<in> set (bm_list R b))"

definition slice_sort :: "('b gram_info list \<Rightarrow> 'b gram_info list) \<Rightarrow> bool" where
  "slice_sort srt \<longleftrightarrow> (\<forall>xs. mset (srt xs) = mset xs \<and> sorted (map gi_card (srt xs)))"

definition MaxGramSize :: int where "MaxGramSize = 16"
definition cancelCheckEvery :: nat where "cancelCheckEvery = 4096"

subsection \<open>Grams\<close>

definition char_grams :: "string \<Rightarrow> nat \<Rightarrow> string list" where
  "char_grams s n =
     (let r = runes s in
      if length r < n then [s]
      else dedup {} (map (\<lambda>i. of_runes (take n (drop i r))) [0..<length r - n + 1]))"

definition gram_windows :: "string \<Rightarrow> nat \<Rightarrow> string list" where
  "gram_windows s n =
     (let cs = chunks s; rc = length cs in
      if rc < n then [s] else map (\<lambda>j. concat (take n (drop j cs))) [0..<rc - n + 1])"

definition each_gram :: "string \<Rightarrow> nat list \<Rightarrow> string set \<Rightarrow> string list" where
  "each_gram s sizes seen = dedup seen (concat (map (gram_windows s) sizes))"

definition key_text :: "ngram_config \<Rightarrow> string \<Rightarrow> string" where
  "key_text cfg analyzed = (if nc_StripSpaces cfg then strip_spaces analyzed else analyzed)"

definition index_grams :: "ngram_config \<Rightarrow> string \<Rightarrow> string list" where
  "index_grams cfg analyzed =
     (let s = key_text cfg analyzed in
      if s = '''' then [] else concat (map (char_grams s) (nc_Grams cfg)))"

subsection \<open>Building\<close>

definition ngram_new_builder :: "int list \<Rightarrow> bool \<Rightarrow> 'b ngram_index option" where
  "ngram_new_builder grams strip =
     (if \<exists>n \<in> set grams. n < 1 then None
      else Some \<lparr>ni_cfg = \<lparr>nc_Grams = map nat grams, nc_StripSpaces = strip\<rparr>, ni_postings = [], ni_numOrds = 0\<rparr>)"

definition add_gram :: "'b roaring \<Rightarrow> u32 \<Rightarrow> string \<Rightarrow> (string \<times> 'b) list \<Rightarrow> (string \<times> 'b) list" where
  "add_gram R ord g ps =
     AList.update g (bm_add R (case map_of ps g of None \<Rightarrow> bm_new R | Some bm \<Rightarrow> bm) ord) ps"

definition ngram_add :: "'b roaring \<Rightarrow> 'b ngram_index \<Rightarrow> u32 \<Rightarrow> string list \<Rightarrow> 'b ngram_index" where
  "ngram_add R b ord analyzedKeys =
     (case analyzedKeys of
        [k] \<Rightarrow> b\<lparr>ni_postings := fold (add_gram R ord) (index_grams (ni_cfg b) k) (ni_postings b)\<rparr>
      | ks \<Rightarrow> b\<lparr>ni_postings :=
          fold (add_gram R ord) (dedup {} (concat (map (index_grams (ni_cfg b)) ks))) (ni_postings b)\<rparr>)"

fun finish_max :: "'b roaring \<Rightarrow> (string \<times> 'b) list \<Rightarrow> u32 \<Rightarrow> bool \<Rightarrow> u32 \<times> bool" where
  "finish_max R [] mx anyp = (mx, anyp)"
| "finish_max R ((g, bm) # ps) mx anyp =
     (if bm_card R bm > 0 then finish_max R ps (if bm_max R bm > mx then bm_max R bm else mx) True
      else finish_max R ps mx anyp)"

definition ngram_finish :: "'b roaring \<Rightarrow> 'b ngram_index \<Rightarrow> 'b ngram_index" where
  "ngram_finish R b =
     (let (mx, anyp) = finish_max R (ni_postings b) 0 False
      in if anyp then b\<lparr>ni_numOrds := mx + 1\<rparr> else b)"

definition ngram_num_ords :: "'b ngram_index \<Rightarrow> u32" where
  "ngram_num_ords i = ni_numOrds i"

definition ngram_stats :: "'b ngram_index \<Rightarrow> nat \<times> nat" where
  "ngram_stats i = (unat (ni_numOrds i), length (ni_postings i))"

fun restore_postings :: "'b roaring \<Rightarrow> u32 \<Rightarrow> (string \<times> 'b) list \<Rightarrow> ngram_error option" where
  "restore_postings R numOrds [] = None"
| "restore_postings R numOrds ((g, bm) # ps) =
     (if bm_card R bm = 0 then restore_postings R numOrds ps
      else if numOrds \<le> bm_max R bm then Some (RestoreNumOrds numOrds (bm_max R bm) g)
      else restore_postings R numOrds ps)"

definition ngram_restore ::
  "'b roaring \<Rightarrow> int list \<Rightarrow> bool \<Rightarrow> (string \<times> 'b) list \<Rightarrow> u32 \<Rightarrow> ngram_error + 'b ngram_index" where
  "ngram_restore R grams strip postings numOrds =
     (if grams = [] then Inl RestoreNoGrams
      else case find (\<lambda>g. g < 1 \<or> g > MaxGramSize) grams of
        Some g \<Rightarrow> Inl (RestoreGramSize g)
      | None \<Rightarrow>
          (case restore_postings R numOrds postings of
             Some e \<Rightarrow> Inl e
           | None \<Rightarrow> Inr \<lparr>ni_cfg = \<lparr>nc_Grams = map nat grams, nc_StripSpaces = strip\<rparr>,
               ni_postings = postings, ni_numOrds = numOrds\<rparr>))"

subsection \<open>Lookup\<close>

definition worseHit :: "hit \<Rightarrow> hit \<Rightarrow> bool" where
  "worseHit a b = (if h_Score a \<noteq> h_Score b then h_Score a < h_Score b else h_Ord a > h_Ord b)"

definition hit_rank :: "hit \<Rightarrow> rat \<times> u32" where
  "hit_rank h = (- h_Score h, h_Ord h)"

definition siftWorst :: "hit list \<Rightarrow> nat \<Rightarrow> hit list" where
  "siftWorst h i = sift_down worseHit h i"

definition heapifyWorst :: "hit list \<Rightarrow> hit list" where
  "heapifyWorst h = heapify worseHit h"

definition gram_idf :: "float_model \<Rightarrow> u32 \<Rightarrow> nat \<Rightarrow> rat" where
  "gram_idf F n c = fl_log F (fl_r64 F (1 + fl_r64 F (of_nat (unat n) / of_nat c)))"

fun gather_grams ::
  "float_model \<Rightarrow> 'b roaring \<Rightarrow> 'b ngram_index \<Rightarrow> string list \<Rightarrow> rat \<Rightarrow> 'b gram_info list \<Rightarrow> 'b gram_info list \<times> rat" where
  "gather_grams F R i [] maxScore gi = (gi, maxScore)"
| "gather_grams F R i (g # gs) maxScore gi =
     (case map_of (ni_postings i) g of
        None \<Rightarrow> gather_grams F R i gs maxScore gi
      | Some bm \<Rightarrow>
          let c = bm_card R bm in
          if c = 0 then gather_grams F R i gs maxScore gi
          else
            let idf = gram_idf F (ni_numOrds i) c
            in gather_grams F R i gs (fl_r64 F (maxScore + idf))
                 (gi @ [\<lparr>gi_bm = bm, gi_idf = idf, gi_card = c\<rparr>]))"

fun split_gens ::
  "float_model \<Rightarrow> f64 \<Rightarrow> rat \<Rightarrow> 'b gram_info list \<Rightarrow> 'b gram_info list \<times> 'b gram_info list" where
  "split_gens F needGenIDF accIDF [] = ([], [])"
| "split_gens F needGenIDF accIDF (g # gs) =
     (let acc = fl_r64 F (accIDF + gi_idf g) in
      if f_less needGenIDF acc then ([g], gs)
      else let (gens, probes) = split_gens F needGenIDF acc gs in (g # gens, probes))"

definition probe_total :: "float_model \<Rightarrow> 'b gram_info list \<Rightarrow> rat" where
  "probe_total F ps = foldl (\<lambda>t p. fl_r64 F (t + gi_idf p)) 0 ps"

definition polled :: "(nat \<Rightarrow> bool) \<Rightarrow> nat \<Rightarrow> bool" where
  "polled cx tick \<longleftrightarrow> tick mod cancelCheckEvery = 0 \<and> cx tick"

datatype 'r scan = Panicked | Canceled | Scanned 'r

fun gen_run ::
  "float_model \<Rightarrow> (nat \<Rightarrow> bool) \<Rightarrow> u32 \<Rightarrow> rat \<Rightarrow> u32 list \<Rightarrow> nat \<times> (u32 \<Rightarrow> rat) \<times> u32 list
    \<Rightarrow> (nat \<times> (u32 \<Rightarrow> rat) \<times> u32 list) scan" where
  "gen_run F cx numOrds w [] st = Scanned st"
| "gen_run F cx numOrds w (ord # ords) (tick, counts, touched) =
     (if polled cx (Suc tick) then Canceled
      else if ord \<ge> numOrds then Panicked
      else gen_run F cx numOrds w ords
             (Suc tick, counts(ord := fl_r32 F (counts ord + w)),
              if counts ord = 0 then touched @ [ord] else touched))"

fun gen_scan ::
  "float_model \<Rightarrow> 'b roaring \<Rightarrow> (nat \<Rightarrow> bool) \<Rightarrow> u32 \<Rightarrow> 'b gram_info list \<Rightarrow> nat \<times> (u32 \<Rightarrow> rat) \<times> u32 list
    \<Rightarrow> (nat \<times> (u32 \<Rightarrow> rat) \<times> u32 list) scan" where
  "gen_scan F R cx numOrds [] st = Scanned st"
| "gen_scan F R cx numOrds (g # gs) st =
     (case gen_run F cx numOrds (fl_r32 F (gi_idf g)) (bm_list R (gi_bm g)) st of
        Scanned st1 \<Rightarrow> gen_scan F R cx numOrds gs st1
      | Canceled \<Rightarrow> Canceled
      | Panicked \<Rightarrow> Panicked)"

fun probe_loop ::
  "float_model \<Rightarrow> 'b roaring \<Rightarrow> f64 \<Rightarrow> u32 \<Rightarrow> 'b gram_info list \<Rightarrow> rat \<Rightarrow> rat \<Rightarrow> rat" where
  "probe_loop F R flr ord [] score rem = score"
| "probe_loop F R flr ord (p # ps) score rem =
     (if f_greater flr (fl_r64 F (score + rem)) then score
      else probe_loop F R flr ord ps
             (if bm_contains R (gi_bm p) ord then fl_r64 F (score + gi_idf p) else score)
             (fl_r64 F (rem - gi_idf p)))"

definition hit_score :: "float_model \<Rightarrow> rat \<Rightarrow> rat \<Rightarrow> rat" where
  "hit_score F score maxScore = go_round (fl_r64 F (fl_r64 F (score / maxScore) * 100))"

text \<open>
  The collection loop. \<open>keep\<close> is the caller's predicate with the state it updates; \<open>None\<close> is Go's
  nil predicate.
\<close>

fun collect_hits ::
  "float_model \<Rightarrow> 'b roaring \<Rightarrow> (nat \<Rightarrow> bool) \<Rightarrow> f64 \<Rightarrow> rat \<Rightarrow> 'b gram_info list \<Rightarrow> (u32 \<Rightarrow> rat) \<Rightarrow> nat
    \<Rightarrow> (u32 \<Rightarrow> 's \<Rightarrow> bool \<times> 's) option \<Rightarrow> nat \<Rightarrow> u32 list \<Rightarrow> hit list \<times> bool \<Rightarrow> 's \<Rightarrow> (hit list scan) \<times> 's" where
  "collect_hits F R cx flr maxScore probes counts topK keep tick [] (out, heaped) s = (Scanned out, s)"
| "collect_hits F R cx flr maxScore probes counts topK keep tick (ord # ords) (out, heaped) s =
     (if polled cx (Suc tick) then (Canceled, s)
      else
        let score = probe_loop F R flr ord probes (counts ord) (probe_total F probes) in
        if f_greater flr score then
          collect_hits F R cx flr maxScore probes counts topK keep (Suc tick) ords (out, heaped) s
        else
          let (ok, s1) = (case keep of None \<Rightarrow> (True, s) | Some kp \<Rightarrow> kp ord s) in
          if \<not> ok then collect_hits F R cx flr maxScore probes counts topK keep (Suc tick) ords (out, heaped) s1
          else collect_hits F R cx flr maxScore probes counts topK keep (Suc tick) ords
                 (topk_step worseHit topK \<lparr>h_Ord = ord, h_Score = hit_score F score maxScore\<rparr> (out, heaped)) s1)"

text \<open>
  \<open>lookup\<close> of \<open>Lookup\<close>, \<open>LookupCtx\<close> and \<open>LookupFilteredCtx\<close>. \<open>topK = 0\<close> is unlimited (any \<open>topK \<le> 0\<close>
  of the source); \<open>cx\<close> answers the context poll made at a given iteration.
\<close>

definition ngram_lookup ::
  "float_model \<Rightarrow> 'b roaring \<Rightarrow> ('b gram_info list \<Rightarrow> 'b gram_info list) \<Rightarrow> (nat \<Rightarrow> bool) \<Rightarrow> 'b ngram_index
    \<Rightarrow> string \<Rightarrow> f64 \<Rightarrow> nat \<Rightarrow> (u32 \<Rightarrow> 's \<Rightarrow> bool \<times> 's) option \<Rightarrow> 's \<Rightarrow> (hit list scan) \<times> 's" where
  "ngram_lookup F R srt cx i analyzed threshold topK keep s =
     (let q = key_text (ni_cfg i) analyzed in
      if ni_numOrds i = 0 \<or> q = '''' then (Scanned [], s)
      else
        let (gi0, maxScore) = gather_grams F R i (each_gram q (nc_Grams (ni_cfg i)) {}) 0 [] in
        if gi0 = [] \<or> maxScore = 0 then (Scanned [], s)
        else
          let flr = f_scale (fl_r64 F) threshold maxScore;
              (gens, probes) = split_gens F (f_rsub (fl_r64 F) maxScore flr) 0 (srt gi0)
          in case gen_scan F R cx (ni_numOrds i) gens (0, \<lambda>_. 0, []) of
               Panicked \<Rightarrow> (Panicked, s)
             | Canceled \<Rightarrow> (Canceled, s)
             | Scanned (tick, counts, touched) \<Rightarrow>
                 (case collect_hits F R cx flr maxScore probes counts topK keep tick touched ([], False) s of
                    (Scanned out, s1) \<Rightarrow> (Scanned (sort_key hit_rank out), s1)
                  | r \<Rightarrow> r))"

subsection \<open>What the index promises\<close>

text \<open>
  \<open>ngram_add_all\<close> is the caller's loop over the entries (ordinal = slice position). \<open>gram_ords\<close> reads a
  posting as a set, \<open>ngram_wf\<close> is the invariant of a finished or restored index, \<open>known_grams\<close> are the
  query's grams the index has postings for, \<open>match_mass\<close> the IDF mass of those an ordinal holds.
\<close>

fun ngram_add_all :: "'b roaring \<Rightarrow> 'b ngram_index \<Rightarrow> nat \<Rightarrow> string list list \<Rightarrow> 'b ngram_index" where
  "ngram_add_all R b i [] = b"
| "ngram_add_all R b i (ks # kss) = ngram_add_all R (ngram_add R b (of_nat i) ks) (Suc i) kss"

definition gram_ords :: "'b roaring \<Rightarrow> (string \<times> 'b) list \<Rightarrow> string \<Rightarrow> u32 set" where
  "gram_ords R ps g = (case map_of ps g of None \<Rightarrow> {} | Some bm \<Rightarrow> set (bm_list R bm))"

definition ngram_wf :: "'b roaring \<Rightarrow> 'b ngram_index \<Rightarrow> bool" where
  "ngram_wf R i \<longleftrightarrow> (\<forall>g. \<forall>ord \<in> gram_ords R (ni_postings i) g. ord < ni_numOrds i)"

definition float_ok :: "float_model \<Rightarrow> bool" where
  "float_ok F \<longleftrightarrow> (\<forall>x > 0. 0 < fl_r64 F x \<and> 0 < fl_r32 F x) \<and> (\<forall>x y. x \<le> y \<longrightarrow> fl_r64 F x \<le> fl_r64 F y)
     \<and> fl_r64 F 1 = 1 \<and> fl_r64 F 2 = 2 \<and> (\<forall>x > 1. 0 < fl_log F x)"

definition known_grams :: "'b roaring \<Rightarrow> 'b ngram_index \<Rightarrow> string \<Rightarrow> string list" where
  "known_grams R i analyzed =
     (let q = key_text (ni_cfg i) analyzed in
      if q = '''' then [] else filter (\<lambda>g. gram_ords R (ni_postings i) g \<noteq> {}) (each_gram q (nc_Grams (ni_cfg i)) {}))"

definition gram_mass :: "float_model \<Rightarrow> 'b roaring \<Rightarrow> 'b ngram_index \<Rightarrow> string \<Rightarrow> rat" where
  "gram_mass F R i g = gram_idf F (ni_numOrds i) (card (gram_ords R (ni_postings i) g))"

definition match_mass :: "float_model \<Rightarrow> 'b roaring \<Rightarrow> 'b ngram_index \<Rightarrow> string \<Rightarrow> u32 \<Rightarrow> rat" where
  "match_mass F R i analyzed ord =
     sum_list (map (gram_mass F R i)
       (filter (\<lambda>g. ord \<in> gram_ords R (ni_postings i) g) (known_grams R i analyzed)))"

definition total_mass :: "float_model \<Rightarrow> 'b roaring \<Rightarrow> 'b ngram_index \<Rightarrow> string \<Rightarrow> rat" where
  "total_mass F R i analyzed = sum_list (map (gram_mass F R i) (known_grams R i analyzed))"

fun pass_hits ::
  "float_model \<Rightarrow> 'b roaring \<Rightarrow> (nat \<Rightarrow> bool) \<Rightarrow> f64 \<Rightarrow> rat \<Rightarrow> 'b gram_info list \<Rightarrow> (u32 \<Rightarrow> rat)
    \<Rightarrow> (u32 \<Rightarrow> 's \<Rightarrow> bool \<times> 's) option \<Rightarrow> nat \<Rightarrow> u32 list \<Rightarrow> 's \<Rightarrow> (hit list scan) \<times> 's" where
  "pass_hits F R cx flr maxScore probes counts keep tick [] s = (Scanned [], s)"
| "pass_hits F R cx flr maxScore probes counts keep tick (ord # ords) s =
     (if polled cx (Suc tick) then (Canceled, s)
      else
        let score = probe_loop F R flr ord probes (counts ord) (probe_total F probes) in
        if f_greater flr score then pass_hits F R cx flr maxScore probes counts keep (Suc tick) ords s
        else
          let (ok, s1) = (case keep of None \<Rightarrow> (True, s) | Some kp \<Rightarrow> kp ord s);
              (r, s2) = pass_hits F R cx flr maxScore probes counts keep (Suc tick) ords s1
          in (case r of
                Scanned hs \<Rightarrow>
                  Scanned (if ok then \<lparr>h_Ord = ord, h_Score = hit_score F score maxScore\<rparr> # hs else hs)
              | x \<Rightarrow> x, s2))"

subsection \<open>Building\<close>

lemma roaring_okD:
  assumes "roaring_ok R"
  shows "bm_list R (bm_new R) = []" "set (bm_list R (bm_add R b x)) = insert x (set (bm_list R b))"
    "sorted (bm_list R b)" "distinct (bm_list R b)" "bm_card R b = length (bm_list R b)"
    "bm_list R b \<noteq> [] \<Longrightarrow> bm_max R b = last (bm_list R b)" "bm_contains R b x \<longleftrightarrow> x \<in> set (bm_list R b)"
  using assms by (auto simp: roaring_ok_def)

lemma gram_ords_add [simp]:
  assumes "roaring_ok R"
  shows "gram_ords R (add_gram R ord g ps) h = (if h = g then insert ord (gram_ords R ps g) else gram_ords R ps h)"
  using roaring_okD(1,2) [OF assms] by (auto simp: gram_ords_def add_gram_def update_conv' split: option.splits)

lemma gram_ords_fold:
  assumes "roaring_ok R"
  shows "gram_ords R (fold (add_gram R ord) gs ps) h = (if h \<in> set gs then insert ord (gram_ords R ps h) else gram_ords R ps h)"
  by (induction gs arbitrary: ps) (auto simp: assms)

lemma ngram_add_cfg [simp]: "ni_cfg (ngram_add R b ord ks) = ni_cfg b" "ni_numOrds (ngram_add R b ord ks) = ni_numOrds b"
  by (auto simp: ngram_add_def split: list.splits)

lemma gram_ords_ngram_add:
  assumes "roaring_ok R"
  shows "gram_ords R (ni_postings (ngram_add R b ord ks)) h =
    (if \<exists>k \<in> set ks. h \<in> set (index_grams (ni_cfg b) k) then insert ord (gram_ords R (ni_postings b) h)
     else gram_ords R (ni_postings b) h)"
  by (auto simp: ngram_add_def gram_ords_fold [OF assms] split: list.splits)

lemma gram_ords_add_all:
  assumes "roaring_ok R"
  shows "gram_ords R (ni_postings (ngram_add_all R b i kss)) h = gram_ords R (ni_postings b) h \<union>
    {of_nat (i + j) | j. j < length kss \<and> (\<exists>k \<in> set (kss ! j). h \<in> set (index_grams (ni_cfg b) k))}"
proof (induction kss arbitrary: b i)
  case (Cons ks kss)
  have split: "{of_nat (i + j) | j. j < length (ks # kss) \<and> (\<exists>k \<in> set ((ks # kss) ! j). h \<in> set (index_grams (ni_cfg b) k))}
      = (if \<exists>k \<in> set ks. h \<in> set (index_grams (ni_cfg b) k) then {of_nat i :: u32} else {}) \<union>
        {of_nat (Suc i + j) | j. j < length kss \<and> (\<exists>k \<in> set (kss ! j). h \<in> set (index_grams (ni_cfg b) k))}"
    (is "?L = ?H \<union> ?T")
  proof (intro set_eqI iffI)
    fix x assume "x \<in> ?L"
    then obtain j where j: "x = of_nat (i + j)" "j < length (ks # kss)"
      "\<exists>k \<in> set ((ks # kss) ! j). h \<in> set (index_grams (ni_cfg b) k)" by auto
    then show "x \<in> ?H \<union> ?T" by (cases j) auto
  next
    fix x assume "x \<in> ?H \<union> ?T"
    then consider "x \<in> ?H" | j where "x = of_nat (Suc i + j)" "j < length kss"
      "\<exists>k \<in> set (kss ! j). h \<in> set (index_grams (ni_cfg b) k)" by blast
    then show "x \<in> ?L"
    proof cases
      case 1
      then show ?thesis by (auto split: if_splits intro!: exI [of _ 0])
    next
      case (2 j)
      then show ?thesis by (auto intro!: exI [of _ "Suc j"])
    qed
  qed
  show ?case
    unfolding split by (simp add: Cons.IH gram_ords_ngram_add [OF assms])
qed simp

lemma last_max: "sorted xs \<Longrightarrow> x \<in> set xs \<Longrightarrow> x \<le> last xs"
  by (metis append_butlast_last_id empty_iff empty_set in_set_conv_decomp last_in_set order_refl set_ConsD
      set_append sorted_append Un_iff list.set_intros(1))

lemma finish_max_bound:
  assumes "roaring_ok R" "finish_max R ps mx anyp = (mx', anyp')"
  shows "mx \<le> mx' \<and> (anyp \<longrightarrow> anyp') \<and>
    (\<forall>(g, bm) \<in> set ps. \<forall>ord \<in> set (bm_list R bm). ord \<le> mx' \<and> anyp') \<and>
    (mx' = mx \<or> (\<exists>(g, bm) \<in> set ps. mx' \<in> set (bm_list R bm)))"
  using assms(2)
proof (induction ps arbitrary: mx anyp)
  case (Cons p ps)
  obtain g bm where p: "p = (g, bm)" by force
  note R = roaring_okD [OF assms(1)]
  show ?case
  proof (cases "bm_card R bm > 0")
    case True
    then have ne: "bm_list R bm \<noteq> []" using R(5) by auto
    define m1 where "m1 = (if bm_max R bm > mx then bm_max R bm else mx)"
    have fin: "finish_max R ps m1 True = (mx', anyp')" using Cons.prems True by (simp add: p m1_def)
    have m1: "mx \<le> m1" "bm_max R bm \<le> m1" "m1 = mx \<or> m1 \<in> set (bm_list R bm)"
      using R(6) [OF ne] last_in_set [OF ne] by (auto simp: m1_def)
    have "ord \<le> m1" if "ord \<in> set (bm_list R bm)" for ord
      using last_max [OF R(3) that] R(6) [OF ne] m1(2) by simp
    then show ?thesis using Cons.IH [OF fin] m1 by (fastforce simp: p)
  next
    case False
    then have "bm_list R bm = []" using R(5) by auto
    then show ?thesis using Cons.IH [of mx anyp] Cons.prems False by (auto simp: p)
  qed
qed auto

lemma gram_ords_posting: "ord \<in> gram_ords R ps g \<Longrightarrow> \<exists>bm. (g, bm) \<in> set ps \<and> ord \<in> set (bm_list R bm)"
  by (auto simp: gram_ords_def split: option.splits dest: map_of_SomeD)

text \<open>\<open>Finish\<close> sizes the dense counter: every ordinal is below \<open>numOrds\<close> unless one is \<open>MaxUint32\<close>.\<close>

lemma ngram_finish_wf [kurn_inv]:
  assumes "roaring_ok R" and "\<forall>(g, bm) \<in> set (ni_postings b). - 1 \<notin> set (bm_list R bm)" "ni_numOrds b = 0"
  shows "ngram_wf R (ngram_finish R b)"
proof -
  obtain mx anyp where f: "finish_max R (ni_postings b) 0 False = (mx, anyp)" by force
  note fb = finish_max_bound [OF assms(1) f]
  have "ord < (if anyp then mx + 1 else 0)" if mem: "ord \<in> gram_ords R (ni_postings b) g" for g ord
  proof -
    obtain bm where bm: "(g, bm) \<in> set (ni_postings b)" "ord \<in> set (bm_list R bm)"
      using gram_ords_posting [OF mem] by blast
    then have le: "ord \<le> mx" "anyp" using fb by auto
    have "mx \<noteq> - 1"
    proof (cases "mx = 0")
      case False
      then show ?thesis using fb assms(2) by fastforce
    qed simp
    then have "mx < mx + 1" by (rule word_succ_greater)
    then show ?thesis using le by (simp add: order.strict_trans1)
  qed
  then show ?thesis
    using assms(3) by (auto simp: ngram_wf_def ngram_finish_def f split: if_splits)
qed

lemma ngram_finish_simps [simp]:
  "ni_postings (ngram_finish R b) = ni_postings b" "ni_cfg (ngram_finish R b) = ni_cfg b"
  by (auto simp: ngram_finish_def split: prod.splits)

lemma restore_postings_bound:
  assumes "roaring_ok R"
  shows "restore_postings R n ps = None \<Longrightarrow> (g, bm) \<in> set ps \<Longrightarrow> ord \<in> set (bm_list R bm) \<Longrightarrow> ord < n"
proof (induction ps)
  case (Cons p ps)
  obtain h bm1 where p: "p = (h, bm1)" by force
  note R = roaring_okD [OF assms]
  show ?case
  proof (cases "(g, bm) \<in> set ps")
    case False
    then have e: "bm = bm1" using Cons.prems(2) p by auto
    then have ne: "bm_list R bm \<noteq> []" using Cons.prems(3) by auto
    then have "bm_card R bm \<noteq> 0" using R(5) by simp
    then have "bm_max R bm < n" using Cons.prems(1) e by (auto simp: p split: if_splits)
    moreover have "ord \<le> bm_max R bm" using last_max [OF R(3) Cons.prems(3)] R(6) [OF ne] by simp
    ultimately show ?thesis by (rule order.strict_trans1 [rotated])
  qed (use Cons in \<open>auto simp: p split: if_splits\<close>)
qed simp

lemma ngram_restore_wf [kurn_inv]:
  assumes "roaring_ok R" "ngram_restore R grams strip ps n = Inr i"
  shows "ngram_wf R i \<and> (\<forall>g \<in> set (nc_Grams (ni_cfg i)). 1 \<le> g)"
proof -
  from assms(2) have i: "i = \<lparr>ni_cfg = \<lparr>nc_Grams = map nat grams, nc_StripSpaces = strip\<rparr>, ni_postings = ps, ni_numOrds = n\<rparr>"
    and rp: "restore_postings R n ps = None" and fd: "find (\<lambda>g. g < 1 \<or> g > MaxGramSize) grams = None"
    by (auto simp: ngram_restore_def split: if_splits option.splits)
  have "\<forall>g \<in> set grams. 1 \<le> g" using fd by (auto simp: find_None_iff)
  then show ?thesis
    using restore_postings_bound [OF assms(1) rp] gram_ords_posting by (fastforce simp: ngram_wf_def i)
qed

subsection \<open>Grams of a query and of a key\<close>

text \<open>\<open>EachGram\<close> (the query side) and \<open>CharGrams\<close> (the index side) extract the same grams of valid text.\<close>

lemma char_grams_windows:
  assumes "valid_utf8 s"
  shows "set (char_grams s n) = set (gram_windows s n)"
proof -
  have "of_runes (take n (drop i (runes s))) = concat (take n (drop i (chunks s)))" for i
    using of_runes_chunks [of "take n (drop i (chunks s))"] valid_chunk [OF assms]
    by (auto simp: runes_def take_map drop_map dest!: in_set_takeD in_set_dropD)
  then show ?thesis
    by (auto simp: char_grams_def gram_windows_def Let_def runes_def)
qed

lemma each_gram_grams:
  assumes "valid_utf8 (key_text cfg analyzed)" "key_text cfg analyzed \<noteq> ''''"
  shows "set (each_gram (key_text cfg analyzed) (nc_Grams cfg) {}) = set (index_grams cfg analyzed)"
  using assms char_grams_windows [OF assms(1)] by (auto simp: each_gram_def index_grams_def)

subsection \<open>The weights\<close>

lemma gather_grams_spec:
  "gather_grams F R i gs m gi =
    (let ks = filter (\<lambda>g. \<exists>bm. map_of (ni_postings i) g = Some bm \<and> bm_card R bm \<noteq> 0) gs;
         infos = map (\<lambda>g. \<lparr>gi_bm = the (map_of (ni_postings i) g),
           gi_idf = gram_idf F (ni_numOrds i) (bm_card R (the (map_of (ni_postings i) g))),
           gi_card = bm_card R (the (map_of (ni_postings i) g))\<rparr>) ks
     in (gi @ infos, foldl (\<lambda>t p. fl_r64 F (t + gi_idf p)) m infos))"
  by (induction F R i gs m gi rule: gather_grams.induct) (auto simp: Let_def split: option.splits)

definition gram_rec :: "float_model \<Rightarrow> 'b roaring \<Rightarrow> 'b ngram_index \<Rightarrow> string \<Rightarrow> 'b gram_info" where
  "gram_rec F R i g = \<lparr>gi_bm = the (map_of (ni_postings i) g), gi_idf = gram_mass F R i g,
     gi_card = card (gram_ords R (ni_postings i) g)\<rparr>"

lemma gather_known:
  assumes "roaring_ok R" "key_text (ni_cfg i) analyzed \<noteq> ''''"
  shows "gather_grams F R i (each_gram (key_text (ni_cfg i) analyzed) (nc_Grams (ni_cfg i)) {}) 0 [] =
    (map (gram_rec F R i) (known_grams R i analyzed),
     foldl (\<lambda>t g. fl_r64 F (t + gram_mass F R i g)) 0 (known_grams R i analyzed))"
proof -
  note R = roaring_okD [OF assms(1)]
  have c: "(\<exists>bm. map_of (ni_postings i) g = Some bm \<and> bm_card R bm \<noteq> 0) = (gram_ords R (ni_postings i) g \<noteq> {})" for g
    by (auto simp: gram_ords_def R(5) split: option.splits)
  have card: "bm_card R (the (map_of (ni_postings i) g)) = card (gram_ords R (ni_postings i) g)"
    if "gram_ords R (ni_postings i) g \<noteq> {}" for g
    using that R(4,5) by (auto simp: gram_ords_def distinct_card split: option.splits)
  have "filter (\<lambda>g. \<exists>bm. map_of (ni_postings i) g = Some bm \<and> bm_card R bm \<noteq> 0)
      (each_gram (key_text (ni_cfg i) analyzed) (nc_Grams (ni_cfg i)) {}) = known_grams R i analyzed"
    unfolding c using assms(2) by (simp add: known_grams_def Let_def)
  moreover have "\<forall>g \<in> set (known_grams R i analyzed). gram_ords R (ni_postings i) g \<noteq> {}"
    by (auto simp: known_grams_def Let_def split: if_splits)
  ultimately show ?thesis
    unfolding gather_grams_spec Let_def
    by (auto simp: card gram_rec_def gram_mass_def foldl_map intro!: foldl_cong)
qed

lemma gram_mass_pos:
  assumes "float_ok F" "ngram_wf R i" "gram_ords R (ni_postings i) g \<noteq> {}"
  shows "0 < gram_mass F R i g"
proof -
  let ?S = "gram_ords R (ni_postings i) g"
  have fin: "finite ?S" by (simp add: gram_ords_def split: option.splits)
  have "unat ` ?S \<subseteq> {..<unat (ni_numOrds i)}"
    using assms(2) by (auto simp: ngram_wf_def word_less_nat_alt)
  then have "card ?S \<le> unat (ni_numOrds i)"
    using card_mono [of "{..<unat (ni_numOrds i)}"] card_image [of unat ?S] inj_on_def word_unat_eq_iff
    by (metis card_lessThan finite_lessThan)
  moreover have "0 < card ?S" using assms(3) fin by (simp add: card_gt_0_iff)
  ultimately have "1 \<le> (of_nat (unat (ni_numOrds i)) / of_nat (card ?S) :: rat)"
    by (metis divide_self_if divide_right_mono of_nat_0_less_iff of_nat_le_iff less_imp_le less_irrefl)
  then have "1 \<le> fl_r64 F (of_nat (unat (ni_numOrds i)) / of_nat (card ?S))"
    using assms(1) unfolding float_ok_def by metis
  then have "2 \<le> fl_r64 F (1 + fl_r64 F (of_nat (unat (ni_numOrds i)) / of_nat (card ?S)))"
    using assms(1) unfolding float_ok_def by (metis add_left_mono one_add_one)
  then show ?thesis using assms(1) by (simp add: float_ok_def gram_mass_def gram_idf_def)
qed

subsection \<open>The generator scan\<close>

lemma gen_run_inv:
  assumes "\<forall>ord \<in> set ords. ord < n" "0 < w" "float_ok F"
    and "distinct touched" "\<forall>ord. 0 \<le> counts ord \<and> (counts ord \<noteq> 0 \<longleftrightarrow> ord \<in> set touched)"
  shows "gen_run F cx n w ords (tick, counts, touched) = Canceled \<or>
    (\<exists>tick' counts' touched'. gen_run F cx n w ords (tick, counts, touched) = Scanned (tick', counts', touched')
      \<and> distinct touched' \<and> (\<forall>ord. 0 \<le> counts' ord \<and> (counts' ord \<noteq> 0 \<longleftrightarrow> ord \<in> set touched'))
      \<and> set touched' = set touched \<union> set ords)"
  using assms(1,4,5)
proof (induction ords arbitrary: tick counts touched)
  case (Cons ord ords)
  have "0 < counts ord + w" using Cons.prems(3) assms(2) by (simp add: add_nonneg_pos)
  then have p: "0 < fl_r32 F (counts ord + w)" using assms(3) by (simp add: float_ok_def)
  show ?case
  proof (cases "polled cx (Suc tick)")
    case False
    define c1 where "c1 = counts(ord := fl_r32 F (counts ord + w))"
    define t1 where "t1 = (if counts ord = 0 then touched @ [ord] else touched)"
    have step: "gen_run F cx n w (ord # ords) (tick, counts, touched) = gen_run F cx n w ords (Suc tick, c1, t1)"
      using False Cons.prems(1) by (auto simp: not_le c1_def t1_def)
    have mem: "ord \<in> set touched \<longleftrightarrow> counts ord \<noteq> 0" using Cons.prems(3) by simp
    have t: "set t1 = set touched \<union> {ord}" "distinct t1" using mem Cons.prems(2) by (auto simp: t1_def)
    have "0 \<le> c1 x \<and> (c1 x \<noteq> 0 \<longleftrightarrow> x \<in> set touched \<union> {ord})" for x
      using Cons.prems(3) p by (cases "x = ord") (simp_all add: c1_def)
    then have c: "\<forall>x. 0 \<le> c1 x \<and> (c1 x \<noteq> 0 \<longleftrightarrow> x \<in> set t1)" unfolding t(1) by blast
    have "\<forall>ord \<in> set ords. ord < n" using Cons.prems(1) by simp
    from Cons.IH [OF this t(2) c, of "Suc tick"] show ?thesis unfolding step t(1) by (simp add: Un_assoc)
  qed simp
qed auto

lemma gen_scan_inv:
  assumes "\<forall>g \<in> set gens. 0 < gi_idf g \<and> (\<forall>ord \<in> set (bm_list R (gi_bm g)). ord < n)" "float_ok F"
    and "distinct touched" "\<forall>ord. 0 \<le> counts ord \<and> (counts ord \<noteq> 0 \<longleftrightarrow> ord \<in> set touched)"
  shows "gen_scan F R cx n gens (tick, counts, touched) = Canceled \<or>
    (\<exists>tick' counts' touched'. gen_scan F R cx n gens (tick, counts, touched) = Scanned (tick', counts', touched')
      \<and> distinct touched' \<and> (\<forall>ord. 0 \<le> counts' ord \<and> (counts' ord \<noteq> 0 \<longleftrightarrow> ord \<in> set touched'))
      \<and> set touched' = set touched \<union> (\<Union>g \<in> set gens. set (bm_list R (gi_bm g))))"
  using assms(1,3,4)
proof (induction gens arbitrary: tick counts touched)
  case (Cons g gens)
  have w: "0 < fl_r32 F (gi_idf g)" using Cons.prems(1) assms(2) by (auto simp: float_ok_def)
  have r: "\<forall>ord \<in> set (bm_list R (gi_bm g)). ord < n" using Cons.prems(1) by simp
  from gen_run_inv [OF r w assms(2) Cons.prems(2,3), of cx tick] show ?case
  proof (elim disjE exE conjE)
    fix t c s assume a: "gen_run F cx n (fl_r32 F (gi_idf g)) (bm_list R (gi_bm g)) (tick, counts, touched) = Scanned (t, c, s)"
      "distinct s" "\<forall>ord. 0 \<le> c ord \<and> (c ord \<noteq> 0 \<longleftrightarrow> ord \<in> set s)" "set s = set touched \<union> set (bm_list R (gi_bm g))"
    have "\<forall>g \<in> set gens. 0 < gi_idf g \<and> (\<forall>ord \<in> set (bm_list R (gi_bm g)). ord < n)" using Cons.prems(1) by simp
    from Cons.IH [OF this a(2,3), of t] show ?thesis using a(1,4) by (auto simp: Un_assoc)
  qed simp
qed auto

subsection \<open>The bounded collection\<close>

interpretation hit_heap: worst_first worseHit hit_rank
  by unfold_locales (auto simp: worseHit_def hit_rank_def less_prod_def' split: if_splits)

lemma hit_rank_inj: "inj_on hit_rank H"
  by (auto simp: inj_on_def hit_rank_def)

lemma collect_pass:
  "collect_hits F R cx flr M probes counts topK keep tick ords st s =
    (case pass_hits F R cx flr M probes counts keep tick ords s of
       (Scanned hs, s1) \<Rightarrow> (Scanned (fst (topk_loop worseHit topK hs st)), s1)
     | (Canceled, s1) \<Rightarrow> (Canceled, s1)
     | (Panicked, s1) \<Rightarrow> (Panicked, s1))"
proof (induction F R cx flr M probes counts topK keep tick ords st s rule: collect_hits.induct)
  case (2 F R cx flr M probes counts topK keep tick ord ords out heaped s)
  show ?case
    using 2 by (auto simp: Let_def simp del: topk_step.simps split: option.splits prod.splits scan.splits)
qed simp

lemma pass_hits_ords:
  "pass_hits F R cx flr M probes counts keep tick ords s = (r, s1) \<Longrightarrow> r \<noteq> Panicked \<and>
    (\<forall>hs. r = Scanned hs \<longrightarrow> h_Ord ` set hs \<subseteq> set ords \<and> (distinct ords \<longrightarrow> distinct (map h_Ord hs)))"
proof (induction F R cx flr M probes counts keep tick ords s arbitrary: r s1 rule: pass_hits.induct)
  case (2 F R cx flr M probes counts keep tick ord ords s)
  define score where "score = probe_loop F R flr ord probes (counts ord) (probe_total F probes)"
  consider "polled cx (Suc tick)" | "\<not> polled cx (Suc tick)" "f_greater flr score"
    | "\<not> polled cx (Suc tick)" "\<not> f_greater flr score" by blast
  then show ?case
  proof cases
    case 1
    then show ?thesis using "2.prems" by simp
  next
    case 2
    then have "pass_hits F R cx flr M probes counts keep (Suc tick) ords s = (r, s1)"
      using "2.prems" by (simp add: score_def Let_def)
    then show ?thesis using "2.IH"(1) [OF 2(1) score_def 2(2)] by fastforce
  next
    case 3
    obtain ok s2 where k: "(case keep of None \<Rightarrow> (True, s) | Some kp \<Rightarrow> kp ord s) = (ok, s2)" by force
    obtain r1 s3 where p: "pass_hits F R cx flr M probes counts keep (Suc tick) ords s2 = (r1, s3)" by force
    have "r = (case r1 of Scanned hs \<Rightarrow>
        Scanned (if ok then \<lparr>h_Ord = ord, h_Score = hit_score F score M\<rparr> # hs else hs) | x \<Rightarrow> x)"
      using "2.prems" 3 by (simp add: k p Let_def flip: score_def)
    then show ?thesis using "2.IH"(2) [OF 3(1) score_def 3(2) k [symmetric] refl p] by (cases r1) auto
  qed
qed auto

lemma split_gens_append: "split_gens F need acc gi = (gens, probes) \<Longrightarrow> gi = gens @ probes"
  by (induction F need acc gi arbitrary: gens probes rule: split_gens.induct)
    (auto simp: Let_def split: if_splits prod.splits)

lemma gen_run_canceled: "gen_run F cx n w ords st = Canceled \<Longrightarrow> \<exists>t. polled cx t"
  by (induction F cx n w ords st rule: gen_run.induct) (auto split: if_splits)

lemma gen_scan_canceled: "gen_scan F R cx n gens st = Canceled \<Longrightarrow> \<exists>t. polled cx t"
  by (induction F R cx n gens st rule: gen_scan.induct) (auto split: scan.splits dest: gen_run_canceled)

text \<open>Every lookup passes the same way through its guards: it answers nothing, or it splits the known
  grams and scans the generators, whose postings are in range.\<close>

lemma lookup_cases:
  assumes R: "roaring_ok R" and wf: "ngram_wf R i" and F: "float_ok F" and srt: "slice_sort srt"
  obtains "\<And>k (s :: 's) kp. ngram_lookup F R srt cx i a t k kp s = (Scanned [], s)"
      "known_grams R i a = [] \<or> foldl (\<lambda>t g. fl_r64 F (t + gram_mass F R i g)) 0 (known_grams R i a) = 0"
  | "\<And>k (s :: 's) kp. ngram_lookup F R srt cx i a t k kp s = (Canceled, s)" "\<exists>t. polled cx t"
  | M flr gens probes tick counts touched where
      "M = foldl (\<lambda>t g. fl_r64 F (t + gram_mass F R i g)) 0 (known_grams R i a)" "known_grams R i a \<noteq> []" "M \<noteq> 0"
      "flr = f_scale (fl_r64 F) t M"
      "split_gens F (f_rsub (fl_r64 F) M flr) 0 (srt (map (gram_rec F R i) (known_grams R i a))) = (gens, probes)"
      "gen_scan F R cx (ni_numOrds i) gens (0, \<lambda>_. 0, []) = Scanned (tick, counts, touched)"
      "distinct touched" "set touched = (\<Union>g \<in> set gens. set (bm_list R (gi_bm g)))" "\<forall>ord \<in> set touched. ord < ni_numOrds i"
      "\<And>k (s :: 's) kp. ngram_lookup F R srt cx i a t k kp s =
        (case pass_hits F R cx flr M probes counts kp tick touched s of
           (Scanned hs, s1) \<Rightarrow> (Scanned (sort_key hit_rank (fst (topk_loop worseHit k hs ([], False)))), s1)
         | r \<Rightarrow> r)"
proof -
  let ?q = "key_text (ni_cfg i) a" and ?ks = "known_grams R i a"
  let ?M = "foldl (\<lambda>t g. fl_r64 F (t + gram_mass F R i g)) 0 ?ks"
  show thesis
  proof (cases "ni_numOrds i = 0 \<or> ?q = '''' \<or> ?ks = [] \<or> ?M = 0")
    case True
    have none: "?ks = []" if "ni_numOrds i = 0"
    proof -
      have "gram_ords R (ni_postings i) g = {}" for g
        using wf that by (auto simp: ngram_wf_def)
      then show ?thesis by (simp add: known_grams_def Let_def)
    qed
    have "?ks = [] \<or> ?M = 0" using True none by (auto simp: known_grams_def)
    moreover have "ngram_lookup F R srt cx i a t k kp s = (Scanned [], s)" for k and s :: 's and kp
      using True gather_known [OF R, of i a F] by (cases "?q = ''''") (auto simp: ngram_lookup_def Let_def)
    ultimately show ?thesis using that(1) by blast
  next
    case False
    then have nz: "ni_numOrds i \<noteq> 0" "?q \<noteq> ''''" "?ks \<noteq> []" "?M \<noteq> 0" by auto
    define flr where "flr = f_scale (fl_r64 F) t ?M"
    obtain gens probes where sp: "split_gens F (f_rsub (fl_r64 F) ?M flr) 0 (srt (map (gram_rec F R i) ?ks)) = (gens, probes)"
      by force
    have "set (gens @ probes) = set (map (gram_rec F R i) ?ks)"
      using split_gens_append [OF sp] srt by (metis set_mset_mset slice_sort_def)
    then have sub: "set gens \<subseteq> gram_rec F R i ` set ?ks" by auto
    have ok: "0 < gi_idf g \<and> (\<forall>ord \<in> set (bm_list R (gi_bm g)). ord < ni_numOrds i)" if gmem: "g \<in> set gens" for g
    proof -
      obtain h where h: "g = gram_rec F R i h" "h \<in> set ?ks" using sub gmem by blast
      have "gram_ords R (ni_postings i) h \<noteq> {}" using h(2) by (auto simp: known_grams_def Let_def split: if_splits)
      moreover from this have "set (bm_list R (gi_bm g)) = gram_ords R (ni_postings i) h"
        by (auto simp: h(1) gram_rec_def gram_ords_def split: option.splits)
      ultimately show ?thesis
        using gram_mass_pos [OF F wf] wf unfolding h(1) gram_rec_def ngram_wf_def by simp
    qed
    have lk: "ngram_lookup F R srt cx i a t k kp s = (case gen_scan F R cx (ni_numOrds i) gens (0, \<lambda>_. 0, []) of
               Panicked \<Rightarrow> (Panicked, s)
             | Canceled \<Rightarrow> (Canceled, s)
             | Scanned (tick, counts, touched) \<Rightarrow>
                 (case collect_hits F R cx flr ?M probes counts k kp tick touched ([], False) s of
                    (Scanned out, s1) \<Rightarrow> (Scanned (sort_key hit_rank out), s1)
                  | r \<Rightarrow> r))" for k and s :: 's and kp
      unfolding ngram_lookup_def Let_def flr_def using nz sp [unfolded flr_def] gather_known [OF R nz(2), of F]
      by simp
    have "gen_scan F R cx (ni_numOrds i) gens (0, \<lambda>_. 0, []) = Canceled \<or>
      (\<exists>tick counts touched. gen_scan F R cx (ni_numOrds i) gens (0, \<lambda>_. 0, []) = Scanned (tick, counts, touched)
        \<and> distinct touched \<and> set touched = (\<Union>g \<in> set gens. set (bm_list R (gi_bm g))))"
      using gen_scan_inv [of gens R "ni_numOrds i" F "[]" "\<lambda>_. 0" cx 0] ok F by fastforce
    then show ?thesis
    proof (elim disjE exE conjE)
      assume "gen_scan F R cx (ni_numOrds i) gens (0, \<lambda>_. 0, []) = Canceled"
      then show ?thesis using that(2) gen_scan_canceled [of F R cx "ni_numOrds i" gens] by (simp add: lk)
    next
      fix tick counts touched
      assume a: "gen_scan F R cx (ni_numOrds i) gens (0, \<lambda>_. 0, []) = Scanned (tick, counts, touched)"
        "distinct touched" "set touched = (\<Union>g \<in> set gens. set (bm_list R (gi_bm g)))"
      show ?thesis
        by (rule that(3) [OF refl nz(3,4) flr_def sp a])
          (use ok a(3) in blast, simp add: lk a(1) collect_pass split: prod.splits scan.splits)
    qed
  qed
qed
lemma topk_unbounded: "topk_loop worseHit 0 hs ([], False) = (hs, False)"
  using hit_heap.topk_loop_mset [of 0 hs "[]" False] by simp

lemma pass_sorted_bounded:
  assumes "pass_hits F R cx flr M probes counts kp tick touched s = (Scanned hs, s1)" "distinct touched"
  shows "sort_key hit_rank (fst (topk_loop worseHit k hs ([], False)))
    = (if k = 0 then sort_key hit_rank hs else take k (sort_key hit_rank hs))"
proof -
  have "distinct (map h_Ord hs)" using pass_hits_ords [OF assms(1)] assms(2) by blast
  then show ?thesis
    using hit_heap.topk_loop_best [OF hit_rank_inj, of hs k] by (simp add: distinct_map)
qed

lemma lookup_bounded:
  fixes s :: 's
  assumes "roaring_ok R" "ngram_wf R i" "float_ok F" "slice_sort srt"
  shows "ngram_lookup F R srt cx i a t k kp s =
    (case ngram_lookup F R srt cx i a t 0 kp s of
       (Scanned hs, s1) \<Rightarrow> (Scanned (if k = 0 then hs else take k hs), s1)
     | r \<Rightarrow> r)"
proof (cases rule: lookup_cases [OF assms, where cx = cx and a = a and t = t and ?'s = 's])
  case (3 M flr gens probes tick counts touched)
  show ?thesis
    unfolding 3(10)
    by (auto simp: pass_sorted_bounded [OF _ 3(7)] topk_unbounded split: prod.splits scan.splits)
qed auto

lemma lookup_safe:
  fixes s :: 's
  assumes "roaring_ok R" "ngram_wf R i" "float_ok F" "slice_sort srt"
    and "ngram_lookup F R srt cx i a t k kp s = (r, s1)"
  shows "r \<noteq> Panicked \<and> (\<forall>hs. r = Scanned hs \<longrightarrow>
    distinct (map h_Ord hs) \<and> sorted (map hit_rank hs) \<and> (\<forall>h \<in> set hs. h_Ord h < ni_numOrds i))"
proof (cases rule: lookup_cases [OF assms(1-4), where cx = cx and a = a and t = t and ?'s = 's])
  case (3 M flr gens probes tick counts touched)
  obtain r1 s2 where p: "pass_hits F R cx flr M probes counts kp tick touched s = (r1, s2)" by force
  note po = pass_hits_ords [OF p]
  show ?thesis
  proof (cases r1)
    case (Scanned hs)
    let ?S = "sort_key hit_rank hs"
    have r: "r = Scanned (if k = 0 then ?S else take k ?S)"
      using assms(5) Scanned p unfolding 3(10) by (simp add: pass_sorted_bounded [OF p [unfolded Scanned] 3(7)])
    have "distinct (map h_Ord ?S)"
      using po Scanned 3(7) by (simp add: distinct_map)
    moreover have "\<forall>h \<in> set ?S. h_Ord h < ni_numOrds i" using po Scanned 3(9) by auto
    moreover have "set (take k ?S) \<subseteq> set ?S" by (rule set_take_subset)
    ultimately show ?thesis
      unfolding r by (auto simp: sorted_wrt_take simp flip: take_map)
  qed (use assms(5) p po in \<open>auto simp: 3(10)\<close>)
qed (use assms(5) in auto)
subsection \<open>Recall in exact arithmetic\<close>

lemma exact_arith_simps [simp]:
  "fl_r64 (exact_arith lg) x = x" "fl_r32 (exact_arith lg) x = x" "fl_log (exact_arith lg) x = lg x"
  by (simp_all add: exact_arith_def)

lemma exact_arith_ok: "(\<And>x. 1 < x \<Longrightarrow> 0 < lg x) \<Longrightarrow> float_ok (exact_arith lg)"
  by (simp add: float_ok_def)

lemma foldl_sum: "foldl (\<lambda>t g. t + f g) a xs = a + sum_list (map f xs :: 'a::comm_monoid_add list)"
  by (induction xs arbitrary: a) (simp_all add: add.assoc)

lemma split_gens_exact:
  "split_gens (exact_arith lg) (Fin need) acc gi = (gens, probes) \<Longrightarrow>
    probes = [] \<or> need < acc + sum_list (map gi_idf gens)"
proof (induction gi arbitrary: acc gens)
  case (Cons g gi)
  show ?case
  proof (cases "need < acc + gi_idf g")
    case False
    then obtain gens1 where "split_gens (exact_arith lg) (Fin need) (acc + gi_idf g) gi = (gens1, probes)" "gens = g # gens1"
      using Cons.prems by (auto simp: Let_def split: prod.splits)
    then show ?thesis using Cons.IH by (fastforce simp: add.assoc)
  qed (use Cons.prems in auto)
qed simp

lemma not_polled [simp]: "\<not> polled (\<lambda>_. False) t"
  by (simp add: polled_def)

lemma gen_run_exact:
  assumes "\<forall>ord \<in> set ords. ord < n" "distinct ords"
  shows "\<exists>tick' touched'. gen_run (exact_arith lg) (\<lambda>_. False) n w ords (tick, counts, touched)
    = Scanned (tick', \<lambda>o1. counts o1 + (if o1 \<in> set ords then w else 0), touched')"
  using assms
proof (induction ords arbitrary: tick counts touched)
  case (Cons ord ords)
  have "(\<lambda>o1. (counts(ord := counts ord + w)) o1 + (if o1 \<in> set ords then w else 0)) =
      (\<lambda>o1. counts o1 + (if o1 \<in> set (ord # ords) then w else 0))"
    using Cons.prems(2) by (auto simp: fun_eq_iff)
  then show ?case
    using Cons.IH [of "Suc tick" "counts(ord := counts ord + w)"] Cons.prems by (simp add: not_le del: fun_upd_apply)
qed simp

lemma gen_scan_exact:
  assumes "\<forall>g \<in> set gens. distinct (bm_list R (gi_bm g)) \<and> (\<forall>ord \<in> set (bm_list R (gi_bm g)). ord < n)"
    and "gen_scan (exact_arith lg) R (\<lambda>_. False) n gens (tick, counts, touched) = Scanned (tick', counts', touched')"
  shows "counts' ord = counts ord + sum_list (map gi_idf (filter (\<lambda>g. ord \<in> set (bm_list R (gi_bm g))) gens))"
  using assms
proof (induction gens arbitrary: tick counts touched)
  case (Cons g gens)
  obtain t1 s1 where run: "gen_run (exact_arith lg) (\<lambda>_. False) n (gi_idf g) (bm_list R (gi_bm g)) (tick, counts, touched)
      = Scanned (t1, \<lambda>o1. counts o1 + (if o1 \<in> set (bm_list R (gi_bm g)) then gi_idf g else 0), s1)"
    using gen_run_exact [of "bm_list R (gi_bm g)" n lg "gi_idf g" tick counts touched] Cons.prems(1) by auto
  show ?case
    using Cons.IH [of t1 _ s1] Cons.prems run by (auto simp: add.assoc)
qed simp

lemma probe_loop_exact:
  assumes "\<forall>p \<in> set ps. 0 \<le> gi_idf p" "rem = sum_list (map gi_idf ps)"
  shows "if probe_loop (exact_arith lg) R (Fin f) ord ps score rem < f
    then score + sum_list (map gi_idf (filter (\<lambda>p. bm_contains R (gi_bm p) ord) ps)) < f
    else probe_loop (exact_arith lg) R (Fin f) ord ps score rem
      = score + sum_list (map gi_idf (filter (\<lambda>p. bm_contains R (gi_bm p) ord) ps))"
  using assms
proof (induction ps arbitrary: score rem)
  case (Cons p ps)
  have le: "sum_list (map gi_idf (filter (\<lambda>p. bm_contains R (gi_bm p) ord) qs)) \<le> sum_list (map gi_idf qs)"
    if "\<forall>p \<in> set qs. 0 \<le> gi_idf p" for qs
    using that by (induction qs) auto
  show ?case
  proof (cases "score + rem < f")
    case True
    have "0 \<le> sum_list (map gi_idf (p # ps))"
      using Cons.prems(1) by (intro sum_list_nonneg) auto
    then have "score < f" using True Cons.prems(2) by linarith
    moreover have "score + sum_list (map gi_idf (filter (\<lambda>p. bm_contains R (gi_bm p) ord) (p # ps))) < f"
      using le [OF Cons.prems(1)] True Cons.prems(2) by linarith
    ultimately show ?thesis using True by simp
  next
    case False
    let ?s = "if bm_contains R (gi_bm p) ord then score + gi_idf p else score"
    have "rem - gi_idf p = sum_list (map gi_idf ps)" using Cons.prems(2) by simp
    from Cons.IH [OF _ this, of ?s] Cons.prems(1) show ?thesis using False by (auto simp: add.assoc)
  qed
qed auto

lemma pass_hits_all:
  "pass_hits F R (\<lambda>_. False) flr M probes counts None tick ords s =
    (Scanned (map (\<lambda>o1. \<lparr>h_Ord = o1, h_Score = hit_score F (probe_loop F R flr o1 probes (counts o1) (probe_total F probes)) M\<rparr>)
      (filter (\<lambda>o1. \<not> f_greater flr (probe_loop F R flr o1 probes (counts o1) (probe_total F probes))) ords)), s)"
  by (induction ords arbitrary: tick) (simp_all add: Let_def)

lemma mset_map_sum: "mset xs = mset ys \<Longrightarrow> sum_list (map f xs) = sum_list (map f ys :: 'a::comm_monoid_add list)"
  by (metis mset_map sum_mset_sum_list)

lemma sum_list_filter_le: "\<forall>x \<in> set xs. 0 \<le> f x \<Longrightarrow> sum_list (map f (filter P xs)) \<le> sum_list (map f xs :: rat list)"
  by (induction xs) auto

lemma gram_rec_idf [simp]: "gi_idf (gram_rec F R i g) = gram_mass F R i g"
  by (simp add: gram_rec_def)

lemma lookup_exact:
  fixes s :: 's
  assumes R: "roaring_ok R" and wf: "ngram_wf R i" and srt: "slice_sort srt"
    and lg: "\<And>x. 1 < x \<Longrightarrow> 0 < lg x" and t: "0 < t"
  defines "F \<equiv> exact_arith lg"
  shows "\<exists>hits. ngram_lookup F R srt (\<lambda>_. False) i a (Fin t) 0 None s = (Scanned hits, s)
    \<and> set hits = {\<lparr>h_Ord = o1, h_Score = go_round (match_mass F R i a o1 / total_mass F R i a * 100)\<rparr> | o1.
        0 < total_mass F R i a \<and> t * total_mass F R i a \<le> match_mass F R i a o1}"
proof -
  have F: "float_ok F" unfolding F_def by (rule exact_arith_ok [OF lg])
  let ?ks = "known_grams R i a" and ?rec = "gram_rec F R i"
  have rec: "\<forall>g \<in> set ?ks. 0 < gram_mass F R i g \<and> set (bm_list R (gi_bm (?rec g))) = gram_ords R (ni_postings i) g"
  proof
    fix g assume "g \<in> set ?ks"
    then have "gram_ords R (ni_postings i) g \<noteq> {}" by (auto simp: known_grams_def Let_def split: if_splits)
    then show "0 < gram_mass F R i g \<and> set (bm_list R (gi_bm (?rec g))) = gram_ords R (ni_postings i) g"
      using gram_mass_pos [OF F wf] by (auto simp: gram_rec_def gram_ords_def split: option.splits)
  qed
  have Mtot: "foldl (\<lambda>t g. fl_r64 F (t + gram_mass F R i g)) 0 ?ks = total_mass F R i a"
    by (simp add: F_def total_mass_def foldl_sum)
  show ?thesis
  proof (cases rule: lookup_cases [OF R wf F srt, where cx = "\<lambda>_. False" and a = a and t = "Fin t" and ?'s = 's])
    case 1
    have "total_mass F R i a = 0" using 1(2) unfolding Mtot by (auto simp: total_mass_def)
    then show ?thesis using 1(1) by simp
  next
    case 2
    then show ?thesis by simp
  next
    case (3 M flr gens probes tick counts touched)
    let ?all = "gens @ probes" and ?f = "t * M"
    let ?in = "\<lambda>o1 g. o1 \<in> set (bm_list R (gi_bm g))"
    have M: "M = total_mass F R i a" using 3(1) Mtot by simp
    have all: "?all = srt (map ?rec ?ks)" using split_gens_append [OF 3(5)] by simp
    then have mall: "mset ?all = mset (map ?rec ?ks)" using srt by (simp add: slice_sort_def)
    then have mem: "g \<in> ?rec ` set ?ks" if "g \<in> set ?all" for g
      using that by (metis set_map set_mset_mset)
    then have pos: "0 < gi_idf g" if "g \<in> set ?all" for g using rec that by fastforce
    have sumM: "sum_list (map gi_idf ?all) = M"
      using mset_map_sum [OF mall, of gi_idf] rec by (simp add: M total_mass_def comp_def cong: map_cong)
    have match: "sum_list (map gi_idf (filter (?in o1) ?all)) = match_mass F R i a o1" for o1
    proof -
      have "mset (filter (?in o1) ?all) = mset (filter (?in o1) (map ?rec ?ks))" using mall by (simp only: mset_filter)
      from mset_map_sum [OF this, of gi_idf] show ?thesis
        using rec by (simp add: match_mass_def filter_map comp_def cong: map_cong filter_cong)
    qed
    have flr: "flr = Fin ?f" using 3(4) by (simp add: F_def)
    have "0 \<le> M" using sumM pos by (metis less_imp_le list.set_map imageE sum_list_nonneg)
    then have Mpos: "0 < M" "0 < ?f" using 3(3) t by simp_all
    have need: "probes = [] \<or> M - ?f < sum_list (map gi_idf gens)"
      using split_gens_exact [of lg "M - ?f" 0 _ gens probes] 3(5) by (simp add: flr F_def)
    have cnt: "counts o1 = sum_list (map gi_idf (filter (?in o1) gens))" for o1
      using gen_scan_exact [of gens R "ni_numOrds i" lg 0 "\<lambda>_. 0" "[]" tick counts touched o1] 3(6,8,9) roaring_okD(4) [OF R]
      by (simp add: F_def)
    define sc where "sc = (\<lambda>o1. probe_loop F R flr o1 probes (counts o1) (probe_total F probes))"
    have score: "if sc o1 < ?f then match_mass F R i a o1 < ?f else sc o1 = match_mass F R i a o1" for o1
    proof -
      have pt: "probe_total F probes = sum_list (map gi_idf probes)" by (simp add: probe_total_def F_def foldl_sum)
      have nn: "\<forall>p \<in> set probes. 0 \<le> gi_idf p" using pos by (simp add: less_imp_le)
      have con: "(\<lambda>p. bm_contains R (gi_bm p) o1) = ?in o1" using roaring_okD(7) [OF R] by simp
      have full: "counts o1 + sum_list (map gi_idf (filter (?in o1) probes)) = match_mass F R i a o1"
        using match [of o1] cnt [of o1] by simp
      show ?thesis
        using probe_loop_exact [OF nn pt, of lg R ?f o1 "counts o1"]
        unfolding sc_def flr con full F_def [symmetric] .
    qed
    have touch: "o1 \<in> set touched" if "?f \<le> match_mass F R i a o1" for o1
    proof (rule ccontr)
      assume "o1 \<notin> set touched"
      then have none: "filter (?in o1) gens = []" using 3(8) by (auto simp: filter_empty_conv)
      have "sum_list (map gi_idf (filter (?in o1) probes)) \<le> sum_list (map gi_idf probes)"
        by (rule sum_list_filter_le) (use pos in \<open>simp add: less_imp_le\<close>)
      then have "match_mass F R i a o1 \<le> sum_list (map gi_idf probes)" using match [of o1] none by simp
      then have "probes \<noteq> []" using that Mpos(2) by auto
      then have "sum_list (map gi_idf probes) < ?f" using need sumM by simp
      then show False using that \<open>match_mass F R i a o1 \<le> _\<close> by simp
    qed
    let ?hits = "map (\<lambda>o1. \<lparr>h_Ord = o1, h_Score = hit_score F (sc o1) M\<rparr>) (filter (\<lambda>o1. \<not> f_greater flr (sc o1)) touched)"
    have "ngram_lookup F R srt (\<lambda>_. False) i a (Fin t) 0 None s = (Scanned (sort_key hit_rank ?hits), s)"
      unfolding 3(10) pass_hits_all by (simp add: topk_unbounded sc_def)
    moreover have "set ?hits = {\<lparr>h_Ord = o1, h_Score = go_round (match_mass F R i a o1 / M * 100)\<rparr> | o1.
        0 < M \<and> ?f \<le> match_mass F R i a o1}"
    proof -
      have "o1 \<in> set touched \<and> \<not> f_greater flr (sc o1) \<longleftrightarrow> ?f \<le> match_mass F R i a o1" for o1
        using score [of o1] touch [of o1] by (auto simp: flr not_less split: if_splits)
      moreover have "sc o1 = match_mass F R i a o1" if "?f \<le> match_mass F R i a o1" for o1
        using score [of o1] that by (auto split: if_splits)
      ultimately show ?thesis using Mpos(1) by (auto simp: hit_score_def F_def image_iff)
    qed
    ultimately show ?thesis by (intro exI [of _ "sort_key hit_rank ?hits"]) (simp add: M)
  qed
qed
subsection \<open>The ordinal interface\<close>

definition ngram_ord_lookup ::
  "float_model \<Rightarrow> 'b roaring \<Rightarrow> ('b gram_info list \<Rightarrow> 'b gram_info list) \<Rightarrow> (nat \<Rightarrow> bool) \<Rightarrow> 'b ngram_index
    \<Rightarrow> string \<times> f64 \<times> nat \<Rightarrow> u32 list option" where
  "ngram_ord_lookup F R srt cx i q =
     (case q of (a, t, k) \<Rightarrow>
        (case fst (ngram_lookup F R srt cx i a t k None ()) of
           Scanned hs \<Rightarrow> Some (map h_Ord hs)
         | Canceled \<Rightarrow> Some []
         | Panicked \<Rightarrow> None))"

definition ngram_ready ::
  "float_model \<Rightarrow> 'b roaring \<Rightarrow> ('b gram_info list \<Rightarrow> 'b gram_info list) \<Rightarrow> 'b ngram_index \<Rightarrow> bool" where
  "ngram_ready F R srt i \<longleftrightarrow> roaring_ok R \<and> float_ok F \<and> slice_sort srt \<and> ngram_wf R i"

interpretation ngram_ords: ordinal_index "ngram_ord_lookup F R srt cx" ngram_num_ords "ngram_ready F R srt"
  for F R srt cx
proof unfold_locales
  fix i :: "'a ngram_index" and q :: "string \<times> f64 \<times> nat"
  assume w: "ngram_ready F R srt i"
  obtain a t k where q: "q = (a, t, k)" by (cases q)
  obtain r s1 where l: "ngram_lookup F R srt cx i a t k None () = (r, s1)"
    by (cases "ngram_lookup F R srt cx i a t k None ()")
  have safe: "r \<noteq> Panicked \<and> (\<forall>hs. r = Scanned hs \<longrightarrow> (\<forall>h \<in> set hs. h_Ord h < ni_numOrds i))"
    using lookup_safe [OF _ _ _ _ l] w by (auto simp: ngram_ready_def)
  show "ngram_ord_lookup F R srt cx i q \<noteq> None"
    using safe by (auto simp: ngram_ord_lookup_def q l split: scan.splits)
  fix ords ord assume "ngram_ord_lookup F R srt cx i q = Some ords" "ord \<in> set ords"
  then show "ord < ngram_num_ords i"
    using safe by (auto simp: ngram_ord_lookup_def ngram_num_ords_def q l split: scan.splits)
qed

subsection \<open>The built index\<close>

definition empty_builder :: "ngram_config \<Rightarrow> 'b ngram_index" where
  "empty_builder cfg = \<lparr>ni_cfg = cfg, ni_postings = [], ni_numOrds = 0\<rparr>"

lemma ngram_add_all_keep [simp]:
  "ni_cfg (ngram_add_all R b i kss) = ni_cfg b" "ni_numOrds (ngram_add_all R b i kss) = ni_numOrds b"
  by (induction kss arbitrary: b i) simp_all

lemma distinct_fst_add_gram: "distinct (map fst ps) \<Longrightarrow> distinct (map fst (add_gram R ord g ps))"
  unfolding add_gram_def by (rule distinct_update)

lemma distinct_fst_add_all:
  "distinct (map fst (ni_postings b)) \<Longrightarrow> distinct (map fst (ni_postings (ngram_add_all R b i kss)))"
proof (induction kss arbitrary: b i)
  case (Cons ks kss)
  have f: "distinct (map fst ps) \<Longrightarrow> distinct (map fst (fold (add_gram R ord) gs ps))" for ps ord gs
    by (induction gs arbitrary: ps) (simp_all add: distinct_fst_add_gram)
  have "distinct (map fst (ni_postings (ngram_add R b (of_nat i) ks)))"
    using f [OF Cons.prems] Cons.prems by (auto simp: ngram_add_def split: list.splits)
  then show ?case using Cons.IH by simp
qed simp

lemma ngram_build_wf [kurn_inv]:
  assumes "roaring_ok R" "length kss < 2 ^ 32"
  shows "ngram_wf R (ngram_finish R (ngram_add_all R (empty_builder cfg) 0 kss))"
proof (rule ngram_finish_wf [OF assms(1)])
  let ?b = "ngram_add_all R (empty_builder cfg) 0 kss"
  have dist: "distinct (map fst (ni_postings ?b))" by (rule distinct_fst_add_all) (simp add: empty_builder_def)
  show "\<forall>(g, bm) \<in> set (ni_postings ?b). - 1 \<notin> set (bm_list R bm)"
  proof clarify
    fix g bm assume a: "(g, bm) \<in> set (ni_postings ?b)" "- 1 \<in> set (bm_list R bm)"
    then have "- 1 \<in> gram_ords R (ni_postings ?b) g"
      using dist by (simp add: gram_ords_def)
    then obtain j where "(- 1 :: u32) = of_nat j" "j < length kss"
      unfolding gram_ords_add_all [OF assms(1)] by (auto simp: empty_builder_def gram_ords_def)
    then show False using of_nat_not_max_u32 [of j] assms(2) by simp
  qed
qed (simp add: empty_builder_def)

lemma go_round_100 [simp]: "go_round 100 = 100"
  by (simp add: go_round_def floor_eq_iff)

lemma self_match:
  assumes R: "roaring_ok R" and srt: "slice_sort srt" and lg: "\<And>x. 1 < x \<Longrightarrow> 0 < lg x" and t: "0 < t" "t \<le> 1"
    and n: "length kss < 2 ^ 32" and j: "j < length kss" "k \<in> set (kss ! j)"
    and k: "valid_utf8 (key_text cfg k)" "key_text cfg k \<noteq> ''''" and sizes: "nc_Grams cfg \<noteq> []"
  shows "\<exists>hits. ngram_lookup (exact_arith lg) R srt (\<lambda>_. False)
      (ngram_finish R (ngram_add_all R (empty_builder cfg) 0 kss)) k (Fin t) 0 None s = (Scanned hits, s)
    \<and> \<lparr>h_Ord = of_nat j, h_Score = 100\<rparr> \<in> set hits"
proof -
  define i where "i = ngram_finish R (ngram_add_all R (empty_builder cfg) 0 kss)"
  let ?F = "exact_arith lg"
  have Fok: "float_ok ?F" by (rule exact_arith_ok) (rule lg)
  have wf: "ngram_wf R i" unfolding i_def by (rule ngram_build_wf [OF R n])
  have cfg: "ni_cfg i = cfg" by (simp add: i_def empty_builder_def)
  have all: "of_nat j \<in> gram_ords R (ni_postings i) g" if "g \<in> set (each_gram (key_text cfg k) (nc_Grams cfg) {})" for g
    using that j each_gram_grams [OF k] by (auto simp: i_def gram_ords_add_all [OF R] empty_builder_def)
  have kn: "known_grams R i k = each_gram (key_text cfg k) (nc_Grams cfg) {}"
    using all k(2) by (auto simp: known_grams_def cfg Let_def filter_id_conv)
  have eq: "match_mass ?F R i k (of_nat j) = total_mass ?F R i k"
    using all by (simp add: match_mass_def total_mass_def kn filter_id_conv)
  have ne: "known_grams R i k \<noteq> []"
  proof -
    obtain m ms where m: "nc_Grams cfg = m # ms" using sizes by (cases "nc_Grams cfg") auto
    have "gram_windows (key_text cfg k) m \<noteq> []" by (auto simp: gram_windows_def Let_def)
    then have "set (each_gram (key_text cfg k) (nc_Grams cfg) {}) \<noteq> {}" by (auto simp: each_gram_def m)
    then show ?thesis using kn by auto
  qed
  have pos: "\<forall>g \<in> set (known_grams R i k). 0 < gram_mass ?F R i g"
  proof
    fix g assume "g \<in> set (known_grams R i k)"
    then have "gram_ords R (ni_postings i) g \<noteq> {}" using all by (auto simp: kn)
    then show "0 < gram_mass ?F R i g" by (rule gram_mass_pos [OF Fok wf])
  qed
  have "0 < total_mass ?F R i k"
  proof -
    obtain g gs where g: "known_grams R i k = g # gs" using ne by (cases "known_grams R i k") auto
    have "0 \<le> sum_list (map (gram_mass ?F R i) gs)"
      using pos by (intro sum_list_nonneg) (auto simp: g intro: less_imp_le)
    then show ?thesis using pos by (simp add: total_mass_def g add_pos_nonneg)
  qed
  moreover from this have "t * total_mass ?F R i k \<le> total_mass ?F R i k"
    using t(2) by (simp add: mult_left_le_one_le)
  ultimately show ?thesis
    using lookup_exact [where lg = lg and a = k and s = s, OF R wf srt lg t(1)] eq unfolding i_def [symmetric]
    by (auto intro!: exI [of _ "of_nat j"])
qed
subsection \<open>A concrete bitmap and a concrete index\<close>

text \<open>Ordinal sets satisfy what the bitmaps promise, and the stable sort is a \<open>sort.Slice\<close>.\<close>

definition set_bitmap :: "u32 set roaring" where
  "set_bitmap = \<lparr>bm_new = {}, bm_add = (\<lambda>b x. insert x b), bm_card = card, bm_max = (\<lambda>b. if b = {} then 0 else Max b),
     bm_contains = (\<lambda>b x. x \<in> b), bm_list = sorted_list_of_set\<rparr>"

lemma set_bitmap_ok: "roaring_ok set_bitmap"
proof -
  have "finite b" for b :: "u32 set" by simp
  moreover have "Max b = last (sorted_list_of_set b)" if "b \<noteq> {}" for b :: "u32 set"
  proof -
    have "sorted_list_of_set b \<noteq> []" using that by simp
    moreover from this have "x \<le> last (sorted_list_of_set b)" if "x \<in> b" for x
      using last_max [of "sorted_list_of_set b" x] that by simp
    ultimately show ?thesis using last_in_set [of "sorted_list_of_set b"] by (intro Max_eqI) auto
  qed
  ultimately show ?thesis by (auto simp: roaring_ok_def set_bitmap_def set_insort_key)
qed

lemma sort_card_ok: "slice_sort (sort_key gi_card)"
  by (simp add: slice_sort_def)

definition demo_keys :: "string list list" where
  "demo_keys = [[''ab''], [''ab''], [''ab''], [''cd'']]"

definition demo_cfg :: ngram_config where
  "demo_cfg = \<lparr>nc_Grams = [2], nc_StripSpaces = False\<rparr>"

definition demo_ngram :: "u32 set ngram_index" where
  "demo_ngram = ngram_finish set_bitmap (ngram_add_all set_bitmap (empty_builder demo_cfg) 0 demo_keys)"

lemma demo_grams [simp]: "index_grams demo_cfg ''ab'' = [''ab'']" "index_grams demo_cfg ''cd'' = [''cd'']"
  "each_gram ''ab'' [2] {} = [''ab'']"
  by code_simp+

lemma demo_ngram_value:
  "demo_ngram = \<lparr>ni_cfg = demo_cfg, ni_postings = [(''ab'', {0, 1, 2}), (''cd'', {3})], ni_numOrds = 4\<rparr>"
  by (simp add: demo_ngram_def demo_keys_def ngram_add_def empty_builder_def add_gram_def set_bitmap_def ngram_finish_def
      insert_commute)

subsection \<open>Properties\<close>

text \<open>
  C20: The bounded selection is exact. For every arithmetic that rounds positive values to positive
  ones, a lookup with \<open>topK = k\<close>, which keeps a worst-at-root heap of at most \<open>k\<close> hits, returns exactly the
  first \<open>k\<close> hits of the unbounded lookup (score descending, ordinal ascending), leaves the caller's
  predicate in the same state, and is canceled or not at the same polls.
\<close>

theorem ngram_bounded_selection:
  assumes "roaring_ok R" "ngram_wf R i" "float_ok F" "slice_sort srt"
  shows "ngram_lookup F R srt cx i a t k kp s =
    (case ngram_lookup F R srt cx i a t 0 kp s of
       (Scanned hs, s1) \<Rightarrow> (Scanned (if k = 0 then hs else take k hs), s1)
     | r \<Rightarrow> r)"
  by (rule lookup_bounded [OF assms])

lemma demo_wf: "ngram_wf set_bitmap demo_ngram"
  unfolding demo_ngram_def by (rule ngram_build_wf [OF set_bitmap_ok]) (simp add: demo_keys_def)

lemma demo_float_ok: "float_ok (exact_arith (\<lambda>x. x))"
  by (rule exact_arith_ok) simp

theorem ngram_bounded_selection_witness:
  "ngram_lookup (exact_arith (\<lambda>x. x)) set_bitmap (sort_key gi_card) (\<lambda>_. False) demo_ngram ''ab'' (Fin (1 / 2)) 2 None () =
    (case ngram_lookup (exact_arith (\<lambda>x. x)) set_bitmap (sort_key gi_card) (\<lambda>_. False) demo_ngram ''ab'' (Fin (1 / 2)) 0 None () of
       (Scanned hs, s1) \<Rightarrow> (Scanned (if (2 :: nat) = 0 then hs else take 2 hs), s1)
     | r \<Rightarrow> r)"
  by (rule ngram_bounded_selection [OF set_bitmap_ok demo_wf demo_float_ok sort_card_ok])

text \<open>
  C7: The pigeonhole scan is recall-complete in exact arithmetic. On a well-formed index and for a
  threshold above zero, an uncanceled unbounded lookup returns exactly the ordinals whose share of the
  IDF mass of the query's known grams reaches the threshold, each with its rounded percentage; the
  generators, the probes and their early exit lose nothing and admit nothing.
\<close>

theorem ngram_recall_exact:
  assumes "roaring_ok R" "ngram_wf R i" "slice_sort srt" "\<And>x. 1 < x \<Longrightarrow> 0 < lg x" "0 < t"
  shows "\<exists>hits. ngram_lookup (exact_arith lg) R srt (\<lambda>_. False) i a (Fin t) 0 None s = (Scanned hits, s)
    \<and> set hits = {\<lparr>h_Ord = o1,
          h_Score = go_round (match_mass (exact_arith lg) R i a o1 / total_mass (exact_arith lg) R i a * 100)\<rparr> | o1.
        0 < total_mass (exact_arith lg) R i a
        \<and> t * total_mass (exact_arith lg) R i a \<le> match_mass (exact_arith lg) R i a o1}"
  by (rule lookup_exact [OF assms])

theorem ngram_recall_exact_witness:
  "\<exists>hits. ngram_lookup (exact_arith (\<lambda>x. x)) set_bitmap (sort_key gi_card) (\<lambda>_. False) demo_ngram ''ab'' (Fin 1) 0 None ()
      = (Scanned hits, ())
    \<and> set hits = {\<lparr>h_Ord = o1, h_Score = go_round (match_mass (exact_arith (\<lambda>x. x)) set_bitmap demo_ngram ''ab'' o1
            / total_mass (exact_arith (\<lambda>x. x)) set_bitmap demo_ngram ''ab'' * 100)\<rparr> | o1.
        0 < total_mass (exact_arith (\<lambda>x. x)) set_bitmap demo_ngram ''ab''
        \<and> 1 * total_mass (exact_arith (\<lambda>x. x)) set_bitmap demo_ngram ''ab''
          \<le> match_mass (exact_arith (\<lambda>x. x)) set_bitmap demo_ngram ''ab'' o1}"
  by (rule ngram_recall_exact [OF set_bitmap_ok demo_wf sort_card_ok]) simp_all

text \<open>
  C25: A key finds its entry. In an index built from entries' analyzed keys, querying with any
  non-empty, validly encoded key of an entry returns that entry at score 100, whatever the configured
  gram sizes and space stripping and for every threshold up to 1 (in exact arithmetic): the query-side
  and index-side gram extraction agree, and no gram of an indexed key is unknown to the index.
\<close>

theorem ngram_self_match:
  assumes "roaring_ok R" "slice_sort srt" "\<And>x. 1 < x \<Longrightarrow> 0 < lg x" "0 < t" "t \<le> 1"
    and "length kss < 2 ^ 32" "j < length kss" "k \<in> set (kss ! j)"
    and "valid_utf8 (key_text cfg k)" "key_text cfg k \<noteq> ''''" "nc_Grams cfg \<noteq> []"
  shows "\<exists>hits. ngram_lookup (exact_arith lg) R srt (\<lambda>_. False)
      (ngram_finish R (ngram_add_all R (empty_builder cfg) 0 kss)) k (Fin t) 0 None s = (Scanned hits, s)
    \<and> \<lparr>h_Ord = of_nat j, h_Score = 100\<rparr> \<in> set hits"
  by (rule self_match [OF assms])

theorem ngram_self_match_witness:
  "\<exists>hits. ngram_lookup (exact_arith (\<lambda>x. x)) set_bitmap (sort_key gi_card) (\<lambda>_. False)
      (ngram_finish set_bitmap (ngram_add_all set_bitmap (empty_builder demo_cfg) 0 demo_keys)) ''cd'' (Fin 1) 0 None ()
        = (Scanned hits, ())
    \<and> \<lparr>h_Ord = of_nat 3, h_Score = 100\<rparr> \<in> set hits"
proof (rule ngram_self_match [OF set_bitmap_ok sort_card_ok])
  show "valid_utf8 (key_text demo_cfg ''cd'')" by code_simp
qed (simp_all add: demo_keys_def demo_cfg_def key_text_def)

text \<open>
  C26: A lookup never indexes out of bounds. On a finished or restored index, whatever the query, the
  threshold (NaN and infinities included), the filter predicate and the point of cancellation, the
  dense accumulator is only indexed below \<open>numOrds\<close>, and the hits name distinct ordinals below
  \<open>numOrds\<close> in ranking order, at most \<open>topK\<close> of them when \<open>topK > 0\<close>.
\<close>

theorem ngram_lookup_safe:
  assumes "roaring_ok R" "ngram_restore R grams strip ps n = Inr i" "float_ok F" "slice_sort srt"
    and "ngram_lookup F R srt cx i a t k kp s = (r, s1)"
  shows "r \<noteq> Panicked \<and> (\<forall>hs. r = Scanned hs \<longrightarrow>
    distinct (map h_Ord hs) \<and> sorted (map hit_rank hs) \<and> (\<forall>h \<in> set hs. h_Ord h < n) \<and> (0 < k \<longrightarrow> length hs \<le> k))"
proof -
  have wf: "ngram_wf R i" and n: "ni_numOrds i = n"
    using ngram_restore_wf [OF assms(1,2)] assms(2) by (auto simp: ngram_restore_def split: if_splits option.splits)
  note safe = lookup_safe [OF assms(1) wf assms(3,4,5)]
  have "length hs \<le> k" if "r = Scanned hs" "0 < k" for hs
    using lookup_bounded [OF assms(1) wf assms(3,4), of cx a t k kp s] assms(5) that
    by (auto split: prod.splits scan.splits)
  then show ?thesis using safe n by simp
qed

theorem ngram_lookup_safe_witness:
  "\<exists>i r. ngram_restore set_bitmap [2] False [(''ab'', {0, 1, 2}), (''cd'', {3})] 4 = Inr i
    \<and> ngram_lookup (exact_arith (\<lambda>x. x)) set_bitmap (sort_key gi_card) (\<lambda>_. True) i ''ab'' NaN 1 None () = (r, ())
    \<and> r \<noteq> Panicked"
proof -
  obtain i where i: "ngram_restore set_bitmap [2] False [(''ab'', {0, 1, 2}), (''cd'', {3})] 4 = Inr i"
    by (simp add: ngram_restore_def MaxGramSize_def set_bitmap_def)
  obtain r where r: "ngram_lookup (exact_arith (\<lambda>x. x)) set_bitmap (sort_key gi_card) (\<lambda>_. True) i ''ab'' NaN 1 None () = (r, ())"
    by (metis old.unit.exhaust surj_pair)
  show ?thesis using ngram_lookup_safe [OF set_bitmap_ok i demo_float_ok sort_card_ok r] i r by blast
qed

definition ln73 :: rat where "ln73 = 3815890328311629 / 4503599627370496"
definition ln73f :: rat where "ln73f = 14215299 / 16777216"

lemma round_ln73: "round_bits 24 ln73 = ln73f" "round_bits 53 ln73 = ln73" "round_bits 24 ln73f = ln73f" "round_bits p 0 = 0"
     apply code_simp
    apply code_simp
   apply code_simp
  by (simp add: round_bits_def)

lemma ln73_order: "0 < ln73" "ln73f < ln73" "ln73 \<noteq> 0" "ln73f \<noteq> 0"
  by (simp_all add: ln73_def ln73f_def)

lemma ieee_simps: "fl_r64 (ieee f) = round_bits 53" "fl_r32 (ieee f) = round_bits 24" "fl_log (ieee f) = f"
  by (simp_all add: ieee_def)

lemma one_below_four: "\<not> (4 :: u32) \<le> 1"
  by code_simp


end
