(* ===== verification/Ngram_Artifact.thy ===== *)
theory Ngram_Artifact
  imports Index_Artifact Ngram_Index
begin

text \<open>
  The KURNIDX1 artifact of an n-gram index (\<open>engine/artifact/artifact.go\<close>, \<open>Save\<close> and \<open>Load\<close>) at the level of
  its bytes. The JSON codec of the header and the serialization of a bitmap are arguments: \<open>wr\<close> is
  \<open>WriteTo\<close>, and \<open>rd\<close> is \<open>ReadFrom\<close>, which returns the bitmap and the unread rest or fails.
\<close>

subsection \<open>Saving and loading\<close>

record ngram_meta =
  nm_Grams :: "int list"
  nm_StripSpaces :: bool
  nm_NumOrds :: u32
  nm_GramCount :: int
  nm_Analyzer :: string
  nm_Build :: "build_info option"

datatype idx_error =
    FrameError artifact_error
  | MissingGrams
  | NegativeGramCount int
  | GramCountImplausible int
  | GramRead nat
  | GramRange nat nat
  | BitmapRead nat
  | DuplicateGram nat string
  | RestoreError ngram_error

definition idx_magic :: string where "idx_magic = ''KURNIDX1''"
definition minPairBytes :: int where "minPairBytes = 10"

definition ngram_header :: "'b ngram_index \<Rightarrow> string \<Rightarrow> build_info \<Rightarrow> ngram_meta" where
  "ngram_header idx analyzerDigest build =
     \<lparr>nm_Grams = map int (nc_Grams (ni_cfg idx)), nm_StripSpaces = nc_StripSpaces (ni_cfg idx), nm_NumOrds = ngram_num_ords idx,
       nm_GramCount = int (length (ni_postings idx)), nm_Analyzer = analyzerDigest, nm_Build = Some build\<rparr>"

definition gram_pair :: "('b \<Rightarrow> string) \<Rightarrow> string \<times> 'b \<Rightarrow> string" where
  "gram_pair wr p = put_uvarint (length (fst p)) @ fst p @ wr (snd p)"

definition save_ngram :: "(ngram_meta \<Rightarrow> string) \<Rightarrow> ('b \<Rightarrow> string) \<Rightarrow> 'b ngram_index \<Rightarrow> string \<Rightarrow> build_info \<Rightarrow> string" where
  "save_ngram marshal wr idx analyzerDigest build =
     (let hdr = marshal (ngram_header idx analyzerDigest build)
      in idx_magic @ put_uvarint (length hdr) @ hdr @ concat (map (gram_pair wr) (sort_key fst (ni_postings idx))))"

fun load_pairs ::
  "(string \<Rightarrow> ('b \<times> string) option) \<Rightarrow> nat \<Rightarrow> nat \<Rightarrow> (string \<times> 'b) list \<Rightarrow> string \<Rightarrow> idx_error + ((string \<times> 'b) list \<times> string)" where
  "load_pairs rd i 0 ps cs = Inr (ps, cs)"
| "load_pairs rd i (Suc n) ps cs =
     (case read_uvarint cs of
        None \<Rightarrow> Inl (GramRead i)
      | Some (glen, cs1) \<Rightarrow>
          if glen = 0 \<or> glen > maxLen then Inl (GramRange i glen)
          else (case read_full glen cs1 of
              None \<Rightarrow> Inl (GramRead i)
            | Some (g, cs2) \<Rightarrow>
                (case rd cs2 of
                   None \<Rightarrow> Inl (BitmapRead i)
                 | Some (bm, cs3) \<Rightarrow>
                     if g \<in> fst ` set ps then Inl (DuplicateGram i g)
                     else load_pairs rd (Suc i) n (ps @ [(g, bm)]) cs3)))"

definition load_ngram_body ::
  "'b roaring \<Rightarrow> (string \<Rightarrow> ('b \<times> string) option) \<Rightarrow> ngram_meta \<Rightarrow> string
    \<Rightarrow> idx_error + ('b ngram_index \<times> string \<times> build_info option)" where
  "load_ngram_body R rd m cs =
     (case load_pairs rd 0 (nat (nm_GramCount m)) [] cs of
        Inl e \<Rightarrow> Inl e
      | Inr (postings, rest) \<Rightarrow>
          if rest \<noteq> [] then Inl (FrameError TrailingData)
          else (case ngram_restore R (nm_Grams m) (nm_StripSpaces m) postings (nm_NumOrds m) of
              Inl e \<Rightarrow> Inl (RestoreError e)
            | Inr idx \<Rightarrow>
                (case build_validate (nm_Build m) of
                   Some e \<Rightarrow> Inl (FrameError e)
                 | None \<Rightarrow>
                     let build = (case nm_Build m of
                           None \<Rightarrow> None
                         | Some b \<Rightarrow> if bi_Entries b = 0 \<and> nm_NumOrds m > 0 then None else Some b)
                     in case build of
                          None \<Rightarrow> Inr (idx, nm_Analyzer m, None)
                        | Some b \<Rightarrow>
                            if int (unat (nm_NumOrds m)) > bi_Entries b then Inl (FrameError OrdinalsExceed)
                            else Inr (idx, nm_Analyzer m, Some b))))"

definition load_ngram ::
  "'b roaring \<Rightarrow> (string \<Rightarrow> ('b \<times> string) option) \<Rightarrow> (string \<Rightarrow> ngram_meta option) \<Rightarrow> string
    \<Rightarrow> idx_error + ('b ngram_index \<times> string \<times> build_info option)" where
  "load_ngram R rd unmarshal file =
     (case read_full (length idx_magic) file of
        None \<Rightarrow> Inl (FrameError BadMagic)
      | Some (got, r) \<Rightarrow>
     (if got \<noteq> idx_magic then Inl (FrameError BadMagic)
      else case read_uvarint r of
        None \<Rightarrow> Inl (FrameError HeaderRead)
      | Some (hlen, r1) \<Rightarrow>
     (if hlen = 0 \<or> hlen > maxLen then Inl (FrameError (HeaderRange hlen))
      else case read_full hlen r1 of
        None \<Rightarrow> Inl (FrameError HeaderRead)
      | Some (hdr, r2) \<Rightarrow>
     (case unmarshal hdr of
        None \<Rightarrow> Inl (FrameError HeaderJSON)
      | Some m \<Rightarrow>
         if nm_Grams m = [] then Inl MissingGrams
         else if nm_GramCount m < 0 then Inl (NegativeGramCount (nm_GramCount m))
         else if nm_GramCount m > int (length file) div minPairBytes then Inl (GramCountImplausible (nm_GramCount m))
         else load_ngram_body R rd m r2))))"

subsection \<open>The round trip\<close>

text \<open>What roaring documents of its serialization: it is self-delimiting and takes at least eight bytes.\<close>

definition bitmap_io :: "('b \<Rightarrow> string) \<Rightarrow> (string \<Rightarrow> ('b \<times> string) option) \<Rightarrow> bool" where
  "bitmap_io wr rd \<longleftrightarrow> (\<forall>b rest. rd (wr b @ rest) = Some (b, rest) \<and> 8 \<le> length (wr b))"

text \<open>The shape of an index that a list builds: gram sizes in range, grams distinct, non-empty and short.\<close>

definition saveable :: "'b roaring \<Rightarrow> 'b ngram_index \<Rightarrow> bool" where
  "saveable R i \<longleftrightarrow> ngram_wf R i \<and> nc_Grams (ni_cfg i) \<noteq> [] \<and> (\<forall>n \<in> set (nc_Grams (ni_cfg i)). 1 \<le> n \<and> int n \<le> MaxGramSize)
     \<and> distinct (map fst (ni_postings i)) \<and> (\<forall>g \<in> fst ` set (ni_postings i). g \<noteq> [] \<and> length g \<le> maxLen)"

lemma load_pairs_put:
  assumes io: "bitmap_io wr rd" and "\<forall>p \<in> set qs. fst p \<noteq> [] \<and> length (fst p) \<le> maxLen" "distinct (map fst (ps @ qs))"
  shows "load_pairs rd i (length qs) ps (concat (map (gram_pair wr) qs)) = Inr (ps @ qs, [])"
  using assms(2,3)
proof (induction qs arbitrary: i ps)
  case (Cons q qs)
  obtain g bm where q: "q = (g, bm)" by force
  have g: "g \<noteq> []" "length g \<le> maxLen" "length g < 2 ^ 64" using Cons.prems(1) q by (auto simp: maxLen_def)
  have r: "rd (wr bm @ rest) = Some (bm, rest)" for rest using io by (simp add: bitmap_io_def)
  have "g \<notin> fst ` set ps" using Cons.prems(2) q by auto
  then have "load_pairs rd i (length (q # qs)) ps (concat (map (gram_pair wr) (q # qs))) =
      load_pairs rd (Suc i) (length qs) (ps @ [q]) (concat (map (gram_pair wr) qs))"
    using g by (simp add: q gram_pair_def r)
  also have "\<dots> = Inr ((ps @ [q]) @ qs, [])" using Cons.prems by (intro Cons.IH) auto
  finally show ?case by simp
qed simp

lemma restore_saveable:
  assumes R: "roaring_ok R" and s: "saveable R i" and m: "mset ps = mset (ni_postings i)"
  shows "ngram_restore R (map int (nc_Grams (ni_cfg i))) (nc_StripSpaces (ni_cfg i)) ps (ni_numOrds i) = Inr (i\<lparr>ni_postings := ps\<rparr>)"
proof -
  have f: "find (\<lambda>g. g < 1 \<or> g > MaxGramSize) (map int (nc_Grams (ni_cfg i))) = None"
    using s by (auto simp: find_None_iff saveable_def)
  have bound: "bm_max R bm < ni_numOrds i" if "(g, bm) \<in> set ps" "bm_card R bm \<noteq> 0" for g bm
  proof -
    have "(g, bm) \<in> set (ni_postings i)" using that(1) m by (metis set_mset_mset)
    then have "map_of (ni_postings i) g = Some bm" using s by (simp add: saveable_def)
    moreover have "bm_list R bm \<noteq> []" using that(2) R by (auto simp: roaring_ok_def)
    ultimately have "bm_max R bm \<in> gram_ords R (ni_postings i) g" using R by (simp add: gram_ords_def roaring_ok_def)
    then show ?thesis using s by (auto simp: saveable_def ngram_wf_def)
  qed
  have "restore_postings R (ni_numOrds i) qs = None" if "set qs \<subseteq> set ps" for qs
    using that
  proof (induction qs)
    case (Cons q qs)
    obtain g bm where q: "q = (g, bm)" by force
    have "\<not> ni_numOrds i \<le> bm_max R bm" if "bm_card R bm \<noteq> 0" using bound [of g bm] that Cons.prems q by (simp add: not_le)
    then show ?case using Cons q by auto
  qed simp
  then show ?thesis using f s by (auto simp: ngram_restore_def saveable_def comp_def)
qed

lemma gather_postings:
  assumes "map_of (ni_postings i') = map_of (ni_postings i)" "ni_numOrds i' = ni_numOrds i"
  shows "gather_grams F R i' gs ms gi = gather_grams F R i gs ms gi"
  using assms by (induction gs arbitrary: ms gi) (simp_all add: Let_def split: option.splits)

lemma lookup_postings:
  assumes "map_of (ni_postings i') = map_of (ni_postings i)" "ni_numOrds i' = ni_numOrds i" "ni_cfg i' = ni_cfg i"
  shows "ngram_lookup F R srt cx i' = ngram_lookup F R srt cx i"
  unfolding ngram_lookup_def [abs_def] gather_postings [OF assms(1,2)] assms(2,3) ..

lemma pairs_length: "bitmap_io wr rd \<Longrightarrow> \<forall>p \<in> set qs. fst p \<noteq> [] \<Longrightarrow> 10 * length qs \<le> length (concat (map (gram_pair wr) qs))"
proof (rule concat_length_ge, rule ballI)
  fix p assume io: "bitmap_io wr rd" and n: "\<forall>p \<in> set qs. fst p \<noteq> []" and p: "p \<in> set qs"
  have "8 \<le> length (wr (snd p))" "1 \<le> length (fst p)" using io n p by (auto simp: bitmap_io_def Suc_le_eq)
  then show "10 \<le> length (gram_pair wr p)" using put_uvarint_length [of "length (fst p)"] by (simp add: gram_pair_def)
qed

lemma save_load_ngram:
  assumes R: "roaring_ok R" and io: "bitmap_io wr rd" and s: "saveable R i"
    and codec: "unmarshal (marshal (ngram_header i digest build)) = Some (ngram_header i digest build)"
      "length (marshal (ngram_header i digest build)) \<in> {1..maxLen}"
    and build: "build_validate (Some build) = None" "int (unat (ngram_num_ords i)) \<le> bi_Entries build"
  shows "\<exists>i'. load_ngram R rd unmarshal (save_ngram marshal wr i digest build) = Inr (i', digest, Some build)
    \<and> ni_cfg i' = ni_cfg i \<and> ni_numOrds i' = ni_numOrds i \<and> map_of (ni_postings i') = map_of (ni_postings i)"
proof -
  define ps where "ps = sort_key fst (ni_postings i)"
  define m where "m = ngram_header i digest build"
  have mps: "mset ps = mset (ni_postings i)" by (simp add: ps_def)
  have d: "distinct (map fst ps)" using s mps by (metis mset_eq_imp_distinct_iff mset_map saveable_def)
  have ok: "\<forall>p \<in> set ps. fst p \<noteq> [] \<and> length (fst p) \<le> maxLen" using s by (auto simp: ps_def saveable_def)
  have len: "length ps = length (ni_postings i)" by (simp add: ps_def)
  define data where "data = save_ngram marshal wr i digest build"
  have data: "data = idx_magic @ put_uvarint (length (marshal m)) @ marshal m @ concat (map (gram_pair wr) ps)"
    by (simp add: data_def save_ngram_def m_def ps_def Let_def)
  have pl: "10 * length ps \<le> length (concat (map (gram_pair wr) ps))" by (rule pairs_length [OF io]) (use ok in blast)
  then have "10 * length ps \<le> length data" unfolding data by simp
  then have size: "nm_GramCount m \<le> int (length data) div minPairBytes"
    by (simp add: m_def ngram_header_def minPairBytes_def len [symmetric])
  have pairs: "load_pairs rd 0 (nat (nm_GramCount m)) [] (concat (map (gram_pair wr) ps)) = Inr (ps, [])"
    using load_pairs_put [OF io ok, of "[]" 0] d by (simp add: m_def ngram_header_def len)
  have res: "ngram_restore R (nm_Grams m) (nm_StripSpaces m) ps (nm_NumOrds m) = Inr (i\<lparr>ni_postings := ps\<rparr>)"
    using restore_saveable [OF R s mps] by (simp add: m_def ngram_header_def ngram_num_ords_def)
  have "load_ngram_body R rd m (concat (map (gram_pair wr) ps)) = Inr (i\<lparr>ni_postings := ps\<rparr>, digest, Some build)"
  proof -
    have "ni_numOrds i = 0" if "bi_Entries build = 0" using build(2) that by (simp add: ngram_num_ords_def uint_0_iff)
    then show ?thesis using build pairs res by (auto simp: load_ngram_body_def m_def ngram_header_def ngram_num_ords_def word_gt_0)
  qed
  moreover have "nm_Grams m \<noteq> []" "0 \<le> nm_GramCount m" using s by (simp_all add: m_def ngram_header_def saveable_def)
  moreover have "length (marshal m) \<noteq> 0" "length (marshal m) \<le> maxLen" "length (marshal m) < 2 ^ 64" "unmarshal (marshal m) = Some m"
    using codec by (auto simp: m_def maxLen_def)
  ultimately have "load_ngram R rd unmarshal data = Inr (i\<lparr>ni_postings := ps\<rparr>, digest, Some build)"
    using size unfolding load_ngram_def by (simp add: data)
  moreover have "map_of ps = map_of (ni_postings i)"
    using d s mps by (intro map_of_eqI) (auto simp: saveable_def ps_def)
  ultimately show ?thesis by (intro exI [of _ "i\<lparr>ni_postings := ps\<rparr>"]) (simp add: data_def)
qed

subsection \<open>Properties\<close>

text \<open>
  C23: An n-gram index survives its artifact. For a well-formed index of the shape lists build, loading the bytes \<open>Save\<close>
  writes passes every check (magic, header, gram and count bounds, duplicates, trailing data, \<open>Restore\<close>, build info)
  and returns the saved analyzer digest and build info with an index of the same configuration and ordinal count that
  answers every lookup, with any threshold, limit, filter predicate and cancellation, exactly as the saved one. The JSON
  codec has to round-trip the one header that is written, and the bitmap serialization to be self-delimiting.
\<close>

theorem artifact_ngram_roundtrip:
  assumes "roaring_ok R" "bitmap_io wr rd" "saveable R i"
    and "unmarshal (marshal (ngram_header i digest build)) = Some (ngram_header i digest build)"
    and "length (marshal (ngram_header i digest build)) \<in> {1..maxLen}"
    and "build_validate (Some build) = None" "int (unat (ngram_num_ords i)) \<le> bi_Entries build"
  shows "\<exists>i'. load_ngram R rd unmarshal (save_ngram marshal wr i digest build) = Inr (i', digest, Some build)
    \<and> ni_cfg i' = ni_cfg i \<and> ngram_num_ords i' = ngram_num_ords i \<and> ngram_lookup F R srt cx i' = ngram_lookup F R srt cx i"
  using save_load_ngram [OF assms(1-3), where unmarshal = unmarshal and marshal = marshal and digest = digest and build = build] assms(4-7)
    lookup_postings [of _ i F R srt cx]
  by (auto simp: ngram_num_ords_def)

definition demo_saved :: "u32 set ngram_index" where
  "demo_saved = \<lparr>ni_cfg = \<lparr>nc_Grams = [2], nc_StripSpaces = False\<rparr>, ni_postings = [(''cd'', {1}), (''ab'', {0, 1})], ni_numOrds = 2\<rparr>"

definition demo_meta :: ngram_meta where
  "demo_meta = \<lparr>nm_Grams = [2], nm_StripSpaces = False, nm_NumOrds = 2, nm_GramCount = 2, nm_Analyzer = ''d'',
     nm_Build = Some \<lparr>bi_BaseID = ''b'', bi_Entries = 2, bi_DroppedKeys = 0, bi_KeylessEntries = 0\<rparr>\<rparr>"

text \<open>A self-delimiting serialization of finite sets of words: eight bytes of padding, a count and the members.\<close>

definition set_write :: "u32 set \<Rightarrow> string" where
  "set_write b = replicate 8 (CHR ''R'') @ put_uvarint (card b) @ concat (map put_le32 (sorted_list_of_set b))"

definition set_read :: "string \<Rightarrow> (u32 set \<times> string) option" where
  "set_read cs = (case read_uvarint (drop 8 cs) of
     None \<Rightarrow> None
   | Some (n, r) \<Rightarrow> (case read_full (4 * n) r of None \<Rightarrow> None | Some (raw, rest) \<Rightarrow> Some (set (le32s raw), rest)))"

lemma set_io: "bitmap_io set_write set_read"
proof -
  have f: "finite b" for b :: "u32 set" by simp
  have c: "card b < 2 ^ 64" for b :: "u32 set"
  proof -
    have "card b \<le> card (UNIV :: u32 set)" by (rule card_mono) simp_all
    then show ?thesis by (simp add: card_word)
  qed
  have l: "length (concat (map put_le32 (sorted_list_of_set b))) = 4 * card b" for b :: "u32 set"
    by simp
  show ?thesis unfolding bitmap_io_def
    by (simp add: set_write_def set_read_def read_put_uvarint [OF c] l)
qed

theorem artifact_ngram_roundtrip_witness:
  "\<exists>i'. load_ngram set_bitmap set_read (\<lambda>_. Some demo_meta) (save_ngram (\<lambda>_. ''{}'') set_write demo_saved ''d''
        \<lparr>bi_BaseID = ''b'', bi_Entries = 2, bi_DroppedKeys = 0, bi_KeylessEntries = 0\<rparr>)
      = Inr (i', ''d'', Some \<lparr>bi_BaseID = ''b'', bi_Entries = 2, bi_DroppedKeys = 0, bi_KeylessEntries = 0\<rparr>)
    \<and> ni_cfg i' = ni_cfg demo_saved \<and> ngram_num_ords i' = ngram_num_ords demo_saved
    \<and> ngram_lookup (exact_arith (\<lambda>x. x)) set_bitmap (sort_key gi_card) (\<lambda>_. False) i' =
        ngram_lookup (exact_arith (\<lambda>x. x)) set_bitmap (sort_key gi_card) (\<lambda>_. False) demo_saved"
proof (rule artifact_ngram_roundtrip [OF set_bitmap_ok set_io])
  show "saveable set_bitmap demo_saved"
    by (auto simp: saveable_def demo_saved_def ngram_wf_def gram_ords_def set_bitmap_def MaxGramSize_def maxLen_def)
qed (simp_all add: ngram_header_def demo_saved_def demo_meta_def ngram_num_ords_def maxLen_def build_validate_def)

end
