(* ===== verification/Analyzer.thy ===== *)
theory Analyzer
  imports Go_Strings
begin

text \<open>
  The canonicalization pipeline of \<open>engine/analyzer/analyzer.go\<close>: step parsing (\<open>New\<close>), the steps,
  \<open>Normalize\<close> and the presets. The Unicode case and category tables, the NFD/Mn/NFC transform chain and
  the IDNA profile are not part of the repository: they are the fields of \<open>text_tables\<close>.
\<close>

subsection \<open>Fields, joins and cuts of package strings\<close>

definition space_runes :: "rune list" where
  "space_runes = [9, 10, 11, 12, 13, 32, 133, 160, 5760, 8192, 8193, 8194, 8195, 8196, 8197, 8198, 8199, 8200, 8201,
     8202, 8232, 8233, 8239, 8287, 12288]"

definition is_space :: "string \<Rightarrow> bool" where
  "is_space c \<longleftrightarrow> chunk_rune c \<in> set space_runes"

fun field_chunks :: "string \<Rightarrow> string list \<Rightarrow> string list" where
  "field_chunks acc [] = (if acc = '''' then [] else [acc])"
| "field_chunks acc (c # cs) =
     (if is_space c then (if acc = '''' then field_chunks '''' cs else acc # field_chunks '''' cs)
      else field_chunks (acc @ c) cs)"

definition str_fields :: "string \<Rightarrow> string list" where
  "str_fields s = field_chunks '''' (chunks s)"

fun join :: "string \<Rightarrow> string list \<Rightarrow> string" where
  "join sep [] = ''''"
| "join sep [x] = x"
| "join sep (x # y # xs) = x @ sep @ join sep (y # xs)"

fun cut_at :: "char \<Rightarrow> string \<Rightarrow> string \<times> string option" where
  "cut_at d [] = ('''', None)"
| "cut_at d (c # cs) = (if c = d then ('''', Some cs) else let (a, b) = cut_at d cs in (c # a, b))"

fun split_on :: "char \<Rightarrow> string \<Rightarrow> string list" where
  "split_on d [] = ['''']"
| "split_on d (c # cs) =
     (if c = d then '''' # split_on d cs
      else case split_on d cs of [] \<Rightarrow> [[c]] | x # xs \<Rightarrow> (c # x) # xs)"

definition trim_char :: "char \<Rightarrow> string \<Rightarrow> string" where
  "trim_char d s = rev (dropWhile (\<lambda>c. c = d) (rev (dropWhile (\<lambda>c. c = d) s)))"

definition trim_space :: "string \<Rightarrow> string" where
  "trim_space s = concat (rev (dropWhile is_space (rev (dropWhile is_space (chunks s)))))"

subsection \<open>Data\<close>

record text_tables =
  tt_lower :: "string \<Rightarrow> string"
  tt_fold :: "string \<Rightarrow> string"
  tt_letter :: "rune \<Rightarrow> bool"
  tt_digit :: "rune \<Rightarrow> bool"
  tt_ascii :: "string \<Rightarrow> string option"

datatype step =
    Lowercase
  | FoldDiacritics
  | StripPunctuation
  | StripWords "string set"
  | SortTokens
  | Trim
  | Idna

record analyzer =
  an_steps :: "step list"
  an_names :: "string list"

datatype analyzer_error =
    TakesNoArgument string
  | EmptyWordSet string
  | UnknownStep string
  | UnknownPreset string

subsection \<open>The steps\<close>

definition foldDiacritics :: "text_tables \<Rightarrow> string \<Rightarrow> string" where
  "foldDiacritics T s = (if list_all (\<lambda>c. byte c < 128) s then s else tt_fold T s)"

definition stripPunctuation :: "text_tables \<Rightarrow> string \<Rightarrow> string" where
  "stripPunctuation T s =
     join '' '' (filter (\<lambda>t. t \<noteq> '''')
       (map (\<lambda>f. trim_char (CHR ''-'')
          (of_runes (filter (\<lambda>r. tt_letter T r \<or> tt_digit T r \<or> r = 45) (runes f)))) (str_fields s)))"

definition stripWords :: "string set \<Rightarrow> string \<Rightarrow> string" where
  "stripWords ws s = join '' '' (filter (\<lambda>f. trim_char (CHR ''.'') f \<notin> ws) (str_fields s))"

definition sortTokens :: "string \<Rightarrow> string" where
  "sortTokens s = join '' '' (sort (str_fields s))"

definition collapseSpaces :: "string \<Rightarrow> string" where
  "collapseSpaces s = join '' '' (str_fields s)"

definition idnaStep :: "text_tables \<Rightarrow> string \<Rightarrow> string" where
  "idnaStep T s =
     (let d = trim_char (CHR ''.'') s in
      if d = '''' then '''' else case tt_ascii T d of Some r \<Rightarrow> r | None \<Rightarrow> d)"

fun run_step :: "text_tables \<Rightarrow> step \<Rightarrow> string \<Rightarrow> string" where
  "run_step T Lowercase s = tt_lower T s"
| "run_step T FoldDiacritics s = foldDiacritics T s"
| "run_step T StripPunctuation s = stripPunctuation T s"
| "run_step T (StripWords ws) s = stripWords ws s"
| "run_step T SortTokens s = sortTokens s"
| "run_step T Trim s = collapseSpaces s"
| "run_step T Idna s = idnaStep T s"

definition normalize :: "text_tables \<Rightarrow> analyzer \<Rightarrow> string \<Rightarrow> string" where
  "normalize T a s = collapseSpaces (fold (run_step T) (an_steps a) s)"

subsection \<open>Construction\<close>

definition parse_step :: "string \<Rightarrow> analyzer_error + step" where
  "parse_step s =
     (let (name, arg) = cut_at (CHR '':'') s in
      if arg \<noteq> None \<and> name \<noteq> ''strip_words'' then Inl (TakesNoArgument s)
      else if name = ''lowercase'' then Inr Lowercase
      else if name = ''fold_diacritics'' then Inr FoldDiacritics
      else if name = ''strip_punctuation'' then Inr StripPunctuation
      else if name = ''strip_words'' then
        (let ws = filter (\<lambda>w. w \<noteq> '''') (map trim_space (split_on (CHR '','') (case arg of None \<Rightarrow> '''' | Some a \<Rightarrow> a)))
         in if ws = [] then Inl (EmptyWordSet s) else Inr (StripWords (set ws)))
      else if name = ''sort_tokens'' then Inr SortTokens
      else if name = ''trim'' then Inr Trim
      else if name = ''idna'' then Inr Idna
      else Inl (UnknownStep s))"

fun parse_steps :: "string list \<Rightarrow> analyzer_error + step list" where
  "parse_steps [] = Inr []"
| "parse_steps (s # ss) =
     (case parse_step s of
        Inl e \<Rightarrow> Inl e
      | Inr f \<Rightarrow> (case parse_steps ss of Inl e \<Rightarrow> Inl e | Inr fs \<Rightarrow> Inr (f # fs)))"

definition new_analyzer :: "string list \<Rightarrow> analyzer_error + analyzer" where
  "new_analyzer steps =
     (case parse_steps steps of
        Inl e \<Rightarrow> Inl e
      | Inr fs \<Rightarrow> Inr \<lparr>an_steps = fs, an_names = steps\<rparr>)"

definition presets :: "(string \<times> string list) list" where
  "presets =
     [(''person-name'', [''lowercase'', ''fold_diacritics'', ''strip_punctuation'',
         ''strip_words:mr,mrs,ms,dr,prof'', ''sort_tokens'']),
      (''identifier'', [''lowercase'', ''trim'']),
      (''domain'', [''lowercase'', ''trim'', ''idna'']),
      (''free-text'', [''lowercase'', ''fold_diacritics'', ''strip_punctuation''])]"

definition preset :: "string \<Rightarrow> analyzer_error + analyzer" where
  "preset name = (case map_of presets name of None \<Rightarrow> Inl (UnknownPreset name) | Some steps \<Rightarrow> new_analyzer steps)"

definition preset_steps :: "string \<Rightarrow> string list option" where
  "preset_steps name = map_of presets name"

subsection \<open>Chunk boundaries survive cutting and joining\<close>

lemma valid_width_prefix: "valid_width (take n s) = Some w \<Longrightarrow> valid_width s = Some w"
  by (cases s; cases n) (auto simp: valid_width_def take_Cons' split: list.splits if_splits)

lemma valid_width_le: "valid_width s = Some w \<Longrightarrow> w \<le> length s"
  using valid_width_take [of s w] by (metis length_take min.cobounded1)

lemma valid_width_append: "valid_width s = Some w \<Longrightarrow> valid_width (s @ t) = Some w"
  using valid_width_prefix [of "length s" "s @ t" w] by simp

text \<open>An ASCII byte ends every rune before it.\<close>

lemma valid_width_ascii:
  assumes "byte a < 128" "s \<noteq> []" "valid_width (s @ a # t) = Some w"
  shows "valid_width s = Some w"
proof -
  have na: "\<not> cont a" "\<not> second_ok x (byte a)" for x
    using assms(1) by (auto simp: cont_def second_ok_def)
  show ?thesis
    using assms(2,3) na
    by (auto simp: valid_width_def Cons_eq_append_conv append_eq_Cons_conv split: list.splits if_splits)
qed

lemma rune_width_ascii: "byte a < 128 \<Longrightarrow> s \<noteq> [] \<Longrightarrow> rune_width (s @ a # t) = rune_width s"
  using valid_width_ascii [of a s t] valid_width_append [of s _ "a # t"]
  by (cases "valid_width s"; cases "valid_width (s @ a # t)") (auto simp: rune_width_def)

lemma rune_width_le: "s \<noteq> [] \<Longrightarrow> rune_width s \<le> length s"
  using valid_width_le [of s] by (cases s) (auto simp: rune_width_def split: option.splits)

lemma chunks_unfold: "s \<noteq> [] \<Longrightarrow> chunks s = take (rune_width s) s # chunks (drop (rune_width s) s)"
  by (cases s) simp_all

lemma chunks_ascii_append:
  assumes "byte a < 128"
  shows "chunks (s @ a # t) = chunks s @ [a] # chunks t"
proof (induction s rule: chunks.induct)
  case 1
  have "rune_width (a # t) = 1" using assms by (simp add: rune_width_def valid_width_def)
  then show ?case by simp
next
  case (2 v va)
  let ?s = "v # va"
  have w: "rune_width (?s @ a # t) = rune_width ?s" by (rule rune_width_ascii [OF assms]) simp
  have le: "rune_width ?s \<le> length ?s" by (rule rune_width_le) simp
  have "chunks (?s @ a # t) = take (rune_width ?s) ?s # chunks (drop (rune_width ?s) ?s @ a # t)"
    using chunks_unfold [of "?s @ a # t"] w le
    by (metis append_is_Nil_conv drop_append take_append diff_is_0_eq drop0 list.distinct(1) take0 append_Nil2)
  also have "\<dots> = chunks ?s @ [a] # chunks t" using "2.IH" chunks_unfold [of ?s] by simp
  finally show ?case .
qed

lemma chunks_ConsD:
  assumes "chunks s = x # xs"
  shows "s = x @ concat xs \<and> length x = rune_width s \<and> chunks (concat xs) = xs"
proof -
  have ne: "s \<noteq> []" using assms by auto
  have x: "x = take (rune_width s) s" and xs: "xs = chunks (drop (rune_width s) s)"
    using assms chunks_unfold [OF ne] by simp_all
  have "concat xs = drop (rune_width s) s" unfolding xs by simp
  then show ?thesis using x xs rune_width_le [OF ne] by simp
qed

lemma chunks_concat_tail: "chunks (concat (xs @ ys)) = xs @ ys \<Longrightarrow> chunks (concat ys) = ys"
proof (induction xs)
  case (Cons x xs)
  then have "chunks (concat (xs @ ys)) = xs @ ys"
    using chunks_ConsD [of "concat ((x # xs) @ ys)" x "xs @ ys"] by simp
  then show ?case by (rule Cons.IH)
qed simp

lemma rune_width_prefix:
  assumes "u \<noteq> []" "rune_width (u @ v) \<le> length u"
  shows "rune_width u = rune_width (u @ v)"
proof (cases "valid_width (u @ v)")
  case None
  then have "valid_width u = None" using valid_width_append [of u _ v] by (cases "valid_width u") auto
  then show ?thesis using None by (simp add: rune_width_def)
next
  case (Some w)
  then have w: "w \<le> length u" using assms(2) by (simp add: rune_width_def)
  then have "valid_width (take w u) = Some w" using valid_width_take [OF Some] by simp
  then have "valid_width u = Some w" by (rule valid_width_prefix)
  then show ?thesis using Some by (simp add: rune_width_def)
qed

lemma chunks_prefix: "chunks (concat (xs @ ys)) = xs @ ys \<Longrightarrow> chunks (concat xs) = xs"
proof (induction xs)
  case (Cons x xs)
  have d: "length x = rune_width (x @ concat xs @ concat ys)" "chunks (concat (xs @ ys)) = xs @ ys"
    using chunks_ConsD [of "concat ((x # xs) @ ys)" x "xs @ ys"] Cons.prems by simp_all
  have xne: "x \<noteq> []" using d(1) rune_width_pos [of "x @ concat xs @ concat ys"] by auto
  have w: "rune_width (x @ concat xs) = length x"
    using rune_width_prefix [of "x @ concat xs" "concat ys"] d(1) xne by simp
  have "chunks (x @ concat xs) = x # chunks (concat xs)"
    using chunks_unfold [of "x @ concat xs"] xne unfolding w by simp
  then show ?case using Cons.IH [OF d(2)] by simp
qed simp

subsection \<open>Words\<close>

definition word_ok :: "string \<Rightarrow> bool" where
  "word_ok f \<longleftrightarrow> f \<noteq> '''' \<and> (\<forall>c \<in> set (chunks f). \<not> is_space c)"

lemma field_chunks_words:
  assumes "chunks (concat (as @ cs)) = as @ cs" "\<forall>c \<in> set as. \<not> is_space c"
  shows "\<forall>f \<in> set (field_chunks (concat as) cs). word_ok f"
  using assms
proof (induction cs arbitrary: as)
  case Nil
  then show ?case by (auto simp: word_ok_def)
next
  case (Cons c cs)
  have tail: "chunks (concat cs) = cs" using chunks_concat_tail [of "as @ [c]" cs] Cons.prems(1) by simp
  have as: "chunks (concat as) = as"
    by (rule chunks_prefix [OF Cons.prems(1)])
  show ?case
  proof (cases "is_space c")
    case True
    then show ?thesis
      using Cons.IH [of "[]"] tail as Cons.prems(2) by (auto simp: word_ok_def)
  next
    case False
    then show ?thesis using Cons.IH [of "as @ [c]"] Cons.prems by simp
  qed
qed

lemma str_fields_words: "f \<in> set (str_fields s) \<Longrightarrow> word_ok f"
  using field_chunks_words [of "[]" "chunks s"] by (simp add: str_fields_def)

lemma field_chunks_run:
  "\<forall>c \<in> set cs. \<not> is_space c \<Longrightarrow> field_chunks acc (cs @ ds) = field_chunks (acc @ concat cs) ds"
  by (induction cs arbitrary: acc) simp_all

lemma chunks_ascii_Cons: "byte c < 128 \<Longrightarrow> chunks (c # cs) = [c] # chunks cs"
  using chunks_ascii_append [of c "[]" cs] by simp

lemma chunk_rune_ascii: "byte c < 128 \<Longrightarrow> chunk_rune [c] = byte c"
  by (simp add: chunk_rune_def valid_width_def)

lemma is_space_ascii: "byte c < 128 \<Longrightarrow> is_space [c] \<longleftrightarrow> byte c \<in> {9, 10, 11, 12, 13, 32}"
  by (auto simp: is_space_def chunk_rune_ascii space_runes_def)

text \<open>Evaluation of the string functions on ASCII text.\<close>

lemmas ascii_eval = chunks_ascii_Cons chunk_rune_ascii is_space_ascii str_fields_def runes_def of_runes_def
  encode_rune_def trim_char_def trim_space_def

lemma space_chunk [simp]: "is_space '' ''"
  by (simp add: is_space_ascii)

lemma str_fields_join: "\<forall>f \<in> set fs. word_ok f \<Longrightarrow> str_fields (join '' '' fs) = fs"
proof (induction "'' ''" fs rule: join.induct)
  case (2 f)
  then show ?case using field_chunks_run [of "chunks f" "[]" "[]"] by (simp add: str_fields_def word_ok_def)
next
  case (3 f g fs)
  have "chunks (f @ '' '' @ join '' '' (g # fs)) = chunks f @ '' '' # chunks (join '' '' (g # fs))"
    using chunks_ascii_append [of "CHR '' ''" f] by simp
  then show ?case
    using 3 field_chunks_run [of "chunks f" "[]" "'' '' # chunks (join '' '' (g # fs))"]
    by (simp add: str_fields_def word_ok_def)
qed (simp add: str_fields_def)

lemma str_fields_collapse [simp]: "str_fields (collapseSpaces s) = str_fields s"
  unfolding collapseSpaces_def by (rule str_fields_join) (simp add: str_fields_words)

lemma collapse_idem: "collapseSpaces (collapseSpaces s) = collapseSpaces s"
  using str_fields_collapse [of s] by (simp only: collapseSpaces_def)

lemma str_fields_sortTokens: "str_fields (sortTokens s) = sort (str_fields s)"
  unfolding sortTokens_def by (rule str_fields_join) (simp add: str_fields_words)

lemma str_fields_stripWords: "str_fields (stripWords ws s) = filter (\<lambda>f. trim_char (CHR ''.'') f \<notin> ws) (str_fields s)"
  unfolding stripWords_def by (rule str_fields_join) (auto simp: str_fields_words)
subsection \<open>Properties\<close>

text \<open>
  C28: Every normalized key is in canonical spacing. Whatever the steps and the Unicode tables, the
  result of \<open>Normalize\<close> is its own fields joined by single spaces (so a second collapse changes
  nothing, and the empty string is the only blank result), and no field of it contains white space.
\<close>

theorem normalize_canonical_spacing:
  "collapseSpaces (normalize T a s) = normalize T a s
    \<and> normalize T a s = join '' '' (str_fields (normalize T a s))
    \<and> (normalize T a s = '''' \<longleftrightarrow> str_fields (normalize T a s) = [])
    \<and> list_all word_ok (str_fields (normalize T a s))"
proof -
  define r where "r = fold (run_step T) (an_steps a) s"
  have n: "normalize T a s = collapseSpaces r" by (simp add: normalize_def r_def)
  have "join '' '' fs = '''' \<longleftrightarrow> fs = []" if "\<forall>f \<in> set fs. word_ok f" for fs
    using that by (induction "'' ''" fs rule: join.induct) (auto simp: word_ok_def)
  then have "collapseSpaces r = '''' \<longleftrightarrow> str_fields r = []"
    unfolding collapseSpaces_def by (simp add: str_fields_words)
  then show ?thesis
    unfolding n str_fields_collapse using collapse_idem [of r] str_fields_words [of _ r]
    by (auto simp: collapseSpaces_def list_all_iff)
qed


definition ascii_tables :: text_tables where
  "ascii_tables = \<lparr>tt_lower = (\<lambda>s. s), tt_fold = (\<lambda>s. s), tt_letter = (\<lambda>r. 97 \<le> r \<and> r \<le> 122),
     tt_digit = (\<lambda>r. 48 \<le> r \<and> r \<le> 57), tt_ascii = Some\<rparr>"


text \<open>
  Every preset builds, and installs exactly the steps it lists: \<open>Preset\<close> equals \<open>New\<close> on the steps
  \<open>PresetSteps\<close> exposes, which is why \<open>NewList\<close> may replace a preset by its steps; an unknown preset
  is an error, and a step that takes no argument is refused when it is given one.
\<close>

lemma preset_is_its_steps:
  "(case preset_steps name of
      None \<Rightarrow> preset name = Inl (UnknownPreset name)
    | Some steps \<Rightarrow> preset name = new_analyzer steps \<and> (\<exists>a. preset name = Inr a \<and> an_names a = steps))
   \<and> parse_step ''lowercase:x'' = Inl (TakesNoArgument ''lowercase:x'')"
proof (cases "map_of presets name")
  case None
  then show ?thesis by (simp add: preset_steps_def preset_def parse_step_def)
next
  case (Some steps)
  have "\<forall>s \<in> snd ` set presets. \<not> isl (new_analyzer s)"
    by (simp add: presets_def new_analyzer_def parse_step_def Let_def ascii_eval del: chunks.simps(2))
  then obtain a where "new_analyzer steps = Inr a"
    using map_of_SomeD [OF Some] by (metis image_eqI isl_def snd_conv sum.exhaust)
  moreover from this have "an_names a = steps" by (auto simp: new_analyzer_def split: sum.splits)
  ultimately show ?thesis using Some by (simp add: preset_steps_def preset_def parse_step_def)
qed

end
