(* ===== verification/List_Config.thy ===== *)
theory List_Config
  imports Analyzer Ngram_Index
begin

text \<open>
  The declared configuration of a list (\<open>engine/types.go\<close>) and the validation and normalization
  \<open>NewList\<close> performs on it (\<open>engine/list.go\<close>): what it refuses, the defaults it fills in, and the bytes
  whose hash identifies the resolved configuration.
\<close>

subsection \<open>Data\<close>

record match_config =
  mc_Mode :: string
  mc_Fallback :: string
  mc_ExactCompanion :: bool
  mc_Grams :: "int list"
  mc_StripSpaces :: bool
  mc_Threshold :: f64
  mc_TopK :: int

record analyzer_config =
  ac_Preset :: string
  ac_Steps :: "string list"

record golden_probe =
  gp_Q :: string
  gp_ExpectID :: string
  gp_Absent :: bool
  gp_MinScore :: f64

record filter_field =
  ff_Name :: string
  ff_Path :: string

record list_config =
  lc_Analyzer :: analyzer_config
  lc_Match :: match_config
  lc_Golden :: "golden_probe list"
  lc_Filterable :: "filter_field list"
  lc_OverlayAutoCompact :: int

datatype config_error =
    BadAnalyzer analyzer_error
  | ThresholdRange
  | TopKRange
  | GramSizeRange int
  | CompanionNeedsNgram
  | UnknownMode
  | FallbackNeedsExact
  | UnknownFallback
  | AutoCompactNegative
  | GoldenEmptyQuery nat
  | GoldenBoth nat
  | GoldenNeither nat
  | GoldenScoreNeedsID nat
  | GoldenScoreRange nat
  | FilterableCount nat
  | FilterableEmpty nat
  | FilterableName nat
  | FilterablePath nat
  | FilterableDuplicate nat

definition maxListTopK :: int where "maxListTopK = 2 ^ 20"
definition maxFilterFields :: nat where "maxFilterFields = 8"
definition maxFilterNameRunes :: nat where "maxFilterNameRunes = 128"
definition maxFilterPathRunes :: nat where "maxFilterPathRunes = 256"

text \<open>The \<open>float64\<close> nearest to 0.6.\<close>

definition default_threshold :: rat where
  "default_threshold = 5404319552844595 / 9007199254740992"

subsection \<open>Validation\<close>

definition f_outside :: "rat \<Rightarrow> rat \<Rightarrow> f64 \<Rightarrow> bool" where
  "f_outside lo hi x \<longleftrightarrow> x = NaN \<or> f_less x lo \<or> f_greater x hi"

definition ResolveAnalyzer :: "analyzer_config \<Rightarrow> analyzer_error + analyzer" where
  "ResolveAnalyzer cfg = (if ac_Preset cfg \<noteq> '''' then preset (ac_Preset cfg) else new_analyzer (ac_Steps cfg))"

definition resolve_match :: "match_config \<Rightarrow> config_error + match_config" where
  "resolve_match mc =
     (if f_outside 0 1 (mc_Threshold mc) then Inl ThresholdRange
      else if mc_TopK mc < 0 \<or> mc_TopK mc > maxListTopK then Inl TopKRange
      else
        (if mc_Mode mc = ''ngram'' then
           let mc1 = (if mc_Grams mc = [] then mc\<lparr>mc_Grams := [2, 3]\<rparr> else mc) in
           (case find (\<lambda>g. g < 1 \<or> g > MaxGramSize) (mc_Grams mc1) of
              Some g \<Rightarrow> Inl (GramSizeRange g)
            | None \<Rightarrow>
                let mc2 = (if mc_Threshold mc1 = Fin 0 then mc1\<lparr>mc_Threshold := Fin default_threshold\<rparr> else mc1)
                in Inr (if mc_TopK mc2 = 0 then mc2\<lparr>mc_TopK := 100\<rparr> else mc2))
         else if mc_Mode mc = ''exact'' then
           (if mc_ExactCompanion mc then Inl CompanionNeedsNgram else Inr mc)
         else Inl UnknownMode))"

definition check_fallback :: "match_config \<Rightarrow> config_error option" where
  "check_fallback mc =
     (if mc_Fallback mc = '''' then None
      else if mc_Fallback mc = ''parent_domain'' then
        (if mc_Mode mc \<noteq> ''exact'' then Some FallbackNeedsExact else None)
      else Some UnknownFallback)"

fun check_golden :: "nat \<Rightarrow> golden_probe list \<Rightarrow> config_error option" where
  "check_golden i [] = None"
| "check_golden i (p # ps) =
     (if gp_Q p = '''' then Some (GoldenEmptyQuery i)
      else if gp_ExpectID p \<noteq> '''' \<and> gp_Absent p then Some (GoldenBoth i)
      else if gp_ExpectID p = '''' \<and> \<not> gp_Absent p then Some (GoldenNeither i)
      else if gp_Absent p \<and> gp_MinScore p \<noteq> Fin 0 then Some (GoldenScoreNeedsID i)
      else if f_outside 0 100 (gp_MinScore p) then Some (GoldenScoreRange i)
      else check_golden (Suc i) ps)"

fun check_filterable :: "nat \<Rightarrow> string set \<Rightarrow> filter_field list \<Rightarrow> config_error option" where
  "check_filterable i seen [] = None"
| "check_filterable i seen (f # fs) =
     (if ff_Name f = '''' \<or> ff_Path f = '''' then Some (FilterableEmpty i)
      else if rune_count (ff_Name f) > maxFilterNameRunes then Some (FilterableName i)
      else if rune_count (ff_Path f) > maxFilterPathRunes then Some (FilterablePath i)
      else if ff_Name f \<in> seen then Some (FilterableDuplicate i)
      else check_filterable (Suc i) (insert (ff_Name f) seen) fs)"

definition resolve_config :: "list_config \<Rightarrow> config_error + (list_config \<times> analyzer)" where
  "resolve_config cfg =
     (case ResolveAnalyzer (lc_Analyzer cfg) of
        Inl e \<Rightarrow> Inl (BadAnalyzer e)
      | Inr an \<Rightarrow>
          let cfg1 = (if ac_Preset (lc_Analyzer cfg) \<noteq> ''''
                then cfg\<lparr>lc_Analyzer := \<lparr>ac_Preset = '''', ac_Steps = an_names an\<rparr>\<rparr> else cfg) in
          (case resolve_match (lc_Match cfg1) of
             Inl e \<Rightarrow> Inl e
           | Inr mc \<Rightarrow>
               (case check_fallback mc of
                  Some e \<Rightarrow> Inl e
                | None \<Rightarrow>
                    if lc_OverlayAutoCompact cfg1 < 0 then Inl AutoCompactNegative
                    else (case check_golden 0 (lc_Golden cfg1) of
                      Some e \<Rightarrow> Inl e
                    | None \<Rightarrow>
                        if length (lc_Filterable cfg1) > maxFilterFields
                        then Inl (FilterableCount (length (lc_Filterable cfg1)))
                        else (case check_filterable 0 {} (lc_Filterable cfg1) of
                          Some e \<Rightarrow> Inl e
                        | None \<Rightarrow>
                            Inr (cfg1\<lparr>lc_Match := mc, lc_Filterable := sort_key ff_Name (lc_Filterable cfg1)\<rparr>, an))))))"

subsection \<open>The digested bytes\<close>

definition be64 :: "nat \<Rightarrow> string" where
  "be64 n = map (\<lambda>i. char_of (n div 256 ^ (7 - i) mod 256)) [0..<8]"

definition digest_frame :: "string \<Rightarrow> string" where
  "digest_frame b = be64 (length b) @ b"

definition config_digest_bytes :: "(list_config \<Rightarrow> string) \<Rightarrow> list_config \<Rightarrow> analyzer \<Rightarrow> string" where
  "config_digest_bytes marshal cfg an =
     ''kurn config v1'' @ [CHR 0x00] @ digest_frame (marshal cfg) @ concat (map digest_frame (an_names an))"

definition resolvedConfigDigest ::
  "(string \<Rightarrow> string) \<Rightarrow> (list_config \<Rightarrow> string) \<Rightarrow> list_config \<Rightarrow> analyzer \<Rightarrow> string" where
  "resolvedConfigDigest sha256hex marshal cfg an = sha256hex (config_digest_bytes marshal cfg an)"

subsection \<open>What an accepted configuration satisfies\<close>

definition match_ok :: "match_config \<Rightarrow> bool" where
  "match_ok mc \<longleftrightarrow>
     (\<exists>t. mc_Threshold mc = Fin t \<and> 0 \<le> t \<and> t \<le> 1 \<and> (mc_Mode mc = ''ngram'' \<longrightarrow> 0 < t)) \<and>
     0 \<le> mc_TopK mc \<and> mc_TopK mc \<le> maxListTopK \<and>
     (mc_Mode mc = ''ngram'' \<and> 0 < mc_TopK mc \<and> mc_Grams mc \<noteq> [] \<and> (\<forall>g \<in> set (mc_Grams mc). 1 \<le> g \<and> g \<le> MaxGramSize)
       \<or> mc_Mode mc = ''exact'' \<and> \<not> mc_ExactCompanion mc)"

definition field_ok :: "filter_field \<Rightarrow> bool" where
  "field_ok f \<longleftrightarrow> ff_Name f \<noteq> '''' \<and> ff_Path f \<noteq> '''' \<and> rune_count (ff_Name f) \<le> maxFilterNameRunes
     \<and> rune_count (ff_Path f) \<le> maxFilterPathRunes"

definition config_ok :: "list_config \<Rightarrow> bool" where
  "config_ok cfg \<longleftrightarrow>
     ac_Preset (lc_Analyzer cfg) = '''' \<and> lc_OverlayAutoCompact cfg \<ge> 0 \<and> match_ok (lc_Match cfg) \<and>
     (mc_Fallback (lc_Match cfg) = '''' \<or> mc_Fallback (lc_Match cfg) = ''parent_domain'' \<and> mc_Mode (lc_Match cfg) = ''exact'') \<and>
     length (lc_Filterable cfg) \<le> maxFilterFields \<and> (\<forall>f \<in> set (lc_Filterable cfg). field_ok f) \<and>
     sorted (map ff_Name (lc_Filterable cfg)) \<and> distinct (map ff_Name (lc_Filterable cfg))"

lemma f_outside_fin: "\<not> f_outside lo hi x \<longleftrightarrow> (\<exists>t. x = Fin t \<and> lo \<le> t \<and> t \<le> hi)"
  by (cases x) (auto simp: f_outside_def not_less)

lemma resolve_match_ok:
  assumes "resolve_match mc = Inr mc'"
  shows "match_ok mc' \<and> mc_Fallback mc' = mc_Fallback mc \<and> mc_Mode mc' = mc_Mode mc"
proof -
  have out: "\<not> f_outside 0 1 (mc_Threshold mc)" and k: "0 \<le> mc_TopK mc" "mc_TopK mc \<le> maxListTopK"
    using assms by (auto simp: resolve_match_def split: if_splits)
  then obtain t where t: "mc_Threshold mc = Fin t" "0 \<le> t" "t \<le> 1" by (auto simp: f_outside_fin)
  show ?thesis
  proof (cases "mc_Mode mc = ''ngram''")
    case True
    define mc1 where "mc1 = (if mc_Grams mc = [] then mc\<lparr>mc_Grams := [2, 3]\<rparr> else mc)"
    define mc2 where "mc2 = (if mc_Threshold mc1 = Fin 0 then mc1\<lparr>mc_Threshold := Fin default_threshold\<rparr> else mc1)"
    have fd: "find (\<lambda>g. g < 1 \<or> g > MaxGramSize) (mc_Grams mc1) = None"
      and mc': "mc' = (if mc_TopK mc2 = 0 then mc2\<lparr>mc_TopK := 100\<rparr> else mc2)"
      using assms out k True
      by (auto simp: resolve_match_def Let_def mc1_def mc2_def split: if_splits option.splits)
    have g: "mc_Grams mc1 \<noteq> []" "\<forall>g \<in> set (mc_Grams mc1). 1 \<le> g \<and> g \<le> MaxGramSize"
      using fd by (auto simp: mc1_def find_None_iff)
    have th: "\<exists>u. mc_Threshold mc' = Fin u \<and> 0 \<le> u \<and> u \<le> 1 \<and> 0 < u"
    proof (cases "t = 0")
      case True
      then have "mc_Threshold mc' = Fin default_threshold" using t by (simp add: mc' mc2_def mc1_def)
      then show ?thesis by (intro exI [of _ default_threshold]) (simp add: default_threshold_def)
    next
      case False
      then have "mc_Threshold mc' = Fin t" using t by (simp add: mc' mc2_def mc1_def)
      then show ?thesis using t False by simp
    qed
    have "mc_Grams mc' = mc_Grams mc1" by (simp add: mc' mc2_def)
    moreover have "mc_TopK mc' = (if mc_TopK mc = 0 then 100 else mc_TopK mc)" "mc_Mode mc' = mc_Mode mc"
      "mc_Fallback mc' = mc_Fallback mc"
      by (simp_all add: mc' mc2_def mc1_def)
    ultimately show ?thesis using th g k True by (simp add: match_ok_def maxListTopK_def)
  next
    case False
    then have "mc_Mode mc = ''exact''" "\<not> mc_ExactCompanion mc" "mc' = mc"
      using assms out k by (simp_all add: resolve_match_def split: if_splits)
    then show ?thesis using k t by (simp add: match_ok_def)
  qed
qed

lemma resolve_match_idem:
  assumes "resolve_match mc = Inr mc'"
  shows "resolve_match mc' = Inr mc'"
proof -
  note ok = resolve_match_ok [OF assms]
  then obtain t where t: "mc_Threshold mc' = Fin t" "0 \<le> t" "t \<le> 1" "mc_Mode mc' = ''ngram'' \<longrightarrow> 0 < t"
    unfolding match_ok_def by blast
  have out: "\<not> f_outside 0 1 (mc_Threshold mc')" using t by (simp add: f_outside_fin)
  from ok consider "mc_Mode mc' = ''ngram''" "0 < mc_TopK mc'" "mc_Grams mc' \<noteq> []"
      "\<forall>g \<in> set (mc_Grams mc'). 1 \<le> g \<and> g \<le> MaxGramSize"
    | "mc_Mode mc' = ''exact''" "\<not> mc_ExactCompanion mc'" unfolding match_ok_def by blast
  then show ?thesis
  proof cases
    case 1
    then have "find (\<lambda>g. g < 1 \<or> g > MaxGramSize) (mc_Grams mc') = None" by (auto simp: find_None_iff)
    moreover have "0 \<le> mc_TopK mc'" "mc_TopK mc' \<le> maxListTopK" "t \<noteq> 0" using ok t 1 by (auto simp: match_ok_def)
    ultimately show ?thesis using out t(1) 1(1-3) by (simp add: resolve_match_def Let_def not_less)
  qed (use out ok in \<open>simp add: resolve_match_def match_ok_def not_less\<close>)
qed

lemma check_filterable_None:
  "check_filterable i seen fs = None \<longleftrightarrow>
    distinct (map ff_Name fs) \<and> ff_Name ` set fs \<inter> seen = {} \<and> (\<forall>f \<in> set fs. field_ok f)"
proof (induction fs arbitrary: i seen)
  case (Cons f fs)
  show ?case
  proof (cases "field_ok f \<and> ff_Name f \<notin> seen")
    case True
    then show ?thesis using Cons.IH by (auto simp: field_ok_def)
  next
    case False
    then have "check_filterable i seen (f # fs) \<noteq> None" by (auto simp: field_ok_def not_le)
    then show ?thesis using False by auto
  qed
qed simp

lemma resolve_configE:
  assumes "resolve_config cfg = Inr (cfg', an)"
  obtains mc where "ResolveAnalyzer (lc_Analyzer cfg) = Inr an" "resolve_match (lc_Match cfg) = Inr mc"
    "check_fallback mc = None" "lc_OverlayAutoCompact cfg \<ge> 0" "check_golden 0 (lc_Golden cfg) = None"
    "length (lc_Filterable cfg) \<le> maxFilterFields" "check_filterable 0 {} (lc_Filterable cfg) = None"
    "cfg' = cfg\<lparr>lc_Analyzer := (if ac_Preset (lc_Analyzer cfg) \<noteq> '''' then \<lparr>ac_Preset = '''', ac_Steps = an_names an\<rparr> else lc_Analyzer cfg),
       lc_Match := mc, lc_Filterable := sort_key ff_Name (lc_Filterable cfg)\<rparr>"
  using assms
  by (auto simp: resolve_config_def Let_def not_less split: sum.splits option.splits if_splits)

lemma new_analyzer_names: "new_analyzer steps = Inr a \<Longrightarrow> an_names a = steps"
  by (auto simp: new_analyzer_def split: sum.splits)

lemma resolve_analyzer_again:
  assumes "ResolveAnalyzer ac = Inr an" "ac_Preset ac \<noteq> ''''"
  shows "ResolveAnalyzer \<lparr>ac_Preset = '''', ac_Steps = an_names an\<rparr> = Inr an"
  using assms new_analyzer_names by (auto simp: ResolveAnalyzer_def preset_def split: option.splits)

lemma config_resolved_ok:
  assumes "resolve_config cfg = Inr (cfg', an)"
  shows "config_ok cfg'"
  using assms
proof (rule resolve_configE)
  fix mc assume a: "resolve_match (lc_Match cfg) = Inr mc" "check_fallback mc = None"
    "lc_OverlayAutoCompact cfg \<ge> 0" "length (lc_Filterable cfg) \<le> maxFilterFields"
    "check_filterable 0 {} (lc_Filterable cfg) = None"
    "cfg' = cfg\<lparr>lc_Analyzer := (if ac_Preset (lc_Analyzer cfg) \<noteq> '''' then \<lparr>ac_Preset = '''', ac_Steps = an_names an\<rparr> else lc_Analyzer cfg),
       lc_Match := mc, lc_Filterable := sort_key ff_Name (lc_Filterable cfg)\<rparr>"
  have d: "distinct (map ff_Name (lc_Filterable cfg))" using a(5) by (simp add: check_filterable_None)
  then have "distinct (map ff_Name (sort_key ff_Name (lc_Filterable cfg)))"
    by (simp add: distinct_map)
  moreover have "mc_Fallback mc = '''' \<or> mc_Fallback mc = ''parent_domain'' \<and> mc_Mode mc = ''exact''"
    using a(2) by (auto simp: check_fallback_def split: if_splits)
  ultimately show ?thesis
    using resolve_match_ok [OF a(1)] a(3-5) by (simp add: config_ok_def a(6) check_filterable_None)
qed

lemma config_resolve_idem:
  assumes "resolve_config cfg = Inr (cfg', an)"
  shows "resolve_config cfg' = Inr (cfg', an)"
  using assms
proof (rule resolve_configE)
  fix mc assume a: "ResolveAnalyzer (lc_Analyzer cfg) = Inr an" "resolve_match (lc_Match cfg) = Inr mc" "check_fallback mc = None"
    "lc_OverlayAutoCompact cfg \<ge> 0" "check_golden 0 (lc_Golden cfg) = None"
    "length (lc_Filterable cfg) \<le> maxFilterFields" "check_filterable 0 {} (lc_Filterable cfg) = None"
    "cfg' = cfg\<lparr>lc_Analyzer := (if ac_Preset (lc_Analyzer cfg) \<noteq> '''' then \<lparr>ac_Preset = '''', ac_Steps = an_names an\<rparr> else lc_Analyzer cfg),
       lc_Match := mc, lc_Filterable := sort_key ff_Name (lc_Filterable cfg)\<rparr>"
  have an: "ResolveAnalyzer (lc_Analyzer cfg') = Inr an" "ac_Preset (lc_Analyzer cfg') = ''''"
    using a(1) resolve_analyzer_again by (auto simp: a(8))
  have "check_filterable 0 {} (lc_Filterable cfg') = None"
    using a(7) by (simp add: a(8) check_filterable_None distinct_map)
  moreover have "sort_key ff_Name (lc_Filterable cfg') = lc_Filterable cfg'"
    by (simp add: a(8) sort_key_id_if_sorted)
  ultimately show ?thesis
    using an a resolve_match_idem [OF a(2)]
    by (simp add: resolve_config_def Let_def not_less)
qed

subsection \<open>The frames of the digest\<close>

lemma digits_eq:
  assumes "\<forall>i < k. m div 256 ^ i mod 256 = n div 256 ^ i mod (256 :: nat)"
  shows "m mod 256 ^ k = n mod 256 ^ k"
  using assms
proof (induction k)
  case (Suc k)
  have "x mod 256 ^ Suc k = 256 ^ k * (x div 256 ^ k mod 256) + x mod 256 ^ k" for x :: nat
    using mod_mult2_eq [of x "256 ^ k" 256] by (simp add: mult.commute)
  then show ?case using Suc by simp
qed simp

lemma be64_inj:
  assumes "be64 m = be64 n" "m < 2 ^ 64" "n < 2 ^ 64"
  shows "m = n"
proof -
  have "m div 256 ^ i mod 256 = n div 256 ^ i mod 256" if "i < 8" for i
  proof -
    have "be64 m ! (7 - i) = be64 n ! (7 - i)" using assms(1) by simp
    then have "char_of (m div 256 ^ i mod 256) = (char_of (n div 256 ^ i mod 256) :: char)"
      using that nth_upt [of 0 "7 - i" 8] by (simp add: be64_def)
    then have "byte (char_of (m div 256 ^ i mod 256)) = byte (char_of (n div 256 ^ i mod 256))" by (rule arg_cong)
    then show ?thesis by simp
  qed
  then have "m mod 256 ^ 8 = n mod 256 ^ 8" by (intro digits_eq) blast
  then show ?thesis using assms(2,3) by simp
qed

lemma length_be64 [simp]: "length (be64 n) = 8"
  by (simp add: be64_def)

lemma digest_frame_inj:
  assumes "digest_frame a @ x = digest_frame b @ y" "length a < 2 ^ 64" "length b < 2 ^ 64"
  shows "a = b \<and> x = y"
proof -
  have "be64 (length a) = be64 (length b)" and r: "a @ x = b @ y"
    using assms(1) by (simp_all add: digest_frame_def)
  then show ?thesis using be64_inj [of "length a" "length b"] assms(2,3) by simp
qed

lemma digest_frames_inj:
  "concat (map digest_frame xs) = concat (map digest_frame ys) \<Longrightarrow> \<forall>x \<in> set xs \<union> set ys. length x < 2 ^ 64 \<Longrightarrow> xs = ys"
proof (induction xs arbitrary: ys)
  case Nil
  then show ?case by (cases ys) (auto simp: digest_frame_def be64_def)
next
  case (Cons x xs)
  then obtain y zs where ys: "ys = y # zs" by (cases ys) (auto simp: digest_frame_def be64_def)
  then have "x = y \<and> concat (map digest_frame xs) = concat (map digest_frame zs)"
    using digest_frame_inj [of x "concat (map digest_frame xs)" y "concat (map digest_frame zs)"] Cons.prems by simp
  then show ?case using Cons.IH [of zs] Cons.prems(2) ys by simp
qed

subsection \<open>Properties\<close>

text \<open>
  C30: What \<open>NewList\<close> installs is valid and is a fixed point. An accepted configuration has a finite
  threshold in \<open>[0, 1]\<close> (positive in n-gram mode, where 0 became the default), a top-K in range, gram
  sizes in \<open>[1, MaxGramSize]\<close>, a fallback that fits the mode, and at most eight well-formed filterable
  fields, sorted by distinct names; the analyzer configuration is the explicit list of the installed
  steps; and resolving the result again yields it unchanged, with the same analyzer.
\<close>

theorem new_list_config_fixpoint:
  assumes "resolve_config cfg = Inr (cfg', an)"
  shows "config_ok cfg' \<and> ac_Steps (lc_Analyzer cfg') = an_names an \<and> resolve_config cfg' = Inr (cfg', an)"
proof -
  have idem: "resolve_config cfg' = Inr (cfg', an)" by (rule config_resolve_idem [OF assms])
  have ok: "config_ok cfg'" by (rule config_resolved_ok [OF assms])
  have "ResolveAnalyzer (lc_Analyzer cfg') = Inr an" using idem by (rule resolve_configE)
  then show ?thesis
    using ok idem new_analyzer_names by (auto simp: ResolveAnalyzer_def config_ok_def)
qed

definition demo_config :: list_config where
  "demo_config = \<lparr>lc_Analyzer = \<lparr>ac_Preset = ''identifier'', ac_Steps = []\<rparr>,
     lc_Match = \<lparr>mc_Mode = ''ngram'', mc_Fallback = '''', mc_ExactCompanion = True, mc_Grams = [], mc_StripSpaces = False,
       mc_Threshold = Fin 0, mc_TopK = 0\<rparr>,
     lc_Golden = [], lc_Filterable = [\<lparr>ff_Name = ''b'', ff_Path = ''p''\<rparr>, \<lparr>ff_Name = ''a'', ff_Path = ''q''\<rparr>],
     lc_OverlayAutoCompact = 0\<rparr>"

lemma demo_config_resolves: "\<exists>cfg' an. resolve_config demo_config = Inr (cfg', an)"
proof -
  have "\<exists>an. preset ''identifier'' = Inr an"
    by (simp add: preset_def presets_def new_analyzer_def parse_step_def Let_def)
  moreover have "check_filterable 0 {} [\<lparr>ff_Name = ''b'', ff_Path = ''p''\<rparr>, \<lparr>ff_Name = ''a'', ff_Path = ''q''\<rparr>] = None"
    by (simp add: check_filterable_None field_ok_def rune_count_def chunks_ascii_Cons maxFilterNameRunes_def
        maxFilterPathRunes_def del: chunks.simps(2))
  ultimately show ?thesis
    by (auto simp: resolve_config_def demo_config_def ResolveAnalyzer_def resolve_match_def f_outside_def maxListTopK_def
        MaxGramSize_def check_fallback_def maxFilterFields_def Let_def simp del: check_filterable.simps)
qed

theorem new_list_config_fixpoint_witness:
  "\<exists>cfg' an. resolve_config demo_config = Inr (cfg', an) \<and> config_ok cfg' \<and> resolve_config cfg' = Inr (cfg', an)"
  using demo_config_resolves new_list_config_fixpoint by blast

text \<open>
  C31: Declaration order carries no identity. Permuting the filterable fields of an accepted
  configuration resolves to the very same configuration and analyzer, hence to the same digest.
\<close>

theorem filterable_order_irrelevant:
  assumes "resolve_config cfg = Inr (cfg', an)" "mset fs = mset (lc_Filterable cfg)"
  shows "resolve_config (cfg\<lparr>lc_Filterable := fs\<rparr>) = Inr (cfg', an)"
  using assms(1)
proof (rule resolve_configE)
  fix mc assume a: "ResolveAnalyzer (lc_Analyzer cfg) = Inr an" "resolve_match (lc_Match cfg) = Inr mc" "check_fallback mc = None"
    "lc_OverlayAutoCompact cfg \<ge> 0" "check_golden 0 (lc_Golden cfg) = None"
    "length (lc_Filterable cfg) \<le> maxFilterFields" "check_filterable 0 {} (lc_Filterable cfg) = None"
    "cfg' = cfg\<lparr>lc_Analyzer := (if ac_Preset (lc_Analyzer cfg) \<noteq> '''' then \<lparr>ac_Preset = '''', ac_Steps = an_names an\<rparr> else lc_Analyzer cfg),
       lc_Match := mc, lc_Filterable := sort_key ff_Name (lc_Filterable cfg)\<rparr>"
  have eq: "set fs = set (lc_Filterable cfg)" "length fs = length (lc_Filterable cfg)"
    using assms(2) by (metis set_mset_mset, metis size_mset)
  have dn: "distinct (map ff_Name (lc_Filterable cfg))" and fok: "\<forall>f \<in> set (lc_Filterable cfg). field_ok f"
    using a(7) by (simp_all add: check_filterable_None)
  have dfs: "distinct (map ff_Name fs)" using dn assms(2) by (metis mset_map mset_eq_imp_distinct_iff)
  have "sort_key ff_Name fs = sort_key ff_Name (lc_Filterable cfg)"
  proof (rule properties_for_sort_key)
    show "mset (sort_key ff_Name (lc_Filterable cfg)) = mset fs" using assms(2) by simp
    fix k assume "k \<in> set (sort_key ff_Name (lc_Filterable cfg))"
    then have k: "k \<in> set fs" using eq by simp
    have only: "filter (\<lambda>x. ff_Name k = ff_Name x) zs = [k]" if "set zs = set fs" "distinct (map ff_Name zs)" for zs
    proof -
      have "filter (\<lambda>x. ff_Name k = ff_Name x) zs = filter (\<lambda>x. k = x) zs"
        using that k by (intro filter_cong) (auto simp: distinct_map inj_on_def)
      also have "\<dots> = [k]" using that k by (intro filter_eq_single) (auto simp: distinct_map)
      finally show ?thesis .
    qed
    have ds: "distinct (map ff_Name (sort_key ff_Name (lc_Filterable cfg)))" using dn by (simp add: distinct_map)
    show "filter (\<lambda>x. ff_Name k = ff_Name x) (sort_key ff_Name (lc_Filterable cfg)) = filter (\<lambda>x. ff_Name k = ff_Name x) fs"
      using only [OF _ ds] only [OF refl dfs] eq(1) by simp
  qed simp
  moreover have "check_filterable 0 {} fs = None" using dfs fok eq(1) by (simp add: check_filterable_None)
  ultimately show ?thesis
    using a eq(2) by (simp add: resolve_config_def Let_def not_less)
qed

theorem filterable_order_irrelevant_witness:
  "\<exists>cfg' an. resolve_config demo_config = Inr (cfg', an)
    \<and> resolve_config (demo_config\<lparr>lc_Filterable := rev (lc_Filterable demo_config)\<rparr>) = Inr (cfg', an)"
proof -
  obtain cfg' an where r: "resolve_config demo_config = Inr (cfg', an)" using demo_config_resolves by blast
  show ?thesis using filterable_order_irrelevant [OF r, of "rev (lc_Filterable demo_config)"] r by auto
qed



end
