(* ===== verification/List_State.thy ===== *)
theory List_State
  imports List_Config Exact_Index
begin

text \<open>
  The state of a list and every operation that changes it (\<open>engine/list.go\<close>, \<open>engine/journal.go\<close>, the
  read-only guards of \<open>engine/store_prepared.go\<close>). A list publishes immutable snapshots: a base
  segment, an overlay segment rebuilt from \<open>overlaySrc\<close> by every mutation, and the tombstones that mask
  base entries. Operations take the list and return the error, if any, with the list after the call;
  the mutex makes each of them atomic.

  The environment record carries what is not in the repository or not fixed by it: the bitmap library
  and the order in which Go iterates the exact builder's map (an arbitrary permutation per loop).
\<close>

subsection \<open>Data\<close>

record entry =
  e_ID :: string
  e_Keys :: "string list"
  e_Payload :: string

record 'b segment =
  sg_entries :: "entry list"
  sg_byID :: "string \<rightharpoonup> u32"
  sg_ng :: "'b ngram_index option"
  sg_ex :: "exact_index option"
  sg_payloadBytes :: int
  sg_droppedKeys :: int
  sg_keylessEntries :: int
  sg_unindexedEntries :: int
  sg_totalKeys :: int

record 'b snapshot =
  sn_base :: "'b segment option"
  sn_overlay :: "'b segment option"
  sn_tombstones :: "string set"
  sn_version :: string

record 'b klist =
  l_name :: string
  l_cfg :: list_config
  l_norm :: "string \<Rightarrow> string"
  l_cfgDigest :: string
  l_snap :: "'b snapshot"
  l_gen :: u64
  l_baseID :: string
  l_jhash :: "string option"
  l_overlaySrc :: "(string \<times> entry) list"
  l_readOnly :: bool
  l_roRefusals :: "nat option"

record 'b env =
  en_R :: "'b roaring"
  en_ord1 :: "string list \<Rightarrow> string list"
  en_ord2 :: "string list \<Rightarrow> string list"

datatype list_error =
    ErrReadOnly string
  | BuildError exact_error
  | BuilderPanic
  | CompanionError exact_error
  | WrongMode
  | NilIndex
  | CompanionMissing
  | CompanionUnexpected
  | OrdinalsExceedEntries u32 nat
  | CompanionOrdinalsExceed u32 nat
  | BuildInfoImpossible
  | BuildInfoOrdinals u32 int

record index_build_info =
  bi_entries :: int
  bi_droppedKeys :: int
  bi_keylessEntries :: int

datatype journal_rec = JUpsert "entry option" | JDelete string | JOther string

record 'b compact_build =
  cb_live :: "entry list"
  cb_seg :: "'b segment"

record 'b overlay_build =
  ob_src :: "(string \<times> entry) list"
  ob_tomb :: "string set"
  ob_seg :: "'b segment option"

subsection \<open>Decimal numbers in version stamps\<close>

fun show_nat :: "nat \<Rightarrow> string" where
  "show_nat n = (if n < 10 then [char_of (48 + n)] else show_nat (n div 10) @ [char_of (48 + n mod 10)])"

declare show_nat.simps [simp del]

subsection \<open>Segments\<close>

definition analyzed_keys :: "'b klist \<Rightarrow> entry \<Rightarrow> string list" where
  "analyzed_keys l e = filter (\<lambda>a. a \<noteq> '''') (map (l_norm l) (e_Keys e))"

fun by_id :: "nat \<Rightarrow> entry list \<Rightarrow> (string \<rightharpoonup> u32) \<Rightarrow> string \<rightharpoonup> u32" where
  "by_id i [] m = m"
| "by_id i (e # es) m = by_id (Suc i) es (m(e_ID e \<mapsto> of_nat i))"

definition build_exact :: "'b env \<Rightarrow> string list list \<Rightarrow> exact_error + exact_index" where
  "build_exact E kss =
     (let ks = dedup {} (filter (\<lambda>k. k \<noteq> '''') (concat kss))
      in exact_finish (en_ord1 E ks) (en_ord2 E ks) (exact_add_all new_builder 0 kss))"

definition buildSegment :: "'b env \<Rightarrow> 'b klist \<Rightarrow> entry list \<Rightarrow> list_error + 'b segment" where
  "buildSegment E l entries =
     (let mc = lc_Match (l_cfg l);
          kss = map (analyzed_keys l) entries;
          seg = \<lparr>sg_entries = entries, sg_byID = by_id 0 entries Map.empty, sg_ng = None, sg_ex = None,
            sg_payloadBytes = (\<Sum>e\<leftarrow>entries. int (length (e_Payload e))),
            sg_droppedKeys = (\<Sum>e\<leftarrow>entries. int (length (e_Keys e)) - int (length (analyzed_keys l e))),
            sg_keylessEntries = int (length (filter (\<lambda>e. analyzed_keys l e = [] \<and> e_Keys e \<noteq> []) entries)),
            sg_unindexedEntries = 0,
            sg_totalKeys = (\<Sum>e\<leftarrow>entries. int (length (e_Keys e)))\<rparr>
      in case (if mc_Mode mc = ''ngram''
               then map_option (\<lambda>b. Some (ngram_finish (en_R E) (ngram_add_all (en_R E) b 0 kss)))
                 (ngram_new_builder (mc_Grams mc) (mc_StripSpaces mc))
               else Some None) of
           None \<Rightarrow> Inl BuilderPanic
         | Some ng \<Rightarrow>
             if mc_Mode mc = ''exact'' \<or> mc_ExactCompanion mc then
               (case build_exact E kss of
                  Inl e \<Rightarrow> Inl (BuildError e)
                | Inr ex \<Rightarrow> Inr (seg\<lparr>sg_ng := ng, sg_ex := Some ex\<rparr>))
             else Inr (seg\<lparr>sg_ng := ng\<rparr>))"

definition buildCompanion :: "'b env \<Rightarrow> 'b klist \<Rightarrow> entry list \<Rightarrow> list_error + exact_index" where
  "buildCompanion E l entries =
     (case build_exact E (map (analyzed_keys l) entries) of
        Inl e \<Rightarrow> Inl (CompanionError e)
      | Inr ex \<Rightarrow> Inr ex)"

fun last_index :: "nat \<Rightarrow> entry list \<Rightarrow> (string \<rightharpoonup> nat) \<Rightarrow> string \<rightharpoonup> nat" where
  "last_index i [] m = m"
| "last_index i (e # es) m = last_index (Suc i) es (m(e_ID e \<mapsto> i))"

fun keep_last :: "(string \<rightharpoonup> nat) \<Rightarrow> nat \<Rightarrow> entry list \<Rightarrow> entry list" where
  "keep_last m i [] = []"
| "keep_last m i (e # es) =
     (if m (e_ID e) = Some i then e # keep_last m (Suc i) es else keep_last m (Suc i) es)"

definition dedupeLastWins :: "entry list \<Rightarrow> entry list" where
  "dedupeLastWins entries =
     (if distinct (map e_ID entries) then entries
      else keep_last (last_index 0 entries Map.empty) 0 entries)"

definition prepareBase :: "'b env \<Rightarrow> 'b klist \<Rightarrow> entry list \<Rightarrow> list_error + (entry list \<times> 'b segment)" where
  "prepareBase E l entries =
     (let es = dedupeLastWins entries in
      case buildSegment E l es of Inl e \<Rightarrow> Inl e | Inr seg \<Rightarrow> Inr (es, seg))"

definition applyBuildInfo ::
  "'b segment \<Rightarrow> index_build_info option \<Rightarrow> nat \<Rightarrow> u32 \<Rightarrow> list_error + 'b segment" where
  "applyBuildInfo seg bi n ords =
     (case bi of
        None \<Rightarrow> Inr seg
      | Some bi \<Rightarrow>
          if bi_entries bi < 0 \<or> bi_droppedKeys bi < 0 \<or> bi_keylessEntries bi < 0
            \<or> bi_keylessEntries bi > bi_entries bi \<or> bi_entries bi > int n then Inl BuildInfoImpossible
          else if int (unat ords) > bi_entries bi then Inl (BuildInfoOrdinals ords (bi_entries bi))
          else
            let u = int n - bi_entries bi in
            Inr (seg\<lparr>sg_droppedKeys := bi_droppedKeys bi, sg_keylessEntries := bi_keylessEntries bi,
              sg_unindexedEntries := (if u > 0 then u else sg_unindexedEntries seg)\<rparr>))"

subsection \<open>Read-only lists\<close>

definition ignoreReadOnly :: "'b klist \<Rightarrow> bool \<times> 'b klist" where
  "ignoreReadOnly l =
     (if \<not> l_readOnly l then (False, l) else (True, l\<lparr>l_roRefusals := map_option Suc (l_roRefusals l)\<rparr>))"

definition refuseReadOnly :: "string \<Rightarrow> 'b klist \<Rightarrow> list_error option \<times> 'b klist" where
  "refuseReadOnly opname l = (let (ro, l1) = ignoreReadOnly l in (if ro then Some (ErrReadOnly opname) else None, l1))"

text \<open>\<open>guarded op f l\<close> is the first statement of every mutator with an error return.\<close>

definition guarded ::
  "string \<Rightarrow> ('b klist \<Rightarrow> list_error option \<times> 'b klist) \<Rightarrow> 'b klist \<Rightarrow> list_error option \<times> 'b klist" where
  "guarded opname f l = (case refuseReadOnly opname l of (Some e, l1) \<Rightarrow> (Some e, l1) | (None, l1) \<Rightarrow> f l1)"

subsection \<open>Base installation\<close>

definition baseStamp :: "'b klist \<Rightarrow> nat \<Rightarrow> string" where
  "baseStamp l n =
     (if l_baseID l \<noteq> '''' then l_baseID l @ ''@'' @ show_nat n @ ''+j0+c'' @ l_cfgDigest l
      else ''gen'' @ show_nat (unat (l_gen l)) @ ''-base@'' @ show_nat n)"

definition installBase :: "'b segment \<Rightarrow> 'b klist \<Rightarrow> 'b klist" where
  "installBase seg l =
     (let l1 = l\<lparr>l_overlaySrc := [], l_gen := l_gen l + 1\<rparr> in
      l1\<lparr>l_snap := \<lparr>sn_base = Some seg, sn_overlay = None, sn_tombstones = {},
         sn_version = baseStamp l1 (length (sg_entries seg))\<rparr>\<rparr>)"

definition Replace :: "'b env \<Rightarrow> entry list \<Rightarrow> 'b klist \<Rightarrow> list_error option \<times> 'b klist" where
  "Replace E entries = guarded ''Replace'' (\<lambda>l.
     case prepareBase E l entries of
       Inl e \<Rightarrow> (Some e, l)
     | Inr (_, seg) \<Rightarrow> (None, installBase seg l))"

definition stampFresh :: "'b klist \<Rightarrow> 'b klist" where
  "stampFresh l = l\<lparr>l_snap := \<lparr>sn_base = None, sn_overlay = None, sn_tombstones = {}, sn_version = baseStamp l 0\<rparr>\<rparr>"

definition SetBaseID :: "string \<Rightarrow> 'b klist \<Rightarrow> 'b klist" where
  "SetBaseID bid l = (let (ro, l1) = ignoreReadOnly l in if ro then l1 else l1\<lparr>l_baseID := bid\<rparr>)"

definition setJournalHash :: "string option \<Rightarrow> 'b klist \<Rightarrow> 'b klist" where
  "setJournalHash h l = l\<lparr>l_jhash := h\<rparr>"

definition prebuilt_segment ::
  "entry list \<Rightarrow> 'b ngram_index option \<Rightarrow> exact_index option \<Rightarrow> index_build_info option \<Rightarrow> u32
    \<Rightarrow> list_error + 'b segment" where
  "prebuilt_segment entries ng ex bi ords =
     (case applyBuildInfo \<lparr>sg_entries = entries, sg_byID = Map.empty, sg_ng = ng, sg_ex = ex, sg_payloadBytes = 0,
         sg_droppedKeys = 0, sg_keylessEntries = 0, sg_unindexedEntries = 0, sg_totalKeys = 0\<rparr> bi (length entries) ords of
        Inl e \<Rightarrow> Inl e
      | Inr seg \<Rightarrow> Inr (seg\<lparr>sg_byID := by_id 0 entries (sg_byID seg),
          sg_payloadBytes := sg_payloadBytes seg + (\<Sum>e\<leftarrow>entries. int (length (e_Payload e))),
          sg_totalKeys := sg_totalKeys seg + (\<Sum>e\<leftarrow>entries. int (length (e_Keys e)))\<rparr>))"

definition ReplaceWithIndexesInfo ::
  "entry list \<Rightarrow> 'b ngram_index option \<Rightarrow> exact_index option \<Rightarrow> index_build_info option
    \<Rightarrow> 'b klist \<Rightarrow> list_error option \<times> 'b klist" where
  "ReplaceWithIndexesInfo entries idx companion bi = guarded ''ReplaceWithIndexesInfo'' (\<lambda>l.
     if mc_Mode (lc_Match (l_cfg l)) \<noteq> ''ngram'' then (Some WrongMode, l)
     else case idx of
       None \<Rightarrow> (Some NilIndex, l)
     | Some ix \<Rightarrow>
         if (companion \<noteq> None) \<noteq> mc_ExactCompanion (lc_Match (l_cfg l)) then
           (Some (if companion = None then CompanionMissing else CompanionUnexpected), l)
         else
           let es = dedupeLastWins entries in
           if unat (ngram_num_ords ix) > length es then
             (Some (OrdinalsExceedEntries (ngram_num_ords ix) (length es)), l)
           else if (case companion of None \<Rightarrow> False | Some c \<Rightarrow> unat (exact_num_ords c) > length es) then
             (Some (CompanionOrdinalsExceed (exact_num_ords (the companion)) (length es)), l)
           else case prebuilt_segment es (Some ix) companion bi (ngram_num_ords ix) of
             Inl e \<Rightarrow> (Some e, l)
           | Inr seg \<Rightarrow> (None, installBase seg l))"

definition ReplaceWithIndexInfo ::
  "'b env \<Rightarrow> entry list \<Rightarrow> 'b ngram_index option \<Rightarrow> index_build_info option
    \<Rightarrow> 'b klist \<Rightarrow> list_error option \<times> 'b klist" where
  "ReplaceWithIndexInfo E entries idx bi = guarded ''ReplaceWithIndexInfo'' (\<lambda>l.
     if mc_Mode (lc_Match (l_cfg l)) \<noteq> ''ngram'' then (Some WrongMode, l)
     else if idx = None then (Some NilIndex, l)
     else if mc_ExactCompanion (lc_Match (l_cfg l)) then
       (let es = dedupeLastWins entries in
        case buildCompanion E l es of
          Inl e \<Rightarrow> (Some e, l)
        | Inr c \<Rightarrow> ReplaceWithIndexesInfo es idx (Some c) bi l)
     else ReplaceWithIndexesInfo entries idx None bi l)"

definition ReplaceWithIndex ::
  "'b env \<Rightarrow> entry list \<Rightarrow> 'b ngram_index option \<Rightarrow> 'b klist \<Rightarrow> list_error option \<times> 'b klist" where
  "ReplaceWithIndex E entries idx = guarded ''ReplaceWithIndex'' (ReplaceWithIndexInfo E entries idx None)"

definition ReplaceWithExactIndexInfo ::
  "entry list \<Rightarrow> exact_index option \<Rightarrow> index_build_info option \<Rightarrow> 'b klist \<Rightarrow> list_error option \<times> 'b klist" where
  "ReplaceWithExactIndexInfo entries idx bi = guarded ''ReplaceWithExactIndexInfo'' (\<lambda>l.
     if mc_Mode (lc_Match (l_cfg l)) \<noteq> ''exact'' then (Some WrongMode, l)
     else case idx of
       None \<Rightarrow> (Some NilIndex, l)
     | Some ix \<Rightarrow>
         let es = dedupeLastWins entries in
         if unat (exact_num_ords ix) > length es then
           (Some (OrdinalsExceedEntries (exact_num_ords ix) (length es)), l)
         else case prebuilt_segment es None (Some ix) bi (exact_num_ords ix) of
           Inl e \<Rightarrow> (Some e, l)
         | Inr seg \<Rightarrow> (None, installBase seg l))"

definition ReplaceWithExactIndex ::
  "entry list \<Rightarrow> exact_index option \<Rightarrow> 'b klist \<Rightarrow> list_error option \<times> 'b klist" where
  "ReplaceWithExactIndex entries idx = guarded ''ReplaceWithExactIndex'' (ReplaceWithExactIndexInfo entries idx None)"

subsection \<open>The overlay\<close>

definition in_base :: "'b segment option \<Rightarrow> string \<Rightarrow> bool" where
  "in_base base eid = (case base of None \<Rightarrow> False | Some seg \<Rightarrow> sg_byID seg eid \<noteq> None)"

definition sorted_by_id :: "entry list \<Rightarrow> entry list" where
  "sorted_by_id es = sort_key e_ID es"


definition prepareOverlay ::
  "'b env \<Rightarrow> 'b klist \<Rightarrow> ((string \<times> entry) list \<Rightarrow> string set \<Rightarrow> 'b segment option \<Rightarrow> (string \<times> entry) list \<times> string set)
    \<Rightarrow> list_error + 'b overlay_build" where
  "prepareOverlay E l mutate =
     (let s = l_snap l;
          (src, tomb) = mutate (l_overlaySrc l) (sn_tombstones s) (sn_base s);
          entries = sorted_by_id (map snd src)
      in if entries = [] then Inr \<lparr>ob_src = src, ob_tomb = tomb, ob_seg = None\<rparr>
         else case buildSegment E l entries of
                Inl e \<Rightarrow> Inl e
              | Inr ov \<Rightarrow> Inr \<lparr>ob_src = src, ob_tomb = tomb, ob_seg = Some ov\<rparr>)"

definition commitOverlayAt :: "'b overlay_build \<Rightarrow> int \<Rightarrow> 'b klist \<Rightarrow> 'b klist" where
  "commitOverlayAt b jpos l =
     (let prev = l_snap l;
          baseN = (case sn_base prev of None \<Rightarrow> 0 | Some seg \<Rightarrow> length (sg_entries seg));
          l1 = l\<lparr>l_overlaySrc := ob_src b, l_gen := l_gen l + 1\<rparr>;
          version =
            (if l_baseID l \<noteq> '''' \<and> jpos \<ge> 0 \<and> (jpos = 0 \<or> l_jhash l \<noteq> None)
             then l_baseID l @ ''@'' @ show_nat baseN @ ''+j'' @ show_nat (nat jpos)
               @ (if jpos > 0 then ''.'' @ the (l_jhash l) else '''') @ ''+c'' @ l_cfgDigest l
             else ''gen'' @ show_nat (unat (l_gen l1)) @ ''-base@'' @ show_nat baseN @ ''+ov'' @ show_nat (length (ob_src b))
               @ ''-t'' @ show_nat (card (ob_tomb b)))
      in l1\<lparr>l_snap := \<lparr>sn_base = sn_base prev, sn_overlay = ob_seg b, sn_tombstones = ob_tomb b, sn_version = version\<rparr>\<rparr>)"

definition commitOverlay :: "'b overlay_build \<Rightarrow> 'b klist \<Rightarrow> 'b klist" where
  "commitOverlay b = commitOverlayAt b (- 1)"

fun upsert_mutate ::
  "entry list \<Rightarrow> (string \<times> entry) list \<Rightarrow> string set \<Rightarrow> 'b segment option \<Rightarrow> (string \<times> entry) list \<times> string set" where
  "upsert_mutate [] src tomb base = (src, tomb)"
| "upsert_mutate (e # es) src tomb base =
     upsert_mutate es (AList.update (e_ID e) e src) (if in_base base (e_ID e) then insert (e_ID e) tomb else tomb) base"

definition delete_mutate ::
  "string \<Rightarrow> (string \<times> entry) list \<Rightarrow> string set \<Rightarrow> 'b segment option \<Rightarrow> (string \<times> entry) list \<times> string set" where
  "delete_mutate eid src tomb base =
     (AList.delete eid src, if in_base base eid then insert eid tomb else tomb)"

definition prepareUpsert :: "'b env \<Rightarrow> 'b klist \<Rightarrow> entry list \<Rightarrow> list_error + 'b overlay_build" where
  "prepareUpsert E l entries = prepareOverlay E l (upsert_mutate entries)"

definition prepareDelete :: "'b env \<Rightarrow> 'b klist \<Rightarrow> string \<Rightarrow> list_error + 'b overlay_build" where
  "prepareDelete E l eid = prepareOverlay E l (delete_mutate eid)"

definition Upsert :: "'b env \<Rightarrow> entry list \<Rightarrow> 'b klist \<Rightarrow> list_error option \<times> 'b klist" where
  "Upsert E entries = guarded ''Upsert'' (\<lambda>l.
     case prepareUpsert E l entries of Inl e \<Rightarrow> (Some e, l) | Inr b \<Rightarrow> (None, commitOverlay b l))"

definition Delete :: "'b env \<Rightarrow> string \<Rightarrow> 'b klist \<Rightarrow> list_error option \<times> 'b klist" where
  "Delete E eid = guarded ''Delete'' (\<lambda>l.
     case prepareDelete E l eid of Inl e \<Rightarrow> (Some e, l) | Inr b \<Rightarrow> (None, commitOverlay b l))"

fun journal_mutate ::
  "journal_rec list \<Rightarrow> (string \<times> entry) list \<Rightarrow> string set \<Rightarrow> 'b segment option \<Rightarrow> (string \<times> entry) list \<times> string set" where
  "journal_mutate [] src tomb base = (src, tomb)"
| "journal_mutate (JUpsert None # ops) src tomb base = journal_mutate ops src tomb base"
| "journal_mutate (JUpsert (Some e) # ops) src tomb base =
     journal_mutate ops (AList.update (e_ID e) e src) (if in_base base (e_ID e) then insert (e_ID e) tomb else tomb) base"
| "journal_mutate (JDelete eid # ops) src tomb base =
     journal_mutate ops (AList.delete eid src) (if in_base base eid then insert eid tomb else tomb) base"
| "journal_mutate (JOther op # ops) src tomb base = journal_mutate ops src tomb base"

definition applyJournal :: "'b env \<Rightarrow> journal_rec list \<Rightarrow> int \<Rightarrow> 'b klist \<Rightarrow> list_error option \<times> 'b klist" where
  "applyJournal E ops jpos l =
     (if ops = [] then (None, l)
      else case prepareOverlay E l (journal_mutate ops) of
        Inl e \<Rightarrow> (Some e, l)
      | Inr b \<Rightarrow> (None, commitOverlayAt b jpos l))"

subsection \<open>Live entries and compaction\<close>

definition liveEntries :: "'b klist \<Rightarrow> entry list" where
  "liveEntries l =
     sorted_by_id
       ((case sn_base (l_snap l) of
           None \<Rightarrow> []
         | Some seg \<Rightarrow> filter (\<lambda>e. e_ID e \<notin> sn_tombstones (l_snap l) \<and> map_of (l_overlaySrc l) (e_ID e) = None)
             (sg_entries seg))
        @ map snd (l_overlaySrc l))"

definition PrepareCompact :: "'b env \<Rightarrow> 'b klist \<Rightarrow> (list_error + 'b compact_build) \<times> 'b klist" where
  "PrepareCompact E l =
     (case refuseReadOnly ''PrepareCompact'' l of
        (Some e, l1) \<Rightarrow> (Inl e, l1)
      | (None, l1) \<Rightarrow>
          let live = liveEntries l1 in
          (case buildSegment E l1 live of
             Inl e \<Rightarrow> (Inl e, l1)
           | Inr seg \<Rightarrow> (Inr \<lparr>cb_live = live, cb_seg = seg\<rparr>, l1)))"

definition CommitCompact :: "'b compact_build \<Rightarrow> string \<Rightarrow> 'b klist \<Rightarrow> 'b klist" where
  "CommitCompact b bid l =
     (let (ro, l1) = ignoreReadOnly l in
      if ro then l1
      else l1\<lparr>l_gen := l_gen l1 + 1, l_baseID := bid,
        l_snap := \<lparr>sn_base = Some (cb_seg b), sn_overlay = None, sn_tombstones = {},
          sn_version = bid @ ''@'' @ show_nat (length (cb_live b)) @ ''+j0+c'' @ l_cfgDigest l1\<rparr>,
        l_overlaySrc := []\<rparr>)"

definition Compact :: "'b env \<Rightarrow> 'b klist \<Rightarrow> list_error option \<times> 'b klist" where
  "Compact E = guarded ''Compact'' (\<lambda>l.
     let live = liveEntries l in
     case buildSegment E l live of
       Inl e \<Rightarrow> (Some e, l)
     | Inr base \<Rightarrow>
         (None, l\<lparr>l_gen := l_gen l + 1, l_baseID := '''',
           l_snap := \<lparr>sn_base = Some base, sn_overlay = None, sn_tombstones = {},
             sn_version = ''gen'' @ show_nat (unat (l_gen l + 1)) @ ''-base@'' @ show_nat (length live)\<rparr>,
           l_overlaySrc := []\<rparr>))"

subsection \<open>Accessors\<close>

definition HasExactIndex :: "'b klist \<Rightarrow> bool" where
  "HasExactIndex l \<longleftrightarrow> mc_Mode (lc_Match (l_cfg l)) = ''exact'' \<or> mc_ExactCompanion (lc_Match (l_cfg l))"

definition BaseNgram :: "'b klist \<Rightarrow> 'b ngram_index option" where
  "BaseNgram l = (case sn_base (l_snap l) of None \<Rightarrow> None | Some seg \<Rightarrow> if l_readOnly l then None else sg_ng seg)"

definition BaseExact :: "'b klist \<Rightarrow> exact_index option" where
  "BaseExact l = (case sn_base (l_snap l) of None \<Rightarrow> None
     | Some seg \<Rightarrow> if l_readOnly l \<or> mc_Mode (lc_Match (l_cfg l)) \<noteq> ''exact'' then None else sg_ex seg)"

definition BaseExactCompanion :: "'b klist \<Rightarrow> exact_index option" where
  "BaseExactCompanion l = (case sn_base (l_snap l) of None \<Rightarrow> None
     | Some seg \<Rightarrow> if l_readOnly l \<or> \<not> mc_ExactCompanion (lc_Match (l_cfg l)) then None else sg_ex seg)"

record list_status =
  st_Entries :: int
  st_Overlay :: int
  st_Tombstones :: int
  st_Version :: string
  st_DroppedKeys :: int
  st_KeylessEntries :: int
  st_UnindexedEntries :: int

definition seg_list :: "'b snapshot \<Rightarrow> 'b segment list" where
  "seg_list s = (case sn_base s of None \<Rightarrow> [] | Some b \<Rightarrow> [b]) @ (case sn_overlay s of None \<Rightarrow> [] | Some v \<Rightarrow> [v])"

definition Status :: "'b klist \<Rightarrow> list_status" where
  "Status l =
     (let s = l_snap l;
          tombs = (case sn_base s of None \<Rightarrow> 0
            | Some b \<Rightarrow> int (card {eid \<in> sn_tombstones s. sg_byID b eid \<noteq> None}));
          baseN = (case sn_base s of None \<Rightarrow> 0 | Some b \<Rightarrow> int (length (sg_entries b)));
          ovN = (case sn_overlay s of None \<Rightarrow> 0 | Some v \<Rightarrow> int (length (sg_entries v)))
      in \<lparr>st_Entries = baseN - tombs + ovN, st_Overlay = ovN, st_Tombstones = tombs, st_Version = sn_version s,
          st_DroppedKeys = (\<Sum>sg\<leftarrow>seg_list s. sg_droppedKeys sg),
          st_KeylessEntries = (\<Sum>sg\<leftarrow>seg_list s. sg_keylessEntries sg),
          st_UnindexedEntries = (\<Sum>sg\<leftarrow>seg_list s. sg_unindexedEntries sg)\<rparr>)"

definition BuildStats :: "'b klist \<Rightarrow> int \<times> int" where
  "BuildStats l = (st_DroppedKeys (Status l), st_KeylessEntries (Status l))"

definition UnindexedEntries :: "'b klist \<Rightarrow> int" where
  "UnindexedEntries l = st_UnindexedEntries (Status l)"

definition Stats :: "'b klist \<Rightarrow> int \<times> int \<times> int" where
  "Stats l = (st_Entries (Status l), st_Overlay (Status l), st_Tombstones (Status l))"

definition KeyCount :: "'b klist \<Rightarrow> int" where
  "KeyCount l =
     (let s = l_snap l in
      (case sn_base s of
         None \<Rightarrow> 0
       | Some b \<Rightarrow> sg_totalKeys b -
           (\<Sum>eid \<in> {eid \<in> sn_tombstones s. sg_byID b eid \<noteq> None}.
              int (length (e_Keys (sg_entries b ! unat (the (sg_byID b eid)))))))
      + (case sn_overlay s of None \<Rightarrow> 0 | Some v \<Rightarrow> sg_totalKeys v))"

definition new_list ::
  "text_tables \<Rightarrow> (string \<Rightarrow> string) \<Rightarrow> (list_config \<Rightarrow> string) \<Rightarrow> string \<Rightarrow> list_config \<Rightarrow> config_error + 'b klist" where
  "new_list T sha256hex marshal name cfg =
     (case resolve_config cfg of
        Inl e \<Rightarrow> Inl e
      | Inr (cfg1, an) \<Rightarrow>
          Inr \<lparr>l_name = name, l_cfg = cfg1, l_norm = normalize T an,
            l_cfgDigest = resolvedConfigDigest sha256hex marshal cfg1 an,
            l_snap = \<lparr>sn_base = None, sn_overlay = None, sn_tombstones = {}, sn_version = ''empty@0''\<rparr>,
            l_gen = 0, l_baseID = '''', l_jhash = None, l_overlaySrc = [], l_readOnly = False, l_roRefusals = None\<rparr>)"

end
