(* ===== verification/List_Build.thy ===== *)
theory List_Build
  imports List_State
begin

text \<open>
  What a freshly built segment guarantees. Under the documented behaviour of the environment (\<open>env_ok\<close>:
  a bitmap library that is a set of ordinals, and map iteration that visits each key once) the indexes
  \<open>buildSegment\<close> attaches are well formed, stay within the segment's entries and find exactly the entries
  that have the analyzed key; and a build within the posting encoding's limits does not fail.
\<close>

definition env_ok :: "'b env \<Rightarrow> bool" where
  "env_ok E \<longleftrightarrow> roaring_ok (en_R E) \<and> (\<forall>ks. mset (en_ord1 E ks) = mset ks) \<and> (\<forall>ks. mset (en_ord2 E ks) = mset ks)"

definition grams_ok :: "'b klist \<Rightarrow> bool" where
  "grams_ok l \<longleftrightarrow> (mc_Mode (lc_Match (l_cfg l)) = ''ngram'' \<longrightarrow> (\<forall>g \<in> set (mc_Grams (lc_Match (l_cfg l))). 1 \<le> g))"

lemma buildSegment_no_panic: "grams_ok l \<Longrightarrow> buildSegment E l es \<noteq> Inl BuilderPanic"
  by (auto simp: buildSegment_def grams_ok_def ngram_new_builder_def Let_def split: if_splits sum.splits option.splits)

subsection \<open>The exact index of a segment\<close>

lemma perm_iter:
  assumes "mset ks' = mset ks" "map_iter m ks"
  shows "map_iter m ks'"
  using assms mset_eq_setD [OF assms(1)] mset_eq_imp_distinct_iff [OF assms(1)] by (simp add: map_iter_def)

lemma build_iter:
  assumes "length kss < 2 ^ 32"
  shows "map_iter (exact_add_all new_builder 0 kss) (dedup {} (filter (\<lambda>k. k \<noteq> '''') (concat kss)))"
proof -
  have "k \<in> dom (exact_add_all new_builder 0 kss) \<longleftrightarrow> k \<noteq> '''' \<and> k \<in> set (concat kss)" for k
  proof -
    have "holders kss k = [] \<longleftrightarrow> k = '''' \<or> k \<notin> set (concat kss)"
      by (auto simp: holders_def filter_empty_conv all_set_conv_all_nth [of kss])
    then show ?thesis using exact_add_all_holders [of kss k] assms by (auto simp: dom_def)
  qed
  then show ?thesis by (auto simp: map_iter_def)
qed

lemma build_exact_iter:
  assumes "env_ok E" "length kss < 2 ^ 32"
  obtains o1 o2 where "build_exact E kss = exact_finish o1 o2 (exact_add_all new_builder 0 kss)"
    "map_iter (exact_add_all new_builder 0 kss) o1" "map_iter (exact_add_all new_builder 0 kss) o2"
  using perm_iter [OF _ build_iter [OF assms(2)]] assms(1) by (simp add: build_exact_def env_ok_def Let_def)

lemma build_exact_Inr:
  assumes "env_ok E" "length kss < 2 ^ 32" "build_exact E kss = Inr idx"
  shows "exact_wf idx" "exact_lookup idx k = Some (map of_nat (holders kss k))"
    "unat (exact_num_ords idx) \<le> length kss"
proof -
  let ?b = "exact_add_all new_builder 0 kss"
  obtain o1 o2 where e: "exact_finish o1 o2 ?b = Inr idx" and it: "map_iter ?b o1" "map_iter ?b o2"
    using build_exact_iter [OF assms(1,2)] assms(3) by metis
  show "exact_wf idx" by (rule exact_build_wf [OF assms(2) it e])
  show "exact_lookup idx k = Some (map of_nat (holders kss k))"
    using exact_build_lookup [OF assms(2) it e] by blast
  from e obtain n where "finish_fill (enum_map ?b o2) 0 \<lparr>ix_m = Map.empty, ix_arena = replicate n (CHR 0x00),
      ix_postings = [], ix_numOrds = 0\<rparr> = Inr idx"
    by (auto simp: exact_finish_def split: sum.splits prod.splits)
  from finish_fill_ords [OF this] consider "ix_numOrds idx = 0"
    | k p where "(k, p) \<in> set (enum_map ?b o2)" "ix_numOrds idx = last p + 1" by auto
  then show "unat (exact_num_ords idx) \<le> length kss"
  proof cases
    case 2
    then have "p = map of_nat (holders kss k)" "holders kss k \<noteq> []"
      using build_dom [OF assms(2)] by (auto simp: set_enum_map)
    moreover then have l: "last (holders kss k) < length kss" using holders_less last_in_set by blast
    ultimately have "last p + 1 = of_nat (Suc (last (holders kss k)))" by (simp add: last_map)
    then have "unat (last p + 1) = Suc (last (holders kss k))" using l assms(2) by (simp only: unat_of_nat) simp
    then show ?thesis using l 2 by (simp add: exact_num_ords_def)
  qed (simp add: exact_num_ords_def)
qed

text \<open>The number of postings: adding an entry's keys adds at most one posting per key.\<close>

lemma postings_sum:
  assumes "finite S"
  shows "(\<Sum>k\<in>S. length (map_to (exact_add_all b i kss) k)) \<le> (\<Sum>k\<in>S. length (map_to b k)) + length (concat kss)"
proof (induction kss arbitrary: b i)
  case (Cons ks kss)
  have "(\<Sum>k\<in>S. length (map_to (exact_add b (of_nat i) ks) k)) \<le> (\<Sum>k\<in>S. length (map_to b k) + (if k \<in> set ks then 1 else 0))"
    by (rule sum_mono) (auto simp: map_to_def exact_add_apply)
  also have "\<dots> = (\<Sum>k\<in>S. length (map_to b k)) + card (S \<inter> set ks)"
    using assms by (simp add: sum.distrib sum.If_cases Int_def)
  also have "card (S \<inter> set ks) \<le> length ks"
    by (meson card_length card_mono finite_set inf_le2 le_trans)
  finally show ?case using Cons.IH [of "exact_add b (of_nat i) ks" "Suc i"] by simp
qed simp

lemma postings_total:
  assumes "map_iter b ks"
  shows "length (concat (map snd (enum_map b ks))) = (\<Sum>k\<in>set ks. length (map_to b k))"
proof -
  have "set ks \<subseteq> dom b \<Longrightarrow> distinct ks \<Longrightarrow> length (concat (map snd (enum_map b ks))) = (\<Sum>k\<in>set ks. length (map_to b k))"
    by (induction ks) (auto simp: map_to_def)
  then show ?thesis using assms by (simp add: map_iter_def)
qed

lemma build_exact_succeeds:
  assumes "env_ok E" "length kss < 2 ^ 32" "length (concat kss) \<le> maxRun"
  shows "\<exists>idx. build_exact E kss = Inr idx"
proof -
  let ?b = "exact_add_all new_builder 0 kss"
  obtain o1 o2 where e: "build_exact E kss = exact_finish o1 o2 ?b" and it: "map_iter ?b o1" "map_iter ?b o2"
    using build_exact_iter [OF assms(1,2)] .
  have sum: "(\<Sum>k\<in>S. length (map_to ?b k)) \<le> maxRun" if "finite S" for S
    using postings_sum [OF that, of new_builder 0 kss] assms(3) by (simp add: new_builder_def map_to_def)
  have "length (concat (map snd (enum_map ?b o2))) \<le> maxOff"
    unfolding postings_total [OF it(2)] by (rule le_trans [OF sum]) (simp_all add: maxRun_def maxOff_def)
  note cap = exact_build_cap [OF assms(2) it this]
  show ?thesis
  proof (cases "exact_finish o1 o2 ?b")
    case (Inl er)
    then obtain k where "length (holders kss k) > maxRun" using cap by auto
    moreover have "length (holders kss k) = length (map_to ?b k)"
      using exact_add_all_holders [of kss k] assms(2) by (simp add: map_to_def)
    ultimately show ?thesis using sum [of "{k}"] by simp
  qed (simp add: e)
qed

subsection \<open>The n-gram index of a segment\<close>

lemma finish_max_some:
  "finish_max R ps mx anyp = (mx', True) \<Longrightarrow> anyp \<or> (\<exists>(g, bm) \<in> set ps. 0 < bm_card R bm)"
  by (induction R ps mx anyp rule: finish_max.induct) (auto split: if_splits)

lemma ngram_build_ords:
  assumes R: "roaring_ok R" and n: "length kss < 2 ^ 32"
  shows "unat (ngram_num_ords (ngram_finish R (ngram_add_all R (empty_builder cfg) 0 kss))) \<le> length kss"
proof -
  let ?b = "ngram_add_all R (empty_builder cfg) 0 kss"
  have dist: "distinct (map fst (ni_postings ?b))" by (rule distinct_fst_add_all) (simp add: empty_builder_def)
  obtain mx anyp where f: "finish_max R (ni_postings ?b) 0 False = (mx, anyp)" by force
  have ord: "\<exists>j < length kss. ord = of_nat j" if "(g, bm) \<in> set (ni_postings ?b)" "ord \<in> set (bm_list R bm)" for g bm ord
  proof -
    have "ord \<in> gram_ords R (ni_postings ?b) g" using that dist by (simp add: gram_ords_def)
    then show ?thesis unfolding gram_ords_add_all [OF R] by (auto simp: empty_builder_def gram_ords_def)
  qed
  have "unat (mx + 1) \<le> length kss" if anyp
  proof -
    obtain g bm where "(g, bm) \<in> set (ni_postings ?b)" "bm_list R bm \<noteq> []"
    proof -
      have "finish_max R (ni_postings ?b) 0 False = (mx, True)" using f \<open>anyp\<close> by simp
      from finish_max_some [OF this] obtain g bm where "(g, bm) \<in> set (ni_postings ?b)" "0 < bm_card R bm" by auto
      then show ?thesis using R that by (auto simp: roaring_ok_def)
    qed
    then obtain j0 where "j0 < length kss" using ord by (metis last_in_set)
    moreover have "mx = 0 \<or> (\<exists>j < length kss. mx = of_nat j)"
      using finish_max_bound [OF R f] ord by blast
    ultimately obtain j where j: "j < length kss" "mx = of_nat j"
    proof (elim disjE exE)
      assume "mx = 0" "j0 < length kss" then show ?thesis by (intro that [of 0]) auto
    qed (use that in auto)
    then have "mx + 1 = of_nat (Suc j)" by simp
    then have "unat (mx + 1) = Suc j" using j(1) n by (simp only: unat_of_nat) simp
    then show ?thesis using j(1) by simp
  qed
  moreover have "ni_numOrds ?b = 0" by (simp add: empty_builder_def)
  ultimately show ?thesis by (simp add: ngram_finish_def f Let_def ngram_num_ords_def)
qed

subsection \<open>Segments\<close>

definition seg_idx :: "'b roaring \<Rightarrow> 'b segment \<Rightarrow> bool" where
  "seg_idx R seg \<longleftrightarrow>
     (\<forall>ex. sg_ex seg = Some ex \<longrightarrow> exact_wf ex \<and> unat (exact_num_ords ex) \<le> length (sg_entries seg)) \<and>
     (\<forall>ng. sg_ng seg = Some ng \<longrightarrow> ngram_wf R ng \<and> unat (ngram_num_ords ng) \<le> length (sg_entries seg))"

lemma new_builder_empty:
  "ngram_new_builder grams strip = Some b \<Longrightarrow> \<exists>cfg. b = empty_builder cfg"
  by (auto simp: ngram_new_builder_def empty_builder_def split: if_splits)

lemma buildSegment_idx:
  assumes E: "env_ok E" and n: "length es < 2 ^ 32" and b: "buildSegment E l es = Inr seg"
  shows "seg_idx (en_R E) seg"
    "\<And>ex. sg_ex seg = Some ex \<Longrightarrow> build_exact E (map (analyzed_keys l) es) = Inr ex"
    "mc_Mode (lc_Match (l_cfg l)) = ''ngram'' \<longleftrightarrow> sg_ng seg \<noteq> None"
    "mc_Mode (lc_Match (l_cfg l)) = ''exact'' \<or> mc_ExactCompanion (lc_Match (l_cfg l)) \<longleftrightarrow> sg_ex seg \<noteq> None"
proof -
  let ?kss = "map (analyzed_keys l) es"
  have n': "length ?kss < 2 ^ 32" using n by simp
  have R: "roaring_ok (en_R E)" using E by (simp add: env_ok_def)
  have e: "sg_entries seg = es"
    and ng: "sg_ng seg = None \<or> (\<exists>b0. ngram_new_builder (mc_Grams (lc_Match (l_cfg l))) (mc_StripSpaces (lc_Match (l_cfg l))) = Some b0
        \<and> sg_ng seg = Some (ngram_finish (en_R E) (ngram_add_all (en_R E) b0 0 ?kss)))"
    and ex: "sg_ex seg = None \<or> (\<exists>ex. build_exact E ?kss = Inr ex \<and> sg_ex seg = Some ex)"
    and m: "mc_Mode (lc_Match (l_cfg l)) = ''ngram'' \<longleftrightarrow> sg_ng seg \<noteq> None"
      "mc_Mode (lc_Match (l_cfg l)) = ''exact'' \<or> mc_ExactCompanion (lc_Match (l_cfg l)) \<longleftrightarrow> sg_ex seg \<noteq> None"
    using b by (auto simp: buildSegment_def Let_def split: option.splits if_splits sum.splits)
  show "seg_idx (en_R E) seg"
    using ng ex build_exact_Inr [OF E n'] ngram_build_wf [OF R n'] ngram_build_ords [OF R n']
    by (auto simp: seg_idx_def e dest!: new_builder_empty)
  show "build_exact E ?kss = Inr ex" if "sg_ex seg = Some ex" for ex
    using ex that by auto
  show "mc_Mode (lc_Match (l_cfg l)) = ''ngram'' \<longleftrightarrow> sg_ng seg \<noteq> None" by (rule m(1))
  show "mc_Mode (lc_Match (l_cfg l)) = ''exact'' \<or> mc_ExactCompanion (lc_Match (l_cfg l)) \<longleftrightarrow> sg_ex seg \<noteq> None" by (rule m(2))
qed

definition raw_keys :: "entry list \<Rightarrow> nat" where
  "raw_keys es = (\<Sum>e\<leftarrow>es. length (e_Keys e))"

lemma analyzed_keys_le: "length (concat (map (analyzed_keys l) es)) \<le> raw_keys es"
proof (induction es)
  case (Cons e es)
  have "length (analyzed_keys l e) \<le> length (e_Keys e)"
    unfolding analyzed_keys_def by (metis length_filter_le length_map)
  then show ?case using Cons by (simp add: raw_keys_def)
qed simp

lemma buildSegment_succeeds:
  assumes "env_ok E" "grams_ok l" "length es < 2 ^ 32" "raw_keys es \<le> maxRun"
  shows "\<exists>seg. buildSegment E l es = Inr seg"
proof -
  obtain ex where ex: "build_exact E (map (analyzed_keys l) es) = Inr ex"
    using build_exact_succeeds [OF assms(1), of "map (analyzed_keys l) es"] assms(3,4) analyzed_keys_le [of l es] by auto
  show ?thesis
    using assms(2) by (auto simp: buildSegment_def Let_def ex grams_ok_def ngram_new_builder_def)
qed

end
