(* ===== verification/View_Refinement.thy ===== *)
theory View_Refinement
  imports Kurn_Prelude
begin

text \<open>
  The contract of a mutable component seen through an abstraction: an operation keeps the invariant,
  one that succeeds acts on the abstraction as its specification says, and one that reports an error
  leaves the abstraction as it was. The contract is about single operations; what clients use is its
  consequence for a sequence of calls, some of which fail: the abstraction at the end is the
  specification run over exactly the calls that succeeded.
\<close>

fun run_ops :: "('o \<Rightarrow> 's \<Rightarrow> 'e option \<times> 's) \<Rightarrow> 'o list \<Rightarrow> 's \<Rightarrow> ('o \<times> 'e option) list \<times> 's" where
  "run_ops app [] s = ([], s)"
| "run_ops app (x # xs) s =
     (let (e, s1) = app x s; (tr, s2) = run_ops app xs s1 in ((x, e) # tr, s2))"

definition succeeded :: "('o \<times> 'e option) list \<Rightarrow> 'o list" where
  "succeeded tr = map fst (filter (\<lambda>(x, e). e = None) tr)"

locale refined_by =
  fixes inv :: "'s \<Rightarrow> bool"
    and abs :: "'s \<Rightarrow> 'a"
    and app :: "'o \<Rightarrow> 's \<Rightarrow> 'e option \<times> 's"
    and spec :: "'o \<Rightarrow> 'a \<Rightarrow> 'a"
  assumes keeps: "inv s \<Longrightarrow> inv (snd (app x s))"
    and succeeds: "inv s \<Longrightarrow> app x s = (None, s1) \<Longrightarrow> abs s1 = spec x (abs s)"
    and fails: "inv s \<Longrightarrow> app x s = (Some e, s1) \<Longrightarrow> abs s1 = abs s"
begin

lemma run_refines:
  assumes "inv s" "run_ops app xs s = (tr, s1)"
  shows "inv s1 \<and> map fst tr = xs \<and> abs s1 = fold spec (succeeded tr) (abs s)"
  using assms
proof (induction xs arbitrary: s tr)
  case (Cons x xs)
  obtain e s2 where x: "app x s = (e, s2)" by force
  obtain tr1 where r: "run_ops app xs s2 = (tr1, s1)" and l: "tr = (x, e) # tr1"
    using Cons.prems(2) x by (auto split: prod.splits)
  have "inv s2" using keeps [OF Cons.prems(1), of x] x by simp
  then have ih: "inv s1" "map fst tr1 = xs" "abs s1 = fold spec (succeeded tr1) (abs s2)"
    using Cons.IH r by blast+
  moreover have "abs s2 = (if e = None then spec x (abs s) else abs s)"
    using succeeds [OF Cons.prems(1)] fails [OF Cons.prems(1)] x by (cases e) auto
  ultimately show ?case by (simp add: l succeeded_def)
qed (simp add: succeeded_def)

end

end
