(* ===== verification/List_View.thy ===== *)
theory List_View
  imports List_Build View_Refinement
begin

text \<open>
  What a list is to its users: a finite map from entry IDs to entries. \<open>view\<close> reads that map off the
  published snapshot the way queries do (overlay entries, plus base entries whose ID is not
  tombstoned). The invariant \<open>list_inv\<close> ties the snapshot to \<open>overlaySrc\<close>; every operation keeps it, and
  on the view every operation is the obvious map update, whatever mixture of base, overlay and
  tombstones represents it. An operation that reports an error leaves the view as it was.
\<close>

subsection \<open>The abstract map\<close>

definition idmap :: "entry list \<Rightarrow> string \<rightharpoonup> entry" where
  "idmap es = map_of (map (\<lambda>e. (e_ID e, e)) es)"

definition puts :: "entry list \<Rightarrow> (string \<rightharpoonup> entry) \<Rightarrow> string \<rightharpoonup> entry" where
  "puts es m = fold (\<lambda>e m. m(e_ID e \<mapsto> e)) es m"

definition seg_map :: "'b segment option \<Rightarrow> string \<rightharpoonup> entry" where
  "seg_map so = (case so of None \<Rightarrow> Map.empty | Some seg \<Rightarrow> idmap (sg_entries seg))"

definition snap_view :: "'b snapshot \<Rightarrow> string \<rightharpoonup> entry" where
  "snap_view s = (seg_map (sn_base s) |` (- sn_tombstones s)) ++ seg_map (sn_overlay s)"

definition view :: "'b klist \<Rightarrow> string \<rightharpoonup> entry" where
  "view l = snap_view (l_snap l)"

definition seg_inv :: "'b segment \<Rightarrow> bool" where
  "seg_inv seg \<longleftrightarrow> distinct (map e_ID (sg_entries seg)) \<and> sg_byID seg = by_id 0 (sg_entries seg) Map.empty
     \<and> sg_totalKeys seg = (\<Sum>e\<leftarrow>sg_entries seg. int (length (e_Keys e)))
     \<and> sg_payloadBytes seg = (\<Sum>e\<leftarrow>sg_entries seg. int (length (e_Payload e)))"

definition src_ok :: "(string \<times> entry) list \<Rightarrow> bool" where
  "src_ok src \<longleftrightarrow> distinct (map fst src) \<and> (\<forall>(k, e) \<in> set src. k = e_ID e)"

definition tomb_ok :: "'b segment option \<Rightarrow> (string \<times> entry) list \<Rightarrow> string set \<Rightarrow> bool" where
  "tomb_ok base src tomb \<longleftrightarrow> finite tomb \<and> (\<forall>i \<in> tomb. in_base base i)
     \<and> (\<forall>i \<in> dom (map_of src). in_base base i \<longrightarrow> i \<in> tomb)"

definition list_inv :: "'b klist \<Rightarrow> bool" where
  "list_inv l \<longleftrightarrow>
     (case sn_base (l_snap l) of None \<Rightarrow> True | Some seg \<Rightarrow> seg_inv seg)
     \<and> (case sn_overlay (l_snap l) of None \<Rightarrow> l_overlaySrc l = []
        | Some ov \<Rightarrow> seg_inv ov \<and> sg_entries ov = sorted_by_id (map snd (l_overlaySrc l)))
     \<and> src_ok (l_overlaySrc l) \<and> tomb_ok (sn_base (l_snap l)) (l_overlaySrc l) (sn_tombstones (l_snap l))"

subsection \<open>Maps built from entries\<close>

lemma option_ext: "(\<And>x. a = Some x \<longleftrightarrow> b = Some x) \<Longrightarrow> a = b"
  by (cases a) (metis not_Some_eq)+

lemma puts_Nil [simp]: "puts [] m = m"
  by (simp add: puts_def)

lemma puts_Cons [simp]: "puts (e # es) m = puts es (m(e_ID e \<mapsto> e))"
  by (simp add: puts_def)

lemma dom_idmap: "dom (idmap es) = e_ID ` set es"
  by (auto simp: idmap_def dom_map_of_conv_image_fst image_image)

lemma idmap_Some: "idmap es i = Some e \<Longrightarrow> e \<in> set es \<and> e_ID e = i"
  by (auto simp: idmap_def dest!: map_of_SomeD)

lemma idmap_distinct:
  "distinct (map e_ID es) \<Longrightarrow> idmap es i = Some e \<longleftrightarrow> e \<in> set es \<and> e_ID e = i"
  by (auto simp: idmap_def map_of_eq_Some_iff comp_def)

lemma idmap_cong_set:
  assumes "distinct (map e_ID es)" "distinct (map e_ID fs)" "set es = set fs"
  shows "idmap es = idmap fs"
  using assms by (intro ext option_ext) (simp add: idmap_distinct)

lemma idmap_puts:
  assumes "distinct (map e_ID es)"
  shows "puts es m = m ++ idmap es"
  using assms
proof (induction es arbitrary: m)
  case (Cons e es)
  have "idmap es (e_ID e) = None"
    using Cons.prems dom_idmap [of es] by auto
  then show ?case using Cons
    by (auto simp: idmap_def map_add_def fun_eq_iff split: option.splits)
qed (simp add: idmap_def)

subsection \<open>Deduplication\<close>

text \<open>The reference: keep an entry unless a later one has its ID.\<close>

fun keep_final :: "entry list \<Rightarrow> entry list" where
  "keep_final [] = []"
| "keep_final (e # es) = (if e_ID e \<in> e_ID ` set es then keep_final es else e # keep_final es)"

lemma last_index_apply:
  "last_index i es m k = (if k \<in> e_ID ` set es then last_index i es Map.empty k else m k)"
proof (induction es arbitrary: i m)
  case (Cons e es)
  show ?case
    unfolding last_index.simps Cons [of "Suc i" "m(e_ID e \<mapsto> i)"] Cons [of "Suc i" "[e_ID e \<mapsto> i]"] by auto
qed simp

lemma last_index_ge: "k \<in> e_ID ` set es \<Longrightarrow> \<exists>j \<ge> i. last_index i es m k = Some j"
proof (induction es arbitrary: i m)
  case (Cons e es)
  show ?case
  proof (cases "k \<in> e_ID ` set es")
    case True
    then show ?thesis using Cons.IH [of "Suc i"] by (auto dest: Suc_leD)
  next
    case False
    then show ?thesis using Cons.prems last_index_apply [of "Suc i" es "m(e_ID e \<mapsto> i)" k] by auto
  qed
qed simp

lemma keep_last_final:
  "(\<forall>k \<in> e_ID ` set es. m k = last_index i es Map.empty k) \<Longrightarrow> keep_last m i es = keep_final es"
proof (induction es arbitrary: i)
  case (Cons e es)
  have later: "keep_last m (Suc i) es = keep_final es"
    using Cons.prems last_index_apply [of "Suc i" es "[e_ID e \<mapsto> i]"] by (intro Cons.IH) auto
  have "m (e_ID e) = last_index (Suc i) es [e_ID e \<mapsto> i] (e_ID e)" using Cons.prems by simp
  moreover have "e_ID e \<in> e_ID ` set es \<Longrightarrow> last_index (Suc i) es [e_ID e \<mapsto> i] (e_ID e) \<noteq> Some i"
    using last_index_ge [of "e_ID e" es "Suc i" "[e_ID e \<mapsto> i]"] by (auto simp del: fun_upd_apply)
  moreover have "e_ID e \<notin> e_ID ` set es \<Longrightarrow> last_index (Suc i) es [e_ID e \<mapsto> i] (e_ID e) = Some i"
    using last_index_apply [of "Suc i" es "[e_ID e \<mapsto> i]" "e_ID e"] by auto
  ultimately show ?case using later by auto
qed simp

lemma keep_final_id: "distinct (map e_ID es) \<Longrightarrow> keep_final es = es"
  by (induction es) auto

lemma dedupe_eq: "dedupeLastWins es = keep_final es"
  by (simp add: dedupeLastWins_def keep_final_id keep_last_final)

lemma keep_final_set: "set (keep_final es) \<subseteq> set es" "e_ID ` set (keep_final es) = e_ID ` set es"
  by (induction es) auto

lemma keep_final_distinct [simp]: "distinct (map e_ID (keep_final es))"
proof (induction es)
  case (Cons e es)
  then show ?case using keep_final_set(2) [of es] by auto
qed simp

lemma idmap_keep_final: "idmap (keep_final es) = puts es Map.empty"
proof -
  have "m ++ idmap (keep_final es) = puts es m" for m
  proof (induction es arbitrary: m)
    case (Cons e es)
    have *: "idmap (keep_final es) (e_ID e) = None \<longleftrightarrow> e_ID e \<notin> e_ID ` set es"
      using dom_idmap [of "keep_final es"] keep_final_set(2) [of es] by blast
    show ?case
      using * by (auto simp: Cons [symmetric] map_add_def idmap_def fun_eq_iff split: option.splits)
  qed (simp add: idmap_def)
  from this [of Map.empty] show ?thesis by simp
qed

lemma dedupe_idmap: "idmap (dedupeLastWins es) = puts es Map.empty" "distinct (map e_ID (dedupeLastWins es))"
  by (simp_all add: dedupe_eq idmap_keep_final)

subsection \<open>Segments and the overlay\<close>

lemma by_id_dom: "dom (by_id i es m) = dom m \<union> e_ID ` set es"
  by (induction i es m rule: by_id.induct) (simp_all del: fun_upd_apply)

lemma by_id_nth:
  assumes "distinct (map e_ID es)" "j < length es"
  shows "by_id i es m (e_ID (es ! j)) = Some (of_nat (i + j))"
proof -
  have keep: "k \<notin> e_ID ` set es \<Longrightarrow> by_id i es m k = m k" for i m k es
    by (induction es arbitrary: i m) auto
  show ?thesis using assms
  proof (induction es arbitrary: i j m)
    case (Cons e es)
    then show ?case using keep [of "e_ID e" es] by (cases j) auto
  qed simp
qed

lemma in_base_idmap: "seg_inv seg \<Longrightarrow> in_base (Some seg) i \<longleftrightarrow> i \<in> dom (idmap (sg_entries seg))"
  using by_id_dom [of 0 "sg_entries seg" Map.empty] by (auto simp: in_base_def seg_inv_def dom_idmap)

lemma buildSegment_inv:
  assumes "buildSegment E l es = Inr seg" "distinct (map e_ID es)"
  shows "seg_inv seg" "sg_entries seg = es"
  using assms by (auto simp: buildSegment_def Let_def seg_inv_def split: option.splits if_splits sum.splits)

lemma buildSegment_keys:
  assumes "l_cfg l1 = l_cfg l" "l_norm l1 = l_norm l"
  shows "buildSegment E l1 es = buildSegment E l es"
  by (simp add: buildSegment_def analyzed_keys_def [abs_def] assms)

text \<open>\<open>base_ok\<close> and \<open>src_view\<close> speak about the parts a mutation works on before it is installed.\<close>

definition base_ok :: "'b segment option \<Rightarrow> bool" where
  "base_ok base \<longleftrightarrow> (case base of None \<Rightarrow> True | Some seg \<Rightarrow> seg_inv seg)"

definition src_view :: "'b segment option \<Rightarrow> (string \<times> entry) list \<Rightarrow> string set \<Rightarrow> string \<rightharpoonup> entry" where
  "src_view base src tomb = (seg_map base |` (- tomb)) ++ map_of src"

lemma in_base_dom: "base_ok base \<Longrightarrow> in_base base i \<longleftrightarrow> i \<in> dom (seg_map base)"
  using in_base_idmap [of "the base" i]
  by (auto simp: base_ok_def seg_map_def in_base_def split: option.splits)

lemma src_ok_Nil [simp]: "src_ok []"
  by (simp add: src_ok_def)

lemma src_ok_ids: "src_ok src \<Longrightarrow> map e_ID (map snd src) = map fst src"
  by (auto simp: src_ok_def)

lemma sorted_by_id_distinct: "distinct (map e_ID (sorted_by_id es)) = distinct (map e_ID es)"
  by (rule mset_eq_imp_distinct_iff) (simp add: sorted_by_id_def)

lemma src_ok_idmap:
  assumes "src_ok src"
  shows "idmap (sorted_by_id (map snd src)) = map_of src" "distinct (map e_ID (sorted_by_id (map snd src)))"
proof -
  have d: "distinct (map e_ID (map snd src))"
    using assms src_ok_ids [OF assms] unfolding src_ok_def by metis
  then show ds: "distinct (map e_ID (sorted_by_id (map snd src)))"
    by (simp only: sorted_by_id_distinct)
  have "idmap (sorted_by_id (map snd src)) = idmap (map snd src)"
    by (rule idmap_cong_set [OF ds d]) (simp add: sorted_by_id_def)
  also have "map (\<lambda>e. (e_ID e, e)) (map snd src) = src"
    using assms by (auto simp: src_ok_def intro!: map_idI)
  then have "idmap (map snd src) = map_of src" by (simp add: idmap_def)
  finally show "idmap (sorted_by_id (map snd src)) = map_of src" .
qed

lemma list_inv_parts:
  assumes "list_inv l"
  shows "base_ok (sn_base (l_snap l))" "src_ok (l_overlaySrc l)"
    "tomb_ok (sn_base (l_snap l)) (l_overlaySrc l) (sn_tombstones (l_snap l))"
    "view l = src_view (sn_base (l_snap l)) (l_overlaySrc l) (sn_tombstones (l_snap l))"
  using assms src_ok_idmap(1) [of "l_overlaySrc l"]
  by (auto simp: list_inv_def base_ok_def view_def snap_view_def src_view_def seg_map_def split: option.splits)

lemma list_invI:
  assumes "base_ok (sn_base (l_snap l))" "src_ok (l_overlaySrc l)"
    "tomb_ok (sn_base (l_snap l)) (l_overlaySrc l) (sn_tombstones (l_snap l))"
    "case sn_overlay (l_snap l) of None \<Rightarrow> l_overlaySrc l = []
      | Some ov \<Rightarrow> seg_inv ov \<and> sg_entries ov = sorted_by_id (map snd (l_overlaySrc l))"
  shows "list_inv l"
  using assms by (simp add: list_inv_def base_ok_def)

lemma src_put:
  fixes e :: entry
  assumes "base_ok base" "src_ok src" "tomb_ok base src tomb"
  defines "tomb1 \<equiv> if in_base base (e_ID e) then insert (e_ID e) tomb else tomb"
  shows "src_ok (AList.update (e_ID e) e src)" "tomb_ok base (AList.update (e_ID e) e src) tomb1"
    "src_view base (AList.update (e_ID e) e src) tomb1 = (src_view base src tomb)(e_ID e \<mapsto> e)"
proof -
  have "set (AList.update k v xs) \<subseteq> insert (k, v) (set xs)" for k v and xs :: "(string \<times> entry) list"
    by (induction xs) auto
  then show "src_ok (AList.update (e_ID e) e src)"
    using assms(2) unfolding src_ok_def by (fastforce intro: distinct_update)
  show "tomb_ok base (AList.update (e_ID e) e src) tomb1"
    using assms(3) by (auto simp: tomb_ok_def tomb1_def update_conv' split: if_splits)
  show "src_view base (AList.update (e_ID e) e src) tomb1 = (src_view base src tomb)(e_ID e \<mapsto> e)"
    by (auto simp: src_view_def tomb1_def update_conv' fun_eq_iff map_add_def restrict_map_def split: option.splits)
qed

lemma src_drop:
  fixes i :: string
  assumes "base_ok base" "src_ok src" "tomb_ok base src tomb"
  defines "tomb1 \<equiv> if in_base base i then insert i tomb else tomb"
  shows "src_ok (AList.delete i src)" "tomb_ok base (AList.delete i src) tomb1"
    "src_view base (AList.delete i src) tomb1 = (src_view base src tomb)(i := None)"
proof -
  show "src_ok (AList.delete i src)"
    using assms(2) unfolding src_ok_def by (auto simp: AList.delete_eq distinct_map_filter)
  show "tomb_ok base (AList.delete i src) tomb1"
    using assms(3) by (auto simp: tomb_ok_def tomb1_def delete_conv' split: if_splits)
  show "src_view base (AList.delete i src) tomb1 = (src_view base src tomb)(i := None)"
    using assms(1) by (auto simp: src_view_def tomb1_def delete_conv' fun_eq_iff map_add_def restrict_map_def
        in_base_dom split: option.splits)
qed

subsection \<open>Each operation on the view\<close>

lemma sorted_by_id_empty: "sorted_by_id (map snd src) = [] \<longleftrightarrow> src = []"
  by (metis Nil_is_map_conv list.set(1) set_empty set_sort sorted_by_id_def)

lemma same_view:
  assumes "l_snap l1 = l_snap l" "l_overlaySrc l1 = l_overlaySrc l"
  shows "list_inv l1 = list_inv l" "view l1 = view l"
  unfolding list_inv_def view_def assms by (rule refl)+

lemma prepareOverlay_Inr:
  assumes "prepareOverlay E l mut = Inr b"
    and "mut (l_overlaySrc l) (sn_tombstones (l_snap l)) (sn_base (l_snap l)) = (src, tomb)"
  shows "ob_src b = src" "ob_tomb b = tomb"
    "case ob_seg b of None \<Rightarrow> src = [] | Some ov \<Rightarrow> buildSegment E l (sorted_by_id (map snd src)) = Inr ov"
proof -
  have "(if src = [] then Inr \<lparr>ob_src = src, ob_tomb = tomb, ob_seg = None\<rparr>
     else case buildSegment E l (sorted_by_id (map snd src)) of Inl e \<Rightarrow> Inl e
       | Inr ov \<Rightarrow> Inr \<lparr>ob_src = src, ob_tomb = tomb, ob_seg = Some ov\<rparr>) = Inr b"
    using assms(1) unfolding prepareOverlay_def Let_def assms(2) split_conv sorted_by_id_empty .
  then show "ob_src b = src" "ob_tomb b = tomb"
    "case ob_seg b of None \<Rightarrow> src = [] | Some ov \<Rightarrow> buildSegment E l (sorted_by_id (map snd src)) = Inr ov"
    by (cases "src = []"; cases "buildSegment E l (sorted_by_id (map snd src))"; fastforce)+
qed

lemma prepare_commit:
  assumes inv: "list_inv l" and prep: "prepareOverlay E l mut = Inr b"
    and m: "mut (l_overlaySrc l) (sn_tombstones (l_snap l)) (sn_base (l_snap l)) = (src, tomb)"
    and src: "src_ok src" and tomb: "tomb_ok (sn_base (l_snap l)) src tomb"
  shows "list_inv (commitOverlayAt b j l)" "view (commitOverlayAt b j l) = src_view (sn_base (l_snap l)) src tomb"
proof -
  note b = prepareOverlay_Inr [OF prep m]
  have ov: "case ob_seg b of None \<Rightarrow> src = [] | Some ov \<Rightarrow> seg_inv ov \<and> sg_entries ov = sorted_by_id (map snd src)"
    using b(3) buildSegment_inv src_ok_idmap(2) [OF src] by (auto split: option.splits)
  show "list_inv (commitOverlayAt b j l)"
    using list_inv_parts(1) [OF inv] src tomb ov unfolding commitOverlayAt_def Let_def b
    by (intro list_invI) (simp_all cong: option.case_cong)
  from list_inv_parts(4) [OF this] show "view (commitOverlayAt b j l) = src_view (sn_base (l_snap l)) src tomb"
    by (simp add: commitOverlayAt_def Let_def b)
qed

lemma upsert_mutate_view:
  assumes "base_ok base" "src_ok src" "tomb_ok base src tomb"
  shows "\<exists>src1 tomb1. upsert_mutate es src tomb base = (src1, tomb1) \<and> src_ok src1 \<and> tomb_ok base src1 tomb1
    \<and> src_view base src1 tomb1 = puts es (src_view base src tomb)"
  using assms
proof (induction es src tomb base rule: upsert_mutate.induct)
  case (2 e es src tomb base)
  show ?case using 2(1) [OF 2(2)] src_put [OF 2(2-4), of e] by (simp del: fun_upd_apply)
qed auto

fun journal_spec :: "journal_rec list \<Rightarrow> (string \<rightharpoonup> entry) \<Rightarrow> string \<rightharpoonup> entry" where
  "journal_spec [] m = m"
| "journal_spec (JUpsert None # ops) m = journal_spec ops m"
| "journal_spec (JUpsert (Some e) # ops) m = journal_spec ops (m(e_ID e \<mapsto> e))"
| "journal_spec (JDelete i # ops) m = journal_spec ops (m(i := None))"
| "journal_spec (JOther _ # ops) m = journal_spec ops m"

lemma journal_mutate_view:
  assumes "base_ok base" "src_ok src" "tomb_ok base src tomb"
  shows "\<exists>src1 tomb1. journal_mutate ops src tomb base = (src1, tomb1) \<and> src_ok src1 \<and> tomb_ok base src1 tomb1
    \<and> src_view base src1 tomb1 = journal_spec ops (src_view base src tomb)"
  using assms
proof (induction ops src tomb base rule: journal_mutate.induct)
  case (3 e ops src tomb base)
  show ?case using 3(1) [OF 3(2)] src_put [OF 3(2-4), of e] by (simp del: fun_upd_apply)
next
  case (4 i ops src tomb base)
  show ?case using 4(1) [OF 4(2)] src_drop [OF 4(2-4), of i] by (simp del: fun_upd_apply)
qed auto

lemma delete_mutate_view:
  assumes "base_ok base" "src_ok src" "tomb_ok base src tomb"
  shows "\<exists>src1 tomb1. delete_mutate i src tomb base = (src1, tomb1) \<and> src_ok src1 \<and> tomb_ok base src1 tomb1
    \<and> src_view base src1 tomb1 = (src_view base src tomb)(i := None)"
  using src_drop [OF assms, of i] by (simp add: delete_mutate_def del: fun_upd_apply)

lemma overlay_op_view:
  assumes inv: "list_inv l"
    and mut: "\<And>base src tomb. base_ok base \<Longrightarrow> src_ok src \<Longrightarrow> tomb_ok base src tomb \<Longrightarrow>
      \<exists>src1 tomb1. mut src tomb base = (src1, tomb1) \<and> src_ok src1 \<and> tomb_ok base src1 tomb1
        \<and> src_view base src1 tomb1 = f (src_view base src tomb)"
    and prep: "prepareOverlay E l mut = Inr b"
  shows "list_inv (commitOverlayAt b j l)" "view (commitOverlayAt b j l) = f (view l)"
proof -
  obtain src1 tomb1 where
    m: "mut (l_overlaySrc l) (sn_tombstones (l_snap l)) (sn_base (l_snap l)) = (src1, tomb1)" and
    ok: "src_ok src1" "tomb_ok (sn_base (l_snap l)) src1 tomb1" and
    v: "src_view (sn_base (l_snap l)) src1 tomb1 = f (view l)"
    using mut [OF list_inv_parts(1-3) [OF inv]] list_inv_parts(4) [OF inv] by auto
  show "list_inv (commitOverlayAt b j l)" "view (commitOverlayAt b j l) = f (view l)"
    using prepare_commit [OF inv prep m ok] v by simp_all
qed

lemma guarded_cases:
  assumes "guarded opname f l = (r, l1)"
  obtains "l_readOnly l" "r = Some (ErrReadOnly opname)" "l1 = l\<lparr>l_roRefusals := map_option Suc (l_roRefusals l)\<rparr>"
    "view l1 = view l" "list_inv l1 = list_inv l"
  | "\<not> l_readOnly l" "f l = (r, l1)"
proof (cases "l_readOnly l")
  case True
  then have "r = Some (ErrReadOnly opname)" "l1 = l\<lparr>l_roRefusals := map_option Suc (l_roRefusals l)\<rparr>"
    using assms by (simp_all add: guarded_def refuseReadOnly_def ignoreReadOnly_def)
  moreover from this(2) have "list_inv l1 = list_inv l" "view l1 = view l" using same_view [of l1 l] by simp_all
  ultimately show ?thesis using True that(1) by blast
next
  case False
  then have "f l = (r, l1)"
    using assms by (simp add: guarded_def refuseReadOnly_def ignoreReadOnly_def)
  with False show ?thesis by (rule that(2))
qed

lemma base_fresh:
  assumes "seg_inv seg"
    and "l_snap l1 = \<lparr>sn_base = Some seg, sn_overlay = None, sn_tombstones = {}, sn_version = v\<rparr>" "l_overlaySrc l1 = []"
  shows "list_inv l1" "view l1 = idmap (sg_entries seg)"
  using assms by (auto simp: list_inv_def src_ok_def tomb_ok_def view_def snap_view_def seg_map_def)

lemma installBase_view:
  assumes "seg_inv seg"
  shows "list_inv (installBase seg l)" "view (installBase seg l) = idmap (sg_entries seg)"
  by (rule base_fresh [OF assms]; simp add: installBase_def Let_def)+

lemma prebuilt_inv:
  assumes "prebuilt_segment es ng ex bi n = Inr seg" "distinct (map e_ID es)"
  shows "seg_inv seg" "sg_entries seg = es" "sg_ng seg = ng" "sg_ex seg = ex"
  using assms
  by (auto simp: prebuilt_segment_def applyBuildInfo_def seg_inv_def Let_def split: option.splits if_splits)

lemma prebuilt_install:
  assumes "prebuilt_segment (dedupeLastWins es) ng ex bi n = Inr seg"
  shows "list_inv (installBase seg l) \<and> view (installBase seg l) = puts es Map.empty"
proof -
  have "seg_inv seg" "sg_entries seg = dedupeLastWins es"
    using prebuilt_inv [OF assms dedupe_idmap(2)] by blast+
  then show ?thesis using installBase_view [of seg l] by (simp add: dedupe_idmap)
qed

subsection \<open>Live entries\<close>

lemma live_view:
  assumes "list_inv l"
  shows "distinct (map e_ID (liveEntries l))" "sorted (map e_ID (liveEntries l))" "idmap (liveEntries l) = view l"
proof -
  let ?base = "case sn_base (l_snap l) of None \<Rightarrow> [] | Some seg \<Rightarrow> sg_entries seg"
  let ?P = "\<lambda>e. e_ID e \<notin> sn_tombstones (l_snap l) \<and> map_of (l_overlaySrc l) (e_ID e) = None"
  let ?all = "filter ?P ?base @ map snd (l_overlaySrc l)"
  have live: "liveEntries l = sorted_by_id ?all"
    by (auto simp: liveEntries_def split: option.splits)
  have db: "distinct (map e_ID ?base)"
    using assms by (auto simp: list_inv_def seg_inv_def split: option.splits)
  note src = list_inv_parts(2) [OF assms]
  have ids: "e_ID ` snd ` set (l_overlaySrc l) = dom (map_of (l_overlaySrc l))"
    using arg_cong [OF src_ok_ids [OF src], of set] by (simp add: dom_map_of_conv_image_fst image_image)
  have d: "distinct (map e_ID ?all)"
  proof -
    have "distinct (map e_ID (map snd (l_overlaySrc l)))"
      using src src_ok_ids [OF src] unfolding src_ok_def by metis
    moreover have "distinct (map e_ID (filter ?P ?base))" using db by (rule distinct_map_filter)
    moreover have "set (map e_ID (filter ?P ?base)) \<inter> set (map e_ID (map snd (l_overlaySrc l))) = {}"
      using ids by (auto simp: domIff)
    ultimately show ?thesis by (simp only: map_append distinct_append)
  qed
  show ds: "distinct (map e_ID (liveEntries l))"
    using d by (simp only: live sorted_by_id_distinct)
  show "sorted (map e_ID (liveEntries l))" by (simp add: live sorted_by_id_def)
  have "idmap (liveEntries l) = idmap ?all"
    by (rule idmap_cong_set [OF ds d]) (simp add: live sorted_by_id_def)
  also have "\<dots> = view l"
  proof (rule ext)
    fix i
    have s: "map_of (l_overlaySrc l) i = Some e \<longleftrightarrow> e \<in> snd ` set (l_overlaySrc l) \<and> e_ID e = i" for e
      using src by (force simp: src_ok_def)
    have b: "seg_map (sn_base (l_snap l)) i = Some e \<longleftrightarrow> e \<in> set ?base \<and> e_ID e = i" for e
      using idmap_distinct [OF db] by (auto simp: seg_map_def idmap_def split: option.splits)
    have "idmap ?all i = Some e \<longleftrightarrow> view l i = Some e" for e
      unfolding idmap_distinct [OF d] list_inv_parts(4) [OF assms] src_view_def map_add_Some_iff
      using s b by (auto simp: restrict_map_def split: if_splits)
    then show "idmap ?all i = view l i" by (rule option_ext)
  qed
  finally show "idmap (liveEntries l) = view l" .
qed

lemma Upsert_view:
  assumes "list_inv l" "Upsert E es l = (r, l1)"
  shows "list_inv l1" "view l1 = (if r = None then puts es (view l) else view l)"
proof -
  have "list_inv l1 \<and> view l1 = (if r = None then puts es (view l) else view l)"
    using assms(2) unfolding Upsert_def
  proof (cases rule: guarded_cases)
    case 2
    then show ?thesis
      using overlay_op_view [OF assms(1) upsert_mutate_view] assms(1)
      by (auto simp: prepareUpsert_def commitOverlay_def split: sum.splits)
  qed (use assms(1) in auto)
  then show "list_inv l1" "view l1 = (if r = None then puts es (view l) else view l)" by auto
qed

lemma Delete_view:
  assumes "list_inv l" "Delete E i l = (r, l1)"
  shows "list_inv l1" "view l1 = (if r = None then (view l)(i := None) else view l)"
proof -
  have "list_inv l1 \<and> view l1 = (if r = None then (view l)(i := None) else view l)"
    using assms(2) unfolding Delete_def
  proof (cases rule: guarded_cases)
    case 2
    then show ?thesis
      using overlay_op_view [OF assms(1) delete_mutate_view] assms(1)
      by (auto simp: prepareDelete_def commitOverlay_def simp del: fun_upd_apply split: sum.splits)
  qed (use assms(1) in auto)
  then show "list_inv l1" "view l1 = (if r = None then (view l)(i := None) else view l)" by auto
qed

lemma applyJournal_view:
  assumes "list_inv l" "applyJournal E ops j l = (r, l1)"
  shows "list_inv l1" "view l1 = (if r = None then journal_spec ops (view l) else view l)"
  using assms overlay_op_view [OF assms(1) journal_mutate_view]
  by (auto simp: applyJournal_def split: if_splits sum.splits)

lemma Replace_view:
  assumes "list_inv l" "Replace E es l = (r, l1)"
  shows "list_inv l1" "view l1 = (if r = None then puts es Map.empty else view l)"
proof -
  have "list_inv l1 \<and> view l1 = (if r = None then puts es Map.empty else view l)"
    using assms(2) unfolding Replace_def
  proof (cases rule: guarded_cases)
    case 2
    show ?thesis
    proof (cases "buildSegment E l (dedupeLastWins es)")
      case (Inr seg)
      have l1: "r = None" "l1 = installBase seg l"
        using 2(2) by (simp_all add: prepareBase_def Let_def Inr)
      show ?thesis
        using installBase_view [of seg l] buildSegment_inv [OF Inr dedupe_idmap(2)] by (simp add: l1 dedupe_idmap)
    qed (use 2(2) assms(1) in \<open>auto simp: prepareBase_def Let_def\<close>)
  qed (use assms(1) in auto)
  then show "list_inv l1" "view l1 = (if r = None then puts es Map.empty else view l)" by auto
qed

lemma Compact_view:
  assumes "list_inv l" "Compact E l = (r, l1)"
  shows "list_inv l1" "view l1 = view l"
proof -
  have "list_inv l1 \<and> view l1 = view l"
    using assms(2) unfolding Compact_def
  proof (cases rule: guarded_cases)
    case 2
    show ?thesis
    proof (cases "buildSegment E l (liveEntries l)")
      case (Inr seg)
      have s: "seg_inv seg" "sg_entries seg = liveEntries l"
        using buildSegment_inv [OF Inr live_view(1) [OF assms(1)]] by simp_all
      have l1: "l_snap l1 = \<lparr>sn_base = Some seg, sn_overlay = None, sn_tombstones = {}, sn_version = sn_version (l_snap l1)\<rparr>"
        "l_overlaySrc l1 = []"
        using 2(2) Inr by (auto simp: Let_def)
      show ?thesis using base_fresh [OF s(1) l1] by (simp add: s(2) live_view(3) [OF assms(1)])
    qed (use 2(2) assms(1) in \<open>auto simp: Let_def\<close>)
  qed (use assms(1) in auto)
  then show "list_inv l1" "view l1 = view l" by auto
qed

lemma guarded_refuses:
  "l_readOnly l \<Longrightarrow> guarded opname f l = (Some (ErrReadOnly opname), l\<lparr>l_roRefusals := map_option Suc (l_roRefusals l)\<rparr>)"
  by (simp add: guarded_def refuseReadOnly_def ignoreReadOnly_def)

lemma guarded_refused_view:
  assumes "l_readOnly l" "guarded opname f l = (r, l1)"
  shows "r \<noteq> None" "list_inv l1 = list_inv l" "view l1 = view l"
  using assms by (auto elim: guarded_cases)

lemma guarded_passes: "\<not> l_readOnly l \<Longrightarrow> guarded opname f l = f l"
  by (simp add: guarded_def refuseReadOnly_def ignoreReadOnly_def)

lemma prebuilt_no_panic: "prebuilt_segment es ng ex bi n \<noteq> Inl BuilderPanic"
  by (auto simp: prebuilt_segment_def applyBuildInfo_def Let_def split: if_splits option.splits sum.splits)

lemma ReplaceWithIndexesInfo_cases:
  assumes "\<not> l_readOnly l" "ReplaceWithIndexesInfo es ix c bi l = (r, l1)"
  shows "(\<exists>e. r = Some e \<and> e \<noteq> BuilderPanic \<and> l1 = l) \<or>
    (\<exists>ng seg. ix = Some ng \<and> prebuilt_segment (dedupeLastWins es) ix c bi (ngram_num_ords ng) = Inr seg
      \<and> unat (ngram_num_ords ng) \<le> length (dedupeLastWins es)
      \<and> (\<forall>ex. c = Some ex \<longrightarrow> unat (exact_num_ords ex) \<le> length (dedupeLastWins es))
      \<and> mc_Mode (lc_Match (l_cfg l)) = ''ngram'' \<and> (c \<noteq> None \<longleftrightarrow> mc_ExactCompanion (lc_Match (l_cfg l)))
      \<and> r = None \<and> l1 = installBase seg l)"
proof (cases ix)
  case (Some ng)
  let ?es = "dedupeLastWins es"
  show ?thesis
    using assms(2) prebuilt_no_panic [of ?es ix c bi "ngram_num_ords ng"]
    by (cases "prebuilt_segment ?es ix c bi (ngram_num_ords ng)"; cases c)
      (auto simp: ReplaceWithIndexesInfo_def guarded_passes [OF assms(1)] Some Let_def split: if_splits)
qed (use assms(2) in \<open>auto simp: ReplaceWithIndexesInfo_def guarded_passes [OF assms(1)] split: if_splits\<close>)

lemma ReplaceWithExactIndexInfo_cases:
  assumes "\<not> l_readOnly l" "ReplaceWithExactIndexInfo es ix bi l = (r, l1)"
  shows "(\<exists>e. r = Some e \<and> e \<noteq> BuilderPanic \<and> l1 = l) \<or>
    (\<exists>ex seg. ix = Some ex \<and> prebuilt_segment (dedupeLastWins es) None ix bi (exact_num_ords ex) = Inr seg
      \<and> unat (exact_num_ords ex) \<le> length (dedupeLastWins es) \<and> mc_Mode (lc_Match (l_cfg l)) = ''exact''
      \<and> r = None \<and> l1 = installBase seg l)"
proof (cases ix)
  case (Some ex)
  let ?es = "dedupeLastWins es"
  show ?thesis
    using assms(2) prebuilt_no_panic [of ?es None ix bi "exact_num_ords ex"]
    by (cases "prebuilt_segment ?es (None :: 'a ngram_index option) ix bi (exact_num_ords ex)")
      (auto simp: ReplaceWithExactIndexInfo_def guarded_passes [OF assms(1)] Some Let_def split: if_splits)
qed (use assms(2) in \<open>auto simp: ReplaceWithExactIndexInfo_def guarded_passes [OF assms(1)] split: if_splits\<close>)

lemma ReplaceWithIndexInfo_cases:
  assumes "\<not> l_readOnly l" "ReplaceWithIndexInfo E es ix bi l = (r, l1)"
  obtains e where "r = Some e" "e \<noteq> BuilderPanic" "l1 = l"
  | c where "buildCompanion E l (dedupeLastWins es) = Inr c" "mc_ExactCompanion (lc_Match (l_cfg l))"
      "ReplaceWithIndexesInfo (dedupeLastWins es) ix (Some c) bi l = (r, l1)"
  | "\<not> mc_ExactCompanion (lc_Match (l_cfg l))" "ReplaceWithIndexesInfo es ix None bi l = (r, l1)"
proof -
  have "buildCompanion E l (dedupeLastWins es) \<noteq> Inl BuilderPanic"
    by (auto simp: buildCompanion_def split: sum.splits)
  then show ?thesis
    using assms(2) that unfolding ReplaceWithIndexInfo_def guarded_passes [OF assms(1)]
    by (cases "buildCompanion E l (dedupeLastWins es)") (auto simp: Let_def split: if_splits)
qed

lemma ReplaceWithIndexesInfo_view:
  assumes "list_inv l" "ReplaceWithIndexesInfo es ix c bi l = (r, l1)"
  shows "list_inv l1" "view l1 = (if r = None then puts es Map.empty else view l)"
proof -
  have "list_inv l1 \<and> view l1 = (if r = None then puts es Map.empty else view l)"
  proof (cases "l_readOnly l")
    case False
    from ReplaceWithIndexesInfo_cases [OF this assms(2)] show ?thesis
      using assms(1) by (auto dest: prebuilt_install)
  next
    case True
    show ?thesis using guarded_refused_view [OF True assms(2) [unfolded ReplaceWithIndexesInfo_def]] assms(1) by auto
  qed
  then show "list_inv l1" "view l1 = (if r = None then puts es Map.empty else view l)" by auto
qed

lemma ReplaceWithExactIndexInfo_view:
  assumes "list_inv l" "ReplaceWithExactIndexInfo es ix bi l = (r, l1)"
  shows "list_inv l1" "view l1 = (if r = None then puts es Map.empty else view l)"
proof -
  have "list_inv l1 \<and> view l1 = (if r = None then puts es Map.empty else view l)"
  proof (cases "l_readOnly l")
    case False
    from ReplaceWithExactIndexInfo_cases [OF this assms(2)] show ?thesis
      using assms(1) by (auto dest: prebuilt_install)
  next
    case True
    show ?thesis using guarded_refused_view [OF True assms(2) [unfolded ReplaceWithExactIndexInfo_def]] assms(1) by auto
  qed
  then show "list_inv l1" "view l1 = (if r = None then puts es Map.empty else view l)" by auto
qed

lemma puts_dedupe: "puts (dedupeLastWins es) Map.empty = puts es Map.empty"
  by (simp add: idmap_puts [OF dedupe_idmap(2)] dedupe_idmap(1))

lemma ReplaceWithIndexInfo_view:
  assumes "list_inv l" "ReplaceWithIndexInfo E es ix bi l = (r, l1)"
  shows "list_inv l1" "view l1 = (if r = None then puts es Map.empty else view l)"
proof -
  have "list_inv l1 \<and> view l1 = (if r = None then puts es Map.empty else view l)"
  proof (cases "l_readOnly l")
    case False
    from this assms(2) show ?thesis
      by (cases rule: ReplaceWithIndexInfo_cases)
        (use assms(1) ReplaceWithIndexesInfo_view [OF assms(1)] puts_dedupe in auto)
  next
    case True
    show ?thesis using guarded_refused_view [OF True assms(2) [unfolded ReplaceWithIndexInfo_def]] assms(1) by auto
  qed
  then show "list_inv l1" "view l1 = (if r = None then puts es Map.empty else view l)" by auto
qed

subsection \<open>Runs of operations\<close>

datatype 'b list_op =
    OpReplace "entry list"
  | OpReplaceWithIndex "entry list" "'b ngram_index option" "index_build_info option"
  | OpReplaceWithIndexes "entry list" "'b ngram_index option" "exact_index option" "index_build_info option"
  | OpReplaceWithExactIndex "entry list" "exact_index option" "index_build_info option"
  | OpUpsert "entry list"
  | OpDelete string
  | OpCompact
  | OpJournal "journal_rec list" int
  | OpSetBaseID string

fun apply_op :: "'b env \<Rightarrow> 'b list_op \<Rightarrow> 'b klist \<Rightarrow> list_error option \<times> 'b klist" where
  "apply_op E (OpReplace es) l = Replace E es l"
| "apply_op E (OpReplaceWithIndex es ix bi) l = ReplaceWithIndexInfo E es ix bi l"
| "apply_op E (OpReplaceWithIndexes es ix c bi) l = ReplaceWithIndexesInfo es ix c bi l"
| "apply_op E (OpReplaceWithExactIndex es ix bi) l = ReplaceWithExactIndexInfo es ix bi l"
| "apply_op E (OpUpsert es) l = Upsert E es l"
| "apply_op E (OpDelete i) l = Delete E i l"
| "apply_op E OpCompact l = Compact E l"
| "apply_op E (OpJournal ops j) l = applyJournal E ops j l"
| "apply_op E (OpSetBaseID b) l = (None, SetBaseID b l)"

fun map_op :: "'b list_op \<Rightarrow> (string \<rightharpoonup> entry) \<Rightarrow> string \<rightharpoonup> entry" where
  "map_op (OpReplace es) m = puts es Map.empty"
| "map_op (OpReplaceWithIndex es ix bi) m = puts es Map.empty"
| "map_op (OpReplaceWithIndexes es ix c bi) m = puts es Map.empty"
| "map_op (OpReplaceWithExactIndex es ix bi) m = puts es Map.empty"
| "map_op (OpUpsert es) m = puts es m"
| "map_op (OpDelete i) m = m(i := None)"
| "map_op OpCompact m = m"
| "map_op (OpJournal ops j) m = journal_spec ops m"
| "map_op (OpSetBaseID b) m = m"

lemmas op_views = Replace_view ReplaceWithIndexInfo_view ReplaceWithIndexesInfo_view ReplaceWithExactIndexInfo_view
  Upsert_view Delete_view Compact_view applyJournal_view

lemma SetBaseID_view: "list_inv (SetBaseID b l) = list_inv l" "view (SetBaseID b l) = view l"
  using same_view [of "SetBaseID b l" l] by (simp_all add: SetBaseID_def ignoreReadOnly_def)

lemma apply_op_view:
  assumes "list_inv l" "apply_op E x l = (r, l1)"
  shows "list_inv l1 \<and> view l1 = (if r = None then map_op x (view l) else view l)"
  using assms op_views [OF assms(1)] SetBaseID_view [of _ l] by (cases x) (auto simp del: fun_upd_apply)

interpretation list_view: refined_by list_inv view "apply_op E" map_op for E :: "'b env"
proof unfold_locales
  fix s :: "'b klist" and x :: "'b list_op"
  assume s: "list_inv s"
  show "list_inv (snd (apply_op E x s))"
    using apply_op_view [OF s, of E x "fst (apply_op E x s)" "snd (apply_op E x s)"] by simp
  show "view s1 = map_op x (view s)" if "apply_op E x s = (None, s1)" for s1
    using apply_op_view [OF s that] by simp
  show "view s1 = view s" if "apply_op E x s = (Some e, s1)" for e s1
    using apply_op_view [OF s that] by simp
qed

lemma new_list_inv:
  assumes "new_list T sha marsh name cfg = Inr l"
  shows "list_inv l" "view l = Map.empty" "\<not> l_readOnly l"
  using assms by (auto simp: new_list_def list_inv_def view_def snap_view_def seg_map_def src_ok_def tomb_ok_def
      split: sum.splits)

subsection \<open>Counters\<close>

lemma masked_ids:
  assumes "seg_inv seg"
  shows "{i \<in> T. sg_byID seg i \<noteq> None} = e_ID ` set (filter (\<lambda>e. e_ID e \<in> T) (sg_entries seg))"
  using by_id_dom [of 0 "sg_entries seg" Map.empty] assms by (auto simp: seg_inv_def)

lemma masked_card:
  assumes "seg_inv seg"
  shows "card {i \<in> T. sg_byID seg i \<noteq> None} = length (filter (\<lambda>e. e_ID e \<in> T) (sg_entries seg))"
proof -
  have "distinct (map e_ID (filter (\<lambda>e. e_ID e \<in> T) (sg_entries seg)))"
    using assms by (simp add: seg_inv_def distinct_map_filter)
  from distinct_card [OF this] show ?thesis unfolding masked_ids [OF assms] by simp
qed

lemma masked_sum:
  fixes g :: "entry \<Rightarrow> int"
  assumes inv: "seg_inv seg" and small: "length (sg_entries seg) \<le> 2 ^ 32"
  shows "(\<Sum>i \<in> {i \<in> T. sg_byID seg i \<noteq> None}. g (sg_entries seg ! unat (the (sg_byID seg i)))) =
    (\<Sum>e\<leftarrow>filter (\<lambda>e. e_ID e \<in> T) (sg_entries seg). g e)"
proof -
  let ?F = "filter (\<lambda>e. e_ID e \<in> T) (sg_entries seg)"
  have d: "distinct (map e_ID (sg_entries seg))" using inv by (simp add: seg_inv_def)
  then have i: "inj_on e_ID (set ?F)" and dF: "distinct ?F" by (auto simp: distinct_map inj_on_def)
  have at: "sg_entries seg ! unat (the (sg_byID seg (e_ID e))) = e" if "e \<in> set ?F" for e
  proof -
    from that obtain j where j: "j < length (sg_entries seg)" "e = sg_entries seg ! j"
      by (auto simp: in_set_conv_nth)
    then show ?thesis
      using by_id_nth [OF d j(1), of 0 Map.empty] inv small by (simp add: seg_inv_def unat_of_nat)
  qed
  have "(\<Sum>i \<in> e_ID ` set ?F. g (sg_entries seg ! unat (the (sg_byID seg i)))) = (\<Sum>e \<in> set ?F. g e)"
    unfolding sum.reindex [OF i] comp_def by (rule sum.cong) (simp_all only: at)
  also have "\<dots> = (\<Sum>e\<leftarrow>?F. g e)" using sum_list_distinct_conv_sum_set [OF dF, of g] by simp
  finally show ?thesis by (simp only: masked_ids [OF inv])
qed

lemma sum_list_split:
  fixes g :: "'a \<Rightarrow> int"
  shows "(\<Sum>x\<leftarrow>filter (\<lambda>x. \<not> P x) xs. g x) = (\<Sum>x\<leftarrow>xs. g x) - (\<Sum>x\<leftarrow>filter P xs. g x)"
  by (induction xs) auto

lemma live_sum:
  fixes g :: "entry \<Rightarrow> int"
  assumes "list_inv l"
  shows "(\<Sum>e\<leftarrow>liveEntries l. g e) =
    (case sn_base (l_snap l) of None \<Rightarrow> 0
     | Some seg \<Rightarrow> (\<Sum>e\<leftarrow>sg_entries seg. g e) - (\<Sum>e\<leftarrow>filter (\<lambda>e. e_ID e \<in> sn_tombstones (l_snap l)) (sg_entries seg). g e))
    + (case sn_overlay (l_snap l) of None \<Rightarrow> 0 | Some ov \<Rightarrow> (\<Sum>e\<leftarrow>sg_entries ov. g e))"
proof -
  have perm: "(\<Sum>e\<leftarrow>sorted_by_id es. g e) = (\<Sum>e\<leftarrow>es. g e)" for es
    by (metis mset_map mset_sort sorted_by_id_def sum_mset_sum_list)
  have ov: "(\<Sum>e\<leftarrow>map snd (l_overlaySrc l). g e) =
      (case sn_overlay (l_snap l) of None \<Rightarrow> 0 | Some ov \<Rightarrow> (\<Sum>e\<leftarrow>sg_entries ov. g e))"
    using assms perm by (auto simp: list_inv_def split: option.splits)
  have live: "e_ID e \<notin> sn_tombstones (l_snap l) \<and> map_of (l_overlaySrc l) (e_ID e) = None
      \<longleftrightarrow> e_ID e \<notin> sn_tombstones (l_snap l)" if "sn_base (l_snap l) = Some seg" "e \<in> set (sg_entries seg)" for seg e
  proof -
    have "in_base (Some seg) (e_ID e)"
      using that assms by (auto simp: in_base_idmap dom_idmap list_inv_def)
    then show ?thesis using list_inv_parts(3) [OF assms] that(1) by (auto simp: tomb_ok_def)
  qed
  show ?thesis
    using live unfolding liveEntries_def perm sum_list_append map_append ov
    by (auto simp: sum_list_split split: option.splits cong: filter_cong)
qed

lemma status_counts:
  assumes "list_inv l"
  shows "st_Entries (Status l) = int (length (liveEntries l))"
proof -
  have "int (length (liveEntries l)) = (\<Sum>e\<leftarrow>liveEntries l. 1)" by (simp add: sum_list_triv)
  then show ?thesis
    using assms masked_card [of _ "sn_tombstones (l_snap l)"] unfolding live_sum [OF assms]
    by (auto simp: Status_def Let_def list_inv_def sum_list_triv split: option.splits)
qed

lemma key_count:
  assumes "list_inv l" "\<And>seg. sn_base (l_snap l) = Some seg \<Longrightarrow> length (sg_entries seg) \<le> 2 ^ 32"
  shows "KeyCount l = (\<Sum>e\<leftarrow>liveEntries l. int (length (e_Keys e)))"
proof -
  have tk: "sg_totalKeys seg = (\<Sum>e\<leftarrow>sg_entries seg. int (length (e_Keys e)))" if "seg_inv seg" for seg :: "'a segment"
    using that by (simp add: seg_inv_def)
  have ov: "seg_inv ov" if "sn_overlay (l_snap l) = Some ov" for ov
    using assms(1) that by (simp add: list_inv_def)
  show ?thesis
  proof (cases "sn_base (l_snap l)")
    case None
    then show ?thesis unfolding live_sum [OF assms(1)] using tk ov by (simp add: KeyCount_def split: option.splits)
  next
    case (Some seg)
    then have inv: "seg_inv seg" using assms(1) by (simp add: list_inv_def)
    show ?thesis
      using masked_sum [OF inv assms(2) [OF Some], of "\<lambda>e. int (length (e_Keys e))" "sn_tombstones (l_snap l)"]
        tk [OF inv] tk ov unfolding live_sum [OF assms(1)]
      by (simp add: KeyCount_def Some split: option.splits)
  qed
qed

subsection \<open>Errors and refusals\<close>

lemma guarded_error:
  assumes "guarded opname f l = (Some e, l1)" "\<And>e l1. f l = (Some e, l1) \<Longrightarrow> l1 = l"
  shows "l1 = l \<or> l_readOnly l \<and> e = ErrReadOnly opname \<and> l1 = l\<lparr>l_roRefusals := map_option Suc (l_roRefusals l)\<rparr>"
  using assms(1) by (cases rule: guarded_cases) (use assms(2) in auto)

lemmas op_defs = Replace_def ReplaceWithIndexInfo_def ReplaceWithIndexesInfo_def ReplaceWithExactIndexInfo_def
  Upsert_def Delete_def Compact_def

lemma op_error_writable:
  assumes "\<not> l_readOnly l" "apply_op E x l = (Some e, l1)"
  shows "l1 = l"
proof (cases x)
  case (OpReplaceWithIndex es ix bi)
  with assms(2) have "ReplaceWithIndexInfo E es ix bi l = (Some e, l1)" by simp
  with assms(1) show ?thesis
    by (cases rule: ReplaceWithIndexInfo_cases) (auto dest: ReplaceWithIndexesInfo_cases [OF assms(1)])
next
  case (OpReplaceWithIndexes es ix c bi)
  then show ?thesis using assms(2) ReplaceWithIndexesInfo_cases [OF assms(1), of es ix c bi] by fastforce
next
  case (OpReplaceWithExactIndex es ix bi)
  then show ?thesis using assms(2) ReplaceWithExactIndexInfo_cases [OF assms(1), of es ix bi] by fastforce
qed (use assms in \<open>simp_all add: Replace_def Upsert_def Delete_def Compact_def guarded_passes applyJournal_def Let_def
    split: if_splits sum.splits prod.splits\<close>)

lemma op_read_only:
  assumes "l_readOnly l" "\<And>ops j. x \<noteq> OpJournal ops j"
  shows "snd (apply_op E x l) = l\<lparr>l_roRefusals := map_option Suc (l_roRefusals l)\<rparr>"
    "(\<And>b. x \<noteq> OpSetBaseID b) \<Longrightarrow> \<exists>opname. fst (apply_op E x l) = Some (ErrReadOnly opname)"
proof -
  have "snd (apply_op E x l) = l\<lparr>l_roRefusals := map_option Suc (l_roRefusals l)\<rparr>
      \<and> ((\<exists>b. x = OpSetBaseID b) \<or> (\<exists>opname. fst (apply_op E x l) = Some (ErrReadOnly opname)))"
    by (cases x; simp only: apply_op.simps op_defs guarded_refuses [OF assms(1)] fst_conv snd_conv; (use assms(2) in fastforce)?)
      (simp_all add: SetBaseID_def ignoreReadOnly_def assms(1))
  then show "snd (apply_op E x l) = l\<lparr>l_roRefusals := map_option Suc (l_roRefusals l)\<rparr>"
    "(\<And>b. x \<noteq> OpSetBaseID b) \<Longrightarrow> \<exists>opname. fst (apply_op E x l) = Some (ErrReadOnly opname)" by blast+
qed

lemma prepareOverlay_no_panic: "grams_ok l \<Longrightarrow> prepareOverlay E l mut \<noteq> Inl BuilderPanic"
  using buildSegment_no_panic [of l E]
  by (auto simp: prepareOverlay_def Let_def split: prod.splits if_splits sum.splits)

lemma cfg_kept [simp]:
  "l_cfg (installBase seg l) = l_cfg l" "l_cfg (commitOverlayAt b j l) = l_cfg l"
  by (simp_all add: installBase_def commitOverlayAt_def Let_def)

text \<open>How an operation can end: refused or failed with the list as it was, or with a state installed.\<close>

lemma apply_op_ends:
  assumes "grams_ok l" "apply_op E x l = (r, l1)"
  shows "r \<noteq> Some BuilderPanic \<and> l_cfg l1 = l_cfg l"
proof (cases "l_readOnly l \<and> (\<forall>ops j. x \<noteq> OpJournal ops j)")
  case True
  show ?thesis
  proof (cases "\<exists>b. x = OpSetBaseID b")
    case False
    then show ?thesis using op_read_only [of l x E] True assms(2) by auto
  qed (use assms(2) in \<open>auto simp: SetBaseID_def ignoreReadOnly_def\<close>)
next
  case False
  note np = buildSegment_no_panic [OF assms(1), of E] prepareOverlay_no_panic [OF assms(1), of E]
  show ?thesis
  proof (cases "l_readOnly l")
    case True
    with False obtain ops j where "x = OpJournal ops j" by auto
    then show ?thesis using assms(2) np by (auto simp: applyJournal_def split: if_splits sum.splits)
  next
    case w: False
    show ?thesis
    proof (cases x)
      case (OpReplace es)
      then show ?thesis using assms(2) np w
        by (auto simp: Replace_def guarded_passes prepareBase_def Let_def split: sum.splits)
    next
      case (OpReplaceWithIndex es ix bi)
      with assms(2) have "ReplaceWithIndexInfo E es ix bi l = (r, l1)" by simp
      with w show ?thesis
        by (cases rule: ReplaceWithIndexInfo_cases) (auto dest: ReplaceWithIndexesInfo_cases [OF w])
    next
      case (OpReplaceWithIndexes es ix c bi)
      then show ?thesis using assms(2) ReplaceWithIndexesInfo_cases [OF w, of es ix c bi r l1] by auto
    next
      case (OpReplaceWithExactIndex es ix bi)
      then show ?thesis using assms(2) ReplaceWithExactIndexInfo_cases [OF w, of es ix bi r l1] by auto
    next
      case (OpSetBaseID b)
      then show ?thesis using assms(2) by (auto simp: SetBaseID_def ignoreReadOnly_def)
    qed (use assms(2) np w in \<open>auto simp: Upsert_def Delete_def Compact_def guarded_passes applyJournal_def commitOverlay_def
        prepareUpsert_def prepareDelete_def Let_def split: if_splits sum.splits\<close>)
  qed
qed

lemma run_no_panic:
  assumes "grams_ok l" "run_ops (apply_op E) xs l = (tr, l1)"
  shows "(\<forall>(x, r) \<in> set tr. r \<noteq> Some BuilderPanic) \<and> grams_ok l1"
  using assms
proof (induction xs arbitrary: l tr)
  case (Cons x xs)
  obtain r l2 where x: "apply_op E x l = (r, l2)" by force
  have ends: "r \<noteq> Some BuilderPanic" "grams_ok l2"
    using apply_op_ends [OF Cons.prems(1) x] Cons.prems(1) by (auto simp: grams_ok_def)
  obtain tr1 where "run_ops (apply_op E) xs l2 = (tr1, l1)" "tr = (x, r) # tr1"
    using Cons.prems(2) x by (auto split: prod.splits)
  then show ?case using Cons.IH [OF ends(2)] ends(1) by auto
qed simp

lemmas run_grams = run_no_panic [THEN conjunct2]

lemma new_list_grams:
  assumes "new_list T sha marsh name cfg = Inr l"
  shows "grams_ok l"
proof -
  obtain cfg' an where r: "resolve_config cfg = Inr (cfg', an)" and l: "l_cfg l = cfg'"
    using assms by (auto simp: new_list_def split: sum.splits)
  show ?thesis
    using config_resolved_ok [OF r] by (auto simp: config_ok_def match_ok_def grams_ok_def l)
qed

lemma two_phase_compact:
  assumes "list_inv l" "\<not> l_readOnly l" "PrepareCompact E l = (Inr b, l1)"
  shows "l1 = l" "list_inv (CommitCompact b bid l)" "view (CommitCompact b bid l) = view l"
    "liveEntries (CommitCompact b bid l) = liveEntries l"
proof -
  have s: "buildSegment E l (liveEntries l) = Inr (cb_seg b)" and l1: "l1 = l"
    using assms(2,3) by (auto simp: PrepareCompact_def refuseReadOnly_def ignoreReadOnly_def Let_def split: sum.splits)
  note seg = buildSegment_inv [OF s live_view(1) [OF assms(1)]]
  let ?l = "CommitCompact b bid l"
  have snap: "l_snap ?l = \<lparr>sn_base = Some (cb_seg b), sn_overlay = None, sn_tombstones = {}, sn_version = sn_version (l_snap ?l)\<rparr>"
    "l_overlaySrc ?l = []"
    using assms(2) by (simp_all add: CommitCompact_def ignoreReadOnly_def)
  from base_fresh [OF seg(1) snap] show i: "list_inv ?l" and v: "view ?l = view l"
    by (simp_all add: seg(2) live_view(3) [OF assms(1)])
  have sb: "sn_base (l_snap ?l) = Some (cb_seg b)" "sn_tombstones (l_snap ?l) = {}"
    by (subst snap(1), simp)+
  have "liveEntries ?l = sorted_by_id (liveEntries l)"
    unfolding liveEntries_def [of ?l] sb snap(2) by (simp add: seg(2))
  then show "liveEntries ?l = liveEntries l"
    using live_view(2) [OF assms(1)] by (simp add: sorted_by_id_def sort_key_id_if_sorted)
  show "l1 = l" by (rule l1)
qed

subsection \<open>When mutations succeed\<close>

definition weigh :: "(entry \<Rightarrow> nat) \<Rightarrow> entry list \<Rightarrow> nat" where
  "weigh w es = (\<Sum>e\<leftarrow>es. w e)"

lemma weigh_simps [simp]:
  "weigh w [] = 0" "weigh w (e # es) = w e + weigh w es" "weigh w (es @ fs) = weigh w es + weigh w fs"
  by (simp_all add: weigh_def)

lemma weigh_sorted [simp]: "weigh w (sorted_by_id es) = weigh w es"
  unfolding weigh_def sorted_by_id_def by (metis mset_map mset_sort sum_mset_sum_list)

lemma weigh_update: "weigh w (map snd (AList.update k e src)) \<le> weigh w (map snd src) + w e"
  by (induction src) auto

lemma weigh_delete: "weigh w (map snd (AList.delete k src)) \<le> weigh w (map snd src)"
  by (induction src) auto

lemma weigh_upsert: "weigh w (map snd (fst (upsert_mutate es src tomb base))) \<le> weigh w (map snd src) + weigh w es"
proof (induction es src tomb base rule: upsert_mutate.induct)
  case (2 e es src tomb base)
  then show ?case using weigh_update [of w "e_ID e" e src] by simp
qed simp

lemma weigh_keep_final: "weigh w (keep_final es) \<le> weigh w es"
  by (induction es) auto

lemma weigh_overlay: "weigh w (map snd (l_overlaySrc l)) \<le> weigh w (liveEntries l)"
  by (simp add: liveEntries_def split: option.splits)

lemma weigh_length: "weigh (\<lambda>_. 1) es = length es" "weigh (\<lambda>e. length (e_Keys e)) es = raw_keys es"
  by (simp_all add: weigh_def raw_keys_def sum_list_triv)

lemma build_weighed:
  assumes "env_ok E" "grams_ok l" "\<And>w. weigh w es \<le> weigh w fs + weigh w gs"
    and "length fs + length gs < 2 ^ 32" "raw_keys fs + raw_keys gs \<le> maxRun"
  shows "\<exists>seg. buildSegment E l es = Inr seg"
  using assms(3) [of "\<lambda>_. 1"] assms(3) [of "\<lambda>e. length (e_Keys e)"] assms(4,5) unfolding weigh_length
  by (intro buildSegment_succeeds [OF assms(1,2)]) auto

lemma overlay_weighed:
  assumes "env_ok E" "grams_ok l"
    and "\<And>w. weigh w (map snd (fst (mut (l_overlaySrc l) (sn_tombstones (l_snap l)) (sn_base (l_snap l))))) \<le> weigh w fs + weigh w gs"
    and "length fs + length gs < 2 ^ 32" "raw_keys fs + raw_keys gs \<le> maxRun"
  shows "\<exists>b. prepareOverlay E l mut = Inr b"
proof -
  obtain src tomb where m: "mut (l_overlaySrc l) (sn_tombstones (l_snap l)) (sn_base (l_snap l)) = (src, tomb)" by force
  have "\<exists>seg. buildSegment E l (sorted_by_id (map snd src)) = Inr seg"
    by (rule build_weighed [OF assms(1,2) _ assms(4,5)]) (use assms(3) m in simp)
  then show ?thesis unfolding prepareOverlay_def Let_def m by auto
qed

lemma ops_succeed:
  assumes "env_ok E" "grams_ok l" "\<not> l_readOnly l"
    and "length (liveEntries l) + length es < 2 ^ 32" "raw_keys (liveEntries l) + raw_keys es \<le> maxRun"
  shows "fst (Upsert E es l) = None" "fst (Delete E i l) = None" "fst (Compact E l) = None" "fst (Replace E es l) = None"
proof -
  note bw = build_weighed [OF assms(1,2) _ assms(4,5)] and ow = overlay_weighed [OF assms(1,2) _ assms(4,5)]
  have "\<exists>b. prepareOverlay E l (upsert_mutate es) = Inr b"
    by (rule ow) (meson add_le_mono1 le_trans weigh_overlay weigh_upsert)
  then show "fst (Upsert E es l) = None" using assms(3) by (auto simp: Upsert_def guarded_passes prepareUpsert_def)
  have "\<exists>b. prepareOverlay E l (delete_mutate i) = Inr b"
    by (rule ow) (simp add: delete_mutate_def, meson le_trans weigh_delete weigh_overlay trans_le_add1)
  then show "fst (Delete E i l) = None" using assms(3) by (auto simp: Delete_def guarded_passes prepareDelete_def)
  have "\<exists>seg. buildSegment E l (liveEntries l) = Inr seg" by (rule bw) simp
  then show "fst (Compact E l) = None" using assms(3) by (auto simp: Compact_def guarded_passes Let_def)
  have "\<exists>seg. buildSegment E l (dedupeLastWins es) = Inr seg"
    by (rule bw) (simp add: dedupe_eq weigh_keep_final trans_le_add2)
  then show "fst (Replace E es l) = None" using assms(3) by (auto simp: Replace_def guarded_passes prepareBase_def Let_def)
qed

subsection \<open>Properties\<close>

definition demo_env :: "u32 set env" where
  "demo_env = \<lparr>en_R = set_bitmap, en_ord1 = (\<lambda>ks. ks), en_ord2 = rev\<rparr>"

definition demo_entry :: "string \<Rightarrow> string \<Rightarrow> entry" where
  "demo_entry i k = \<lparr>e_ID = i, e_Keys = [k], e_Payload = ''{}''\<rparr>"

definition demo_empty :: "u32 set klist" where
  "demo_empty = \<lparr>l_name = ''d'',
     l_cfg = demo_config\<lparr>lc_Match := (lc_Match demo_config)\<lparr>mc_Mode := ''exact'', mc_ExactCompanion := False\<rparr>\<rparr>,
     l_norm = (\<lambda>s. s), l_cfgDigest = ''d1'',
     l_snap = \<lparr>sn_base = None, sn_overlay = None, sn_tombstones = {}, sn_version = ''empty@0''\<rparr>,
     l_gen = 0, l_baseID = '''', l_jhash = None, l_overlaySrc = [], l_readOnly = False, l_roRefusals = None\<rparr>"

lemma demo_env_ok: "env_ok demo_env"
  by (simp add: env_ok_def demo_env_def set_bitmap_ok)

text \<open>A list with two base entries, one of them replaced in the overlay.\<close>

definition demo_list :: "u32 set klist" where
  "demo_list =
     snd (Upsert demo_env [demo_entry ''b'' ''z'']
       (snd (Replace demo_env [demo_entry ''a'' ''x'', demo_entry ''b'' ''y''] demo_empty)))"

lemma demo_list_facts:
  "list_inv demo_list" "\<not> l_readOnly demo_list" "grams_ok demo_list" "\<exists>b. PrepareCompact demo_env demo_list = (Inr b, demo_list)"
  "view demo_list = [''a'' \<mapsto> demo_entry ''a'' ''x'', ''b'' \<mapsto> demo_entry ''b'' ''z'']"
  "sn_base (l_snap demo_list) = Some seg0 \<Longrightarrow> length (sg_entries seg0) = 2" "length (liveEntries demo_list) = 2"
  "set (liveEntries demo_list) = {demo_entry ''a'' ''x'', demo_entry ''b'' ''z''}"
proof -
  let ?a = "demo_entry ''a'' ''x''" and ?b = "demo_entry ''b'' ''y''" and ?c = "demo_entry ''b'' ''z''"
  have e: "list_inv demo_empty" "grams_ok demo_empty" "\<not> l_readOnly demo_empty" "liveEntries demo_empty = []" "view demo_empty = Map.empty"
    by (simp_all add: list_inv_def demo_empty_def tomb_ok_def grams_ok_def liveEntries_def sorted_by_id_def view_def snap_view_def seg_map_def)
  have small: "raw_keys [?a, ?b] = 2" "raw_keys [?c] = 1" "raw_keys [] = 0" "dedupeLastWins [?a, ?b] = [?a, ?b]"
    "e_ID ?a = ''a''" "e_ID ?b = ''b''" "e_ID ?c = ''b''"
    by (simp_all add: raw_keys_def demo_entry_def dedupeLastWins_def)
  obtain seg where seg: "buildSegment demo_env demo_empty [?a, ?b] = Inr seg"
    using buildSegment_succeeds [OF demo_env_ok e(2), of "[?a, ?b]"] by (auto simp: small maxRun_def)
  have es: "sg_entries seg = [?a, ?b]" using buildSegment_inv(2) [OF seg] by (simp add: small)
  define l1 where "l1 = installBase seg demo_empty"
  have R: "Replace demo_env [?a, ?b] demo_empty = (None, l1)"
    by (simp add: Replace_def guarded_passes [OF e(3)] prepareBase_def small seg l1_def)
  have l1: "list_inv l1" "view l1 = [''a'' \<mapsto> ?a, ''b'' \<mapsto> ?b]" "grams_ok l1" "\<not> l_readOnly l1" "liveEntries l1 = [?a, ?b]"
    "sn_base (l_snap l1) = Some seg"
    using Replace_view [OF e(1) R] e
    by (simp_all add: small fun_upd_twist grams_ok_def)
      (simp_all add: l1_def installBase_def Let_def liveEntries_def sorted_by_id_def es small insort_key.simps)
  obtain b where b: "prepareUpsert demo_env l1 [?c] = Inr b"
    using ops_succeed(1) [OF demo_env_ok l1(3,4), of "[?c]"]
    by (auto simp: l1(5) raw_keys_def demo_entry_def maxRun_def Upsert_def guarded_passes [OF l1(4)] split: sum.splits)
  have U: "Upsert demo_env [?c] l1 = (None, demo_list)"
    by (simp add: demo_list_def R) (simp add: Upsert_def guarded_passes [OF l1(4)] b)
  then have d: "demo_list = commitOverlayAt b (- 1) l1"
    by (simp add: Upsert_def guarded_passes [OF l1(4)] b commitOverlay_def)
  show i: "list_inv demo_list" and v: "view demo_list = [''a'' \<mapsto> ?a, ''b'' \<mapsto> ?c]"
    using Upsert_view [OF l1(1) U] by (simp_all add: l1(2) small)
  show ro: "\<not> l_readOnly demo_list" "grams_ok demo_list"
    using l1(3,4) by (simp_all add: d commitOverlayAt_def Let_def grams_ok_def)
  show "length (sg_entries seg0) = 2" if "sn_base (l_snap demo_list) = Some seg0"
    using that es by (simp add: d commitOverlayAt_def Let_def l1(6))
  have "x \<in> set (liveEntries demo_list) \<longleftrightarrow> x = ?a \<or> x = ?c" for x
    using idmap_distinct [OF live_view(1) [OF i], of "e_ID x" x] live_view(3) [OF i] v by (auto simp: small split: if_splits)
  then show lv: "set (liveEntries demo_list) = {?a, ?c}" by blast
  have "distinct (liveEntries demo_list)" using live_view(1) [OF i] by (simp add: distinct_map)
  from distinct_card [OF this] lv show n: "length (liveEntries demo_list) = 2" by (simp add: demo_entry_def)
  have "length (e_Keys x) \<le> 1" if "x \<in> set (liveEntries demo_list)" for x
    using that unfolding lv by (auto simp: demo_entry_def)
  then have "raw_keys (liveEntries demo_list) \<le> (\<Sum>e\<leftarrow>liveEntries demo_list. 1)"
    unfolding raw_keys_def by (rule sum_list_mono)
  then have "\<exists>seg. buildSegment demo_env demo_list (liveEntries demo_list) = Inr seg"
    by (intro buildSegment_succeeds demo_env_ok ro(2)) (simp_all add: n sum_list_triv maxRun_def)
  then show "\<exists>b. PrepareCompact demo_env demo_list = (Inr b, demo_list)"
    using ro(1) by (auto simp: PrepareCompact_def refuseReadOnly_def ignoreReadOnly_def Let_def)
qed

text \<open>
  C2: A list is a map. Start from \<open>NewList\<close> and run any sequence of \<open>Replace\<close>, the three prebuilt-index
  replacements, \<open>Upsert\<close>, \<open>Delete\<close>, \<open>Compact\<close>, journal replays and \<open>SetBaseID\<close>, some of which may fail: the
  entries visible at the end are those of the plain ID-to-entry map obtained by performing just the
  successful operations (last write wins within a batch, delete removes, compaction changes nothing),
  and the representation invariant holds.
\<close>

theorem list_refines_map:
  assumes "new_list T sha256hex marshal name cfg = Inr l0" "run_ops (apply_op E) ops l0 = (tr, l)"
  shows "list_inv l \<and> map fst tr = ops \<and> view l = fold map_op (succeeded tr) Map.empty"
  using list_view.run_refines [OF new_list_inv(1) [OF assms(1)] assms(2)] new_list_inv(2) [OF assms(1)] by simp

theorem list_refines_map_witness:
  "\<exists>l0 tr l. new_list ascii_tables (\<lambda>s. s) (\<lambda>_. '''') ''d'' demo_config = Inr l0
    \<and> run_ops (apply_op demo_env) [OpUpsert [demo_entry ''a'' ''x'', demo_entry ''a'' ''y''], OpDelete ''b'', OpCompact] l0 = (tr, l)
    \<and> list_inv l \<and> view l = fold map_op (succeeded tr) Map.empty"
proof -
  obtain l0 :: "u32 set klist" where l0: "new_list ascii_tables (\<lambda>s. s) (\<lambda>_. '''') ''d'' demo_config = Inr l0"
    using demo_config_resolves by (auto simp: new_list_def)
  obtain tr l where r: "run_ops (apply_op demo_env) [OpUpsert [demo_entry ''a'' ''x'', demo_entry ''a'' ''y''], OpDelete ''b'', OpCompact] l0 = (tr, l)"
    by (rule prod.exhaust)
  show ?thesis using l0 r list_refines_map [OF l0 r] by blast
qed

text \<open>
  C33: The counters agree with the contents. \<open>LiveEntries\<close> lists exactly the visible entries, sorted by
  distinct IDs; \<open>Status\<close> reports their number, and \<open>KeyCount\<close> (which subtracts the keys of masked base
  entries found through \<open>byID\<close>) the number of their raw keys.
\<close>

theorem list_counters_exact:
  assumes "list_inv l" "\<And>seg. sn_base (l_snap l) = Some seg \<Longrightarrow> length (sg_entries seg) \<le> 2 ^ 32"
  shows "idmap (liveEntries l) = view l \<and> sorted (map e_ID (liveEntries l)) \<and> distinct (map e_ID (liveEntries l))
    \<and> st_Entries (Status l) = int (length (liveEntries l))
    \<and> KeyCount l = (\<Sum>e\<leftarrow>liveEntries l. int (length (e_Keys e)))"
  using live_view [OF assms(1)] status_counts [OF assms(1)] key_count [OF assms] by simp

theorem list_counters_exact_witness:
  "idmap (liveEntries demo_list) = [''a'' \<mapsto> demo_entry ''a'' ''x'', ''b'' \<mapsto> demo_entry ''b'' ''z'']
    \<and> st_Entries (Status demo_list) = 2 \<and> KeyCount demo_list = (\<Sum>e\<leftarrow>liveEntries demo_list. int (length (e_Keys e)))"
proof -
  have "length (sg_entries seg) \<le> 2 ^ 32" if "sn_base (l_snap demo_list) = Some seg" for seg
    using demo_list_facts(6) [OF that] by simp
  from list_counters_exact [OF demo_list_facts(1) this] show ?thesis
    by (simp add: demo_list_facts(5,7))
qed

text \<open>
  C34: Errors leave no trace. An operation on a writable list that returns an error returns it before any
  state changes: snapshot, version, generation and overlay source are those from before. A read-only list
  refuses every mutation and changes nothing but its refusal counter.
\<close>

theorem list_errors_leave_no_trace:
  assumes "apply_op E x l = (r, l1)"
  shows "(\<not> l_readOnly l \<and> r \<noteq> None \<longrightarrow> l1 = l)
    \<and> (l_readOnly l \<and> (\<forall>ops j. x \<noteq> OpJournal ops j) \<longrightarrow>
        l1 = l\<lparr>l_roRefusals := map_option Suc (l_roRefusals l)\<rparr>
        \<and> ((\<forall>b. x \<noteq> OpSetBaseID b) \<longrightarrow> (\<exists>opname. r = Some (ErrReadOnly opname))))"
  using op_error_writable [of l E x _ l1] op_read_only [of l x E] assms by (cases r) auto

theorem list_errors_leave_no_trace_witness:
  "apply_op demo_env (OpReplaceWithIndex [demo_entry ''a'' ''x''] None None) demo_empty = (Some WrongMode, demo_empty)"
proof -
  have w: "\<not> l_readOnly demo_empty" by (simp add: demo_empty_def)
  obtain l1 where l1: "apply_op demo_env (OpReplaceWithIndex [demo_entry ''a'' ''x''] None None) demo_empty = (Some WrongMode, l1)"
    by (simp add: ReplaceWithIndexInfo_def guarded_passes [OF w]) (simp add: demo_empty_def demo_config_def)
  with list_errors_leave_no_trace [OF l1] w show ?thesis by simp
qed

text \<open>
  C35: The n-gram builder's panic on a gram size below one is unreachable. The configuration checks of
  \<open>NewList\<close> exclude it for every operation of every run, since no operation changes the configuration.
\<close>

theorem list_builder_never_panics:
  assumes "new_list T sha256hex marshal name cfg = Inr l0" "run_ops (apply_op E) ops l0 = (tr, l)"
  shows "\<forall>(x, r) \<in> set tr. r \<noteq> Some BuilderPanic"
  by (rule run_no_panic [OF new_list_grams [OF assms(1)] assms(2), THEN conjunct1])

theorem list_builder_never_panics_witness:
  "\<exists>l0 tr l. new_list ascii_tables (\<lambda>s. s) (\<lambda>_. '''') ''d'' demo_config = Inr l0
    \<and> run_ops (apply_op demo_env) [OpUpsert [demo_entry ''a'' ''x''], OpDelete ''a''] l0 = (tr, l)
    \<and> (\<forall>(x, r) \<in> set tr. r \<noteq> Some BuilderPanic)"
proof -
  obtain l0 :: "u32 set klist" where l0: "new_list ascii_tables (\<lambda>s. s) (\<lambda>_. '''') ''d'' demo_config = Inr l0"
    using demo_config_resolves by (auto simp: new_list_def)
  obtain tr l where r: "run_ops (apply_op demo_env) [OpUpsert [demo_entry ''a'' ''x''], OpDelete ''a''] l0 = (tr, l)"
    by (rule prod.exhaust)
  show ?thesis using l0 r list_builder_never_panics [OF l0 r] by blast
qed

text \<open>
  C21: Two-phase compaction. Committing what \<open>PrepareCompact\<close> built from the current state folds overlay and
  tombstones into a new base under the given base ID without changing what is visible, and the list's live
  entries (what the caller persists as the new base) stay the same list.
\<close>

theorem two_phase_compact_preserves:
  assumes "list_inv l" "\<not> l_readOnly l" "PrepareCompact E l = (Inr b, l1)"
  shows "list_inv (CommitCompact b bid l) \<and> view (CommitCompact b bid l) = view l
    \<and> liveEntries (CommitCompact b bid l) = liveEntries l \<and> cb_live b = liveEntries l
    \<and> l_overlaySrc (CommitCompact b bid l) = [] \<and> sn_tombstones (l_snap (CommitCompact b bid l)) = {}"
  using two_phase_compact [OF assms] assms
  by (auto simp: PrepareCompact_def refuseReadOnly_def ignoreReadOnly_def CommitCompact_def Let_def split: sum.splits)

theorem two_phase_compact_preserves_witness:
  "\<exists>b. PrepareCompact demo_env demo_list = (Inr b, demo_list)
    \<and> view (CommitCompact b ''0a1b'' demo_list) = [''a'' \<mapsto> demo_entry ''a'' ''x'', ''b'' \<mapsto> demo_entry ''b'' ''z'']"
proof -
  obtain b where b: "PrepareCompact demo_env demo_list = (Inr b, demo_list)" using demo_list_facts(4) by blast
  from two_phase_compact_preserves [OF demo_list_facts(1,2) b, of "''0a1b''"] b demo_list_facts(5) show ?thesis by auto
qed

text \<open>
  C36: Mutations within the encoding limits succeed. On a writable list, as long as the live and the incoming
  entries together stay below \<open>2\<^sup>32\<close> entries and have at most \<open>2\<^sup>20 - 1\<close> raw keys (no key can then
  outgrow a posting run), \<open>Upsert\<close>, \<open>Delete\<close>, \<open>Compact\<close> and \<open>Replace\<close> all return without error.
\<close>

theorem list_mutations_succeed:
  assumes "env_ok E" "new_list T sha256hex marshal name cfg = Inr l0" "run_ops (apply_op E) ops l0 = (tr, l)" "\<not> l_readOnly l"
    and "length (liveEntries l) + length es < 2 ^ 32" "raw_keys (liveEntries l) + raw_keys es \<le> 2 ^ 20 - 1"
  shows "fst (Upsert E es l) = None \<and> fst (Delete E i l) = None \<and> fst (Compact E l) = None \<and> fst (Replace E es l) = None"
  using ops_succeed [OF assms(1) run_grams [OF new_list_grams [OF assms(2)] assms(3)] assms(4,5)] assms(6)
  by (simp add: maxRun_def)

theorem list_mutations_succeed_witness:
  "\<exists>l0. new_list ascii_tables (\<lambda>s. s) (\<lambda>_. '''') ''d'' demo_config = Inr l0
    \<and> fst (Upsert demo_env [demo_entry ''a'' ''x''] l0) = None"
proof -
  obtain l0 :: "u32 set klist" where l0: "new_list ascii_tables (\<lambda>s. s) (\<lambda>_. '''') ''d'' demo_config = Inr l0"
    using demo_config_resolves by (auto simp: new_list_def)
  then have "liveEntries l0 = []"
    by (auto simp: new_list_def liveEntries_def sorted_by_id_def split: sum.splits)
  with list_mutations_succeed [OF demo_env_ok l0, of "[]" "[]" l0 "[demo_entry ''a'' ''x'']"] new_list_inv(3) [OF l0] l0
  show ?thesis by (simp add: raw_keys_def demo_entry_def)
qed

end
