(* ===== verification/Filter_Number.thy ===== *)
theory Filter_Number
  imports Go_Strings Complex_Main
begin

text \<open>
  JSON numbers in filters and payloads (\<open>canonicalNumberTokenBytes\<close>, \<open>compareCanonicalNumbers\<close> and
  \<open>compareCanonicalMagnitudes\<close> of \<open>engine/typed_filter.go\<close>, \<open>validScalarToken\<close> of \<open>engine/payload.go\<close>).
  Numbers are compared as text: a token is rewritten to a canonical fixed-decimal spelling, and two
  numbers are equal when their canonical spellings are. The cursor over the token is the list of bytes
  not yet read. A payload number outside the request envelope is not comparable: \<open>Inr None\<close>.
\<close>

definition maxTypedFilterNumberBytes :: nat where "maxTypedFilterNumberBytes = 256"
definition maxTypedFilterSignificant :: nat where "maxTypedFilterSignificant = 40"
definition maxTypedFilterExponent :: int where "maxTypedFilterExponent = 200"

datatype number_error =
    NumberTooLong nat
  | InvalidNumber
  | TooManyDigits nat
  | ExponentRange int

subsection \<open>The token grammar\<close>

definition is_digit :: "char \<Rightarrow> bool" where
  "is_digit c \<longleftrightarrow> CHR ''0'' \<le> c \<and> c \<le> CHR ''9''"

definition digit_val :: "char \<Rightarrow> nat" where
  "digit_val c = of_char c - 48"

definition scan_int :: "string \<Rightarrow> (string \<times> string) option" where
  "scan_int r = (case r of
     [] \<Rightarrow> None
   | c # r1 \<Rightarrow>
       if c = CHR ''0'' then
         (case r1 of d # _ \<Rightarrow> if is_digit d then None else Some ([c], r1) | [] \<Rightarrow> Some ([c], r1))
       else if is_digit c then Some (takeWhile is_digit r, dropWhile is_digit r)
       else None)"

definition scan_frac :: "string \<Rightarrow> (string \<times> string) option" where
  "scan_frac r = (case r of
     [] \<Rightarrow> Some ([], r)
   | c # r1 \<Rightarrow>
       if c = CHR ''.'' then
         (if takeWhile is_digit r1 = [] then None else Some (takeWhile is_digit r1, dropWhile is_digit r1))
       else Some ([], r))"

definition exp_step :: "int \<Rightarrow> char \<Rightarrow> int" where
  "exp_step e c = (if e \<le> 1000000 then e * 10 + int (digit_val c) else e)"

definition scan_exp :: "string \<Rightarrow> (int \<times> string) option" where
  "scan_exp r = (case r of
     [] \<Rightarrow> Some (0, r)
   | c # r1 \<Rightarrow>
       if c = CHR ''e'' \<or> c = CHR ''E'' then
         (let neg = (case r1 of s # _ \<Rightarrow> s = CHR ''-'' | [] \<Rightarrow> False);
              r2 = (case r1 of s # t \<Rightarrow> if s = CHR ''+'' \<or> s = CHR ''-'' then t else r1 | [] \<Rightarrow> r1);
              ds = takeWhile is_digit r2;
              e = foldl exp_step 0 ds;
              e1 = (if e > 1000000 then 1000001 else e)
          in if ds = [] then None else Some (if neg then - e1 else e1, dropWhile is_digit r2))
       else Some (0, r))"

subsection \<open>Canonical form\<close>

fun first_nonzero :: "nat \<Rightarrow> string \<Rightarrow> nat option" where
  "first_nonzero i [] = None"
| "first_nonzero i (c # cs) = (if c \<noteq> CHR ''0'' then Some i else first_nonzero (Suc i) cs)"

fun last_nonzero :: "nat \<Rightarrow> nat \<Rightarrow> string \<Rightarrow> nat" where
  "last_nonzero l i [] = l"
| "last_nonzero l i (c # cs) = last_nonzero (if c \<noteq> CHR ''0'' then i else l) (Suc i) cs"

definition render_number :: "bool \<Rightarrow> string \<Rightarrow> int \<Rightarrow> string" where
  "render_number negative digits scaleExp =
     (let decimalPos = int (length digits) + scaleExp in
      (if negative then ''-'' else '''') @
      (if decimalPos \<le> 0 then ''0.'' @ replicate (nat (- decimalPos)) (CHR ''0'') @ digits
       else if decimalPos \<ge> int (length digits) then
         digits @ replicate (nat (decimalPos - int (length digits))) (CHR ''0'')
       else take (nat decimalPos) digits @ ''.'' @ drop (nat decimalPos) digits))"

definition canonical_digits :: "bool \<Rightarrow> bool \<Rightarrow> string \<Rightarrow> string \<Rightarrow> int \<Rightarrow> number_error + string option" where
  "canonical_digits request negative ids fds ex =
     (let ds = ids @ fds in
      case first_nonzero 0 ds of
        None \<Rightarrow> Inr (Some ''0'')
      | Some firstOrdinal \<Rightarrow>
          let lastOrdinal = last_nonzero 0 0 ds;
              significant = lastOrdinal - firstOrdinal + 1;
              trailingZeros = length ds - 1 - lastOrdinal;
              scaleExp = ex - int (length fds) + int trailingZeros;
              mathExp = int significant - 1 + scaleExp
          in if significant > maxTypedFilterSignificant then
               (if request then Inl (TooManyDigits significant) else Inr None)
             else if mathExp < - maxTypedFilterExponent \<or> mathExp > maxTypedFilterExponent then
               (if request then Inl (ExponentRange mathExp) else Inr None)
             else
               Inr (Some (render_number negative (take (lastOrdinal - firstOrdinal + 1) (drop firstOrdinal ds)) scaleExp)))"

definition canonicalNumberToken :: "string \<Rightarrow> bool \<Rightarrow> number_error + string option" where
  "canonicalNumberToken tok request =
     (if request \<and> length tok > maxTypedFilterNumberBytes then Inl (NumberTooLong (length tok))
      else case tok of
        [] \<Rightarrow> Inl InvalidNumber
      | c # r \<Rightarrow>
          let negative = (c = CHR ''-'') in
          case scan_int (if negative then r else tok) of
            None \<Rightarrow> Inl InvalidNumber
          | Some (ids, r1) \<Rightarrow>
              (case scan_frac r1 of
                 None \<Rightarrow> Inl InvalidNumber
               | Some (fds, r2) \<Rightarrow>
                   (case scan_exp r2 of
                      None \<Rightarrow> Inl InvalidNumber
                    | Some (ex, r3) \<Rightarrow>
                        if r3 \<noteq> [] then Inl InvalidNumber else canonical_digits request negative ids fds ex)))"

subsection \<open>Ordering\<close>

fun str_compare :: "string \<Rightarrow> string \<Rightarrow> int" where
  "str_compare [] [] = 0"
| "str_compare [] (y # ys) = - 1"
| "str_compare (x # xs) [] = 1"
| "str_compare (x # xs) (y # ys) = (if x = y then str_compare xs ys else if x < y then - 1 else 1)"

definition index_byte :: "char \<Rightarrow> string \<Rightarrow> nat option" where
  "index_byte c s = (if c \<in> set s then Some (length (takeWhile (\<lambda>x. x \<noteq> c) s)) else None)"

fun frac_compare :: "string \<Rightarrow> string \<Rightarrow> int" where
  "frac_compare [] [] = 0"
| "frac_compare (x # xs) [] = (if x \<noteq> CHR ''0'' then int (of_char x) - 48 else frac_compare xs [])"
| "frac_compare [] (y # ys) = (if y \<noteq> CHR ''0'' then 48 - int (of_char y) else frac_compare [] ys)"
| "frac_compare (x # xs) (y # ys) = (if x \<noteq> y then int (of_char x) - int (of_char y) else frac_compare xs ys)"

definition compareCanonicalMagnitudes :: "string \<Rightarrow> string \<Rightarrow> int" where
  "compareCanonicalMagnitudes a b =
     (let adot = (case index_byte (CHR ''.'') a of None \<Rightarrow> length a | Some i \<Rightarrow> i);
          bdot = (case index_byte (CHR ''.'') b of None \<Rightarrow> length b | Some i \<Rightarrow> i)
      in if adot \<noteq> bdot then int adot - int bdot
         else let cmp = str_compare (take adot a) (take bdot b) in
              if cmp \<noteq> 0 then cmp else frac_compare (drop (adot + 1) a) (drop (bdot + 1) b))"

definition compareCanonicalNumbers :: "string \<Rightarrow> string \<Rightarrow> int" where
  "compareCanonicalNumbers a b =
     (if a = b then 0
      else
        let aNeg = (take 1 a = ''-''); bNeg = (take 1 b = ''-'') in
        if aNeg \<noteq> bNeg then (if aNeg then - 1 else 1)
        else if aNeg then - compareCanonicalMagnitudes (drop 1 a) (drop 1 b)
        else compareCanonicalMagnitudes a b)"

subsection \<open>The scanner's scalar grammar\<close>

definition validScalarToken :: "string \<Rightarrow> bool" where
  "validScalarToken tok =
     (if tok = ''true'' \<or> tok = ''false'' \<or> tok = ''null'' then True
      else
        let r = (case tok of c # t \<Rightarrow> if c = CHR ''-'' then t else tok | [] \<Rightarrow> tok) in
        case r of
          [] \<Rightarrow> False
        | c # t \<Rightarrow>
            (case (if c = CHR ''0'' then Some t else if is_digit c then Some (dropWhile is_digit r) else None) of
               None \<Rightarrow> False
             | Some r1 \<Rightarrow>
                 (case (case r1 of
                          d # t1 \<Rightarrow> if d = CHR ''.'' then
                              (if takeWhile is_digit t1 = [] then None else Some (dropWhile is_digit t1)) else Some r1
                        | [] \<Rightarrow> Some r1) of
                    None \<Rightarrow> False
                  | Some r2 \<Rightarrow>
                      (case r2 of
                         e # t2 \<Rightarrow>
                           if e = CHR ''e'' \<or> e = CHR ''E'' then
                             (let t3 = (case t2 of s # t \<Rightarrow> if s = CHR ''+'' \<or> s = CHR ''-'' then t else t2 | [] \<Rightarrow> t2)
                              in takeWhile is_digit t3 \<noteq> [] \<and> dropWhile is_digit t3 = [])
                           else False
                       | [] \<Rightarrow> True))))"

subsection \<open>What a token denotes\<close>

definition digits_val :: "string \<Rightarrow> nat" where
  "digits_val ds = foldl (\<lambda>n c. n * 10 + digit_val c) 0 ds"

definition exp_value :: "string \<Rightarrow> (int \<times> string) option" where
  "exp_value r = (case r of
     [] \<Rightarrow> Some (0, r)
   | c # r1 \<Rightarrow>
       if c = CHR ''e'' \<or> c = CHR ''E'' then
         (let neg = (case r1 of s # _ \<Rightarrow> s = CHR ''-'' | [] \<Rightarrow> False);
              r2 = (case r1 of s # t \<Rightarrow> if s = CHR ''+'' \<or> s = CHR ''-'' then t else r1 | [] \<Rightarrow> r1);
              ds = takeWhile is_digit r2;
              e = int (digits_val ds)
          in if ds = [] then None else Some (if neg then - e else e, dropWhile is_digit r2))
       else Some (0, r))"

definition decimal :: "bool \<Rightarrow> string \<Rightarrow> int \<Rightarrow> rat" where
  "decimal negative ds s = (if negative then - 1 else 1) * of_nat (digits_val ds) * 10 powi s"

text \<open>The number a token of the JSON grammar stands for.\<close>

definition number_value :: "string \<Rightarrow> rat option" where
  "number_value tok = (case tok of
     [] \<Rightarrow> None
   | c # r \<Rightarrow>
       (case scan_int (if c = CHR ''-'' then r else tok) of
          None \<Rightarrow> None
        | Some (ids, r1) \<Rightarrow>
            (case scan_frac r1 of
               None \<Rightarrow> None
             | Some (fds, r2) \<Rightarrow>
                 (case exp_value r2 of
                    None \<Rightarrow> None
                  | Some (ex, r3) \<Rightarrow>
                      if r3 \<noteq> [] then None else Some (decimal (c = CHR ''-'') (ids @ fds) (ex - int (length fds)))))))"

subsection \<open>Digit strings\<close>

lemma digits_val_append: "digits_val (xs @ ys) = digits_val xs * 10 ^ length ys + digits_val ys"
proof -
  have "foldl (\<lambda>n c. n * 10 + digit_val c) a ys = a * 10 ^ length ys + foldl (\<lambda>n c. n * 10 + digit_val c) 0 ys" for a
  proof (induction ys arbitrary: a)
    case (Cons y ys)
    show ?case using Cons [of "a * 10 + digit_val y"] Cons [of "digit_val y"] by (simp add: add_mult_distrib)
  qed simp
  from this [of "digits_val xs"] show ?thesis unfolding digits_val_def by simp
qed

lemma digits_val_simps [simp]:
  "digits_val [] = 0" "digits_val [c] = digit_val c" "digit_val CHR ''0'' = 0"
  by (simp_all add: digits_val_def digit_val_def)

lemma digits_val_zeros [simp]: "digits_val (replicate n CHR ''0'') = 0"
proof (induction n)
  case (Suc n)
  then show ?case using digits_val_append [of "[CHR ''0'']" "replicate n CHR ''0''"] by simp
qed simp

lemma is_digit_byte: "is_digit c \<longleftrightarrow> 48 \<le> byte c \<and> byte c \<le> 57"
  by (simp add: is_digit_def less_eq_char_def)

lemma digit_val_less: "is_digit c \<Longrightarrow> digit_val c < 10"
  by (auto simp: is_digit_byte digit_val_def)

lemma digit_val_inj:
  assumes "is_digit c" "is_digit d" "digit_val c = digit_val d"
  shows "c = d"
proof -
  have "byte c = byte d" using assms unfolding is_digit_byte digit_val_def by linarith
  then show ?thesis by simp
qed

lemma digit_zero: "is_digit c \<Longrightarrow> digit_val c = 0 \<longleftrightarrow> c = CHR ''0''"
  using digit_val_inj [of c "CHR ''0''"] by (auto simp: is_digit_byte)

lemma digits_val_bound: "\<forall>c \<in> set ds. is_digit c \<Longrightarrow> digits_val ds < 10 ^ length ds"
proof (induction ds rule: rev_induct)
  case (snoc c ds)
  then have "digits_val ds < 10 ^ length ds" "digit_val c < 10" by (auto intro: digit_val_less)
  then have "Suc (digits_val ds) * 10 \<le> 10 ^ length ds * 10" by (intro mult_le_mono1) simp
  then show ?case using \<open>digit_val c < 10\<close> by (simp add: digits_val_append)
qed simp

lemma digits_val_inj:
  assumes "\<forall>c \<in> set xs. is_digit c" "\<forall>c \<in> set ys. is_digit c" "length xs = length ys" "digits_val xs = digits_val ys"
  shows "xs = ys"
  using assms(3,1,2,4)
proof (induction xs ys rule: rev_induct2)
  case (4 x xs y ys)
  then have d: "digit_val x < 10" "digit_val y < 10" by (auto intro: digit_val_less)
  have "digits_val xs * 10 + digit_val x = digits_val ys * 10 + digit_val y"
    using 4 by (simp add: digits_val_append)
  then have "digit_val x = digit_val y" "digits_val xs = digits_val ys" using d by presburger+
  then show ?case using 4 digit_val_inj [of x y] by auto
qed auto

lemma digits_val_ge: "is_digit c \<Longrightarrow> c \<noteq> CHR ''0'' \<Longrightarrow> 10 ^ length ds \<le> digits_val (c # ds)"
  using digits_val_append [of "[c]" ds] digit_zero [of c] by (simp add: trans_le_add1)

lemma digits_val_inj':
  assumes "\<forall>c \<in> set xs. is_digit c" "\<forall>c \<in> set ys. is_digit c" "xs \<noteq> []" "ys \<noteq> []"
    "hd xs \<noteq> CHR ''0''" "hd ys \<noteq> CHR ''0''" "digits_val xs = digits_val ys"
  shows "xs = ys"
proof -
  have len: "10 ^ (length ds - 1) \<le> digits_val ds \<and> digits_val ds < 10 ^ length ds"
    if "\<forall>c \<in> set ds. is_digit c" "ds \<noteq> []" "hd ds \<noteq> CHR ''0''" for ds
    using that digits_val_ge [of "hd ds" "tl ds"] digits_val_bound [of ds] by (cases ds) auto
  have "length xs - 1 < length ys" "length ys - 1 < length xs"
    using len [OF assms(1,3,5)] len [OF assms(2,4,6)] assms(7)
    by (auto intro!: power_less_imp_less_exp [of 10] elim: le_less_trans)
  then have "length xs = length ys" using assms(3,4) by (cases xs; cases ys) auto
  then show ?thesis using digits_val_inj assms by blast
qed

text \<open>The coefficient without its leading and trailing zeros.\<close>

lemma strip_zeros:
  assumes "\<exists>c \<in> set ds. c \<noteq> CHR ''0''"
  obtains f core t where "ds = replicate f CHR ''0'' @ core @ replicate t CHR ''0''" "core \<noteq> []"
    "hd core \<noteq> CHR ''0''" "last core \<noteq> CHR ''0''"
proof -
  let ?z = "\<lambda>c. c = CHR ''0''"
  let ?r = "dropWhile ?z ds"
  let ?core = "rev (dropWhile ?z (rev ?r))"
  have rep: "takeWhile ?z xs = replicate (length (takeWhile ?z xs)) CHR ''0''" for xs
    by (rule replicate_eqI [symmetric, THEN sym]) (auto dest: set_takeWhileD)
  have ne: "?r \<noteq> []" using assms by (auto simp: dropWhile_eq_Nil_conv)
  then have hr: "hd ?r \<noteq> CHR ''0''" using hd_dropWhile [of ?z ds] by blast
  have "\<exists>c \<in> set ?r. c \<noteq> CHR ''0''" using ne hr hd_in_set by blast
  then have ne2: "dropWhile ?z (rev ?r) \<noteq> []" by (auto simp: dropWhile_eq_Nil_conv)
  have r: "?r = ?core @ rev (takeWhile ?z (rev ?r))"
    by (metis rev_append rev_rev_ident takeWhile_dropWhile_id)
  have hd: "hd ?core = hd ?r" using r ne2 by (metis hd_append2 rev_is_Nil_conv)
  have "ds = takeWhile ?z ds @ ?r" by simp
  then have "ds = replicate (length (takeWhile ?z ds)) CHR ''0'' @ ?core @ replicate (length (takeWhile ?z (rev ?r))) CHR ''0''"
    using rep r by (metis rev_replicate)
  then show ?thesis
    by (rule that) (use ne ne2 hd hr hd_dropWhile [OF ne2] in \<open>auto simp: last_rev\<close>)
qed

lemma first_nonzero_zeros: "c \<noteq> CHR ''0'' \<Longrightarrow> first_nonzero i (replicate f CHR ''0'' @ c # cs) = Some (i + f)"
  by (induction f arbitrary: i) auto

lemma first_nonzero_None: "first_nonzero i ds = None \<longleftrightarrow> (\<forall>c \<in> set ds. c = CHR ''0'')"
  by (induction i ds rule: first_nonzero.induct) auto

lemma last_nonzero_zeros: "last_nonzero l i (replicate t CHR ''0'') = l"
  by (induction t arbitrary: i) auto

lemma last_nonzero_last: "c \<noteq> CHR ''0'' \<Longrightarrow> last_nonzero l i (xs @ c # replicate t CHR ''0'') = i + length xs"
  by (induction xs arbitrary: l i) (auto simp: last_nonzero_zeros)

lemma all_zero_val: "\<forall>c \<in> set ds. c = CHR ''0'' \<Longrightarrow> digits_val ds = 0"
  by (metis digits_val_zeros replicate_eqI)

subsection \<open>Reading a rendered number back\<close>

definition core_ok :: "string \<Rightarrow> bool" where
  "core_ok ds \<longleftrightarrow> ds \<noteq> [] \<and> (\<forall>c \<in> set ds. is_digit c) \<and> hd ds \<noteq> CHR ''0'' \<and> last ds \<noteq> CHR ''0''"

lemma not_digit [simp]: "\<not> is_digit CHR ''.''" "\<not> is_digit CHR ''-''" "is_digit CHR ''0''"
  by (simp_all add: is_digit_def)

lemma take_digits:
  assumes "\<forall>c \<in> set ds. is_digit c" "case r of [] \<Rightarrow> True | c # _ \<Rightarrow> \<not> is_digit c"
  shows "takeWhile is_digit (ds @ r) = ds" "dropWhile is_digit (ds @ r) = r"
  using assms by (auto simp: takeWhile_append takeWhile_eq_all_conv dropWhile_append dropWhile_eq_Nil_conv split: list.splits)

lemma scan_int_digits:
  assumes "ds \<noteq> []" "\<forall>c \<in> set ds. is_digit c" "hd ds \<noteq> CHR ''0''" "case r of [] \<Rightarrow> True | c # _ \<Rightarrow> \<not> is_digit c"
  shows "scan_int (ds @ r) = Some (ds, r)"
  using take_digits [OF assms(2,4)] assms(1-3) by (cases ds) (simp_all add: scan_int_def)

lemma scan_frac_digits:
  "xs \<noteq> [] \<Longrightarrow> \<forall>c \<in> set xs. is_digit c \<Longrightarrow> scan_frac (CHR ''.'' # xs) = Some (xs, [])"
  by (cases xs) (auto simp: scan_frac_def takeWhile_eq_all_conv dropWhile_eq_Nil_conv)

lemma number_value_scanned:
  assumes "tok = (if neg then ''-'' else '''') @ body" "body \<noteq> []" "hd body \<noteq> CHR ''-''"
    and "scan_int body = Some (ids, r1)" "scan_frac r1 = Some (fds, [])"
  shows "number_value tok = Some (decimal neg (ids @ fds) (- int (length fds)))"
  using assms by (cases body) (auto simp: number_value_def exp_value_def)

lemma decimal_zeros: "decimal neg (replicate f CHR ''0'' @ ds @ replicate t CHR ''0'') s = decimal neg ds (int t + s)"
  by (simp add: decimal_def digits_val_append power_int_add)

lemma number_value_render:
  assumes "core_ok ds"
  shows "number_value (render_number neg ds s) = Some (decimal neg ds s)"
proof -
  let ?p = "int (length ds) + s"
  have d: "ds \<noteq> []" "\<forall>c \<in> set ds. is_digit c" "hd ds \<noteq> CHR ''0''" using assms by (simp_all add: core_ok_def)
  have hm: "hd ds \<noteq> CHR ''-''" using d by (metis hd_in_set not_digit(2))
  consider "?p \<le> 0" | "0 < ?p" "?p < int (length ds)" | "int (length ds) \<le> ?p" by linarith
  then show ?thesis
  proof cases
    case 1
    let ?z = "replicate (nat (- ?p)) CHR ''0''"
    have f: "scan_frac (CHR ''.'' # ?z @ ds) = Some (?z @ ds, [])"
      by (rule scan_frac_digits) (use d in auto)
    have "number_value (render_number neg ds s) = Some (decimal neg ([CHR ''0''] @ ?z @ ds) (- int (length (?z @ ds))))"
      by (rule number_value_scanned [where body = "''0.'' @ ?z @ ds", OF _ _ _ _ f])
        (use 1 in \<open>simp_all add: render_number_def Let_def scan_int_def\<close>)
    also have "[CHR ''0''] @ ?z @ ds = replicate (Suc (nat (- ?p))) CHR ''0'' @ ds @ replicate 0 CHR ''0''" by simp
    also have "decimal neg \<dots> (- int (length (?z @ ds))) = decimal neg ds s"
      unfolding decimal_zeros using 1 by simp
    finally show ?thesis .
  next
    case 2
    let ?k = "nat ?p"
    have k: "0 < ?k" "?k < length ds" using 2 by auto
    have f: "scan_frac (CHR ''.'' # drop ?k ds) = Some (drop ?k ds, [])"
      by (rule scan_frac_digits) (use d k in \<open>auto dest: in_set_dropD\<close>)
    have i: "scan_int (take ?k ds @ CHR ''.'' # drop ?k ds) = Some (take ?k ds, CHR ''.'' # drop ?k ds)"
      by (rule scan_int_digits) (use d k in \<open>auto dest: in_set_takeD simp: hd_take\<close>)
    have "number_value (render_number neg ds s) = Some (decimal neg (take ?k ds @ drop ?k ds) (- int (length (drop ?k ds))))"
      by (rule number_value_scanned [where body = "take ?k ds @ ''.'' @ drop ?k ds", OF _ _ _ _ f])
        (use 2 d hm k i in \<open>auto simp: render_number_def Let_def hd_append hd_take\<close>)
    then show ?thesis using k by simp
  next
    case 3
    then have pos: "0 < ?p" using d(1) by (cases ds) auto
    let ?z = "replicate (nat (?p - int (length ds))) CHR ''0''"
    have i: "scan_int (ds @ ?z) = Some (ds @ ?z, [])"
    proof -
      have "scan_int ((ds @ ?z) @ []) = Some (ds @ ?z, [])"
        by (rule scan_int_digits) (use d in \<open>auto simp: hd_append\<close>)
      then show ?thesis by simp
    qed
    have f: "scan_frac [] = Some ([], [])" by (simp add: scan_frac_def)
    have "number_value (render_number neg ds s) = Some (decimal neg ((ds @ ?z) @ []) (- int (length ([] :: string))))"
      by (rule number_value_scanned [where body = "ds @ ?z", OF _ _ _ i f])
        (use 3 d hm pos in \<open>auto simp: render_number_def Let_def hd_append\<close>)
    also have "(ds @ ?z) @ [] = replicate 0 CHR ''0'' @ ds @ ?z" by simp
    also have "decimal neg \<dots> (- int (length ([] :: string))) = decimal neg ds s"
      unfolding decimal_zeros using 3 by simp
    finally show ?thesis .
  qed
qed

lemma core_not_dvd:
  assumes "core_ok ds"
  shows "\<not> 10 dvd digits_val ds" "0 < digits_val ds"
proof -
  have "ds = butlast ds @ [last ds]" using assms by (simp add: core_ok_def)
  then have "digits_val ds = digits_val (butlast ds) * 10 + digit_val (last ds)"
    using digits_val_append [of "butlast ds" "[last ds]"] by simp
  moreover have "0 < digit_val (last ds)" "digit_val (last ds) < 10"
    using assms digit_zero [of "last ds"] digit_val_less [of "last ds"] by (auto simp: core_ok_def)
  ultimately show "\<not> 10 dvd digits_val ds" "0 < digits_val ds" by presburger+
qed

lemma scaled_unique:
  assumes "of_nat m * 10 powi s = (of_nat n * 10 powi u :: rat)" "\<not> 10 dvd m" "\<not> 10 dvd n"
  shows "m = n \<and> s = u"
proof -
  have *: "m = n \<and> s = u" if "s \<le> u" "of_nat m * 10 powi s = (of_nat n * 10 powi u :: rat)" "\<not> 10 dvd m" for m n s u
  proof -
    have "(10 :: rat) powi u = 10 ^ nat (u - s) * 10 powi s"
      using that(1) power_int_add [of "10 :: rat" "u - s" s] by (simp add: power_int_def)
    then have "(of_nat m :: rat) = of_nat (n * 10 ^ nat (u - s))"
      using that(2) by simp
    then have m: "m = n * 10 ^ nat (u - s)" by (simp only: of_nat_eq_iff)
    have "nat (u - s) = 0" using that(3) m by (metis dvd_power dvd_triv_right dvd_trans gr0I)
    then show ?thesis using m that(1) by simp
  qed
  show ?thesis
  proof (cases "s \<le> u")
    case True
    then show ?thesis using * assms by blast
  next
    case False
    then show ?thesis using * [of u s n m] assms by auto
  qed
qed

lemma decimal_unique:
  assumes "decimal n1 d1 s1 = decimal n2 d2 s2" "core_ok d1" "core_ok d2"
  shows "n1 = n2 \<and> d1 = d2 \<and> s1 = s2"
proof -
  note p1 = core_not_dvd [OF assms(2)] and p2 = core_not_dvd [OF assms(3)]
  have pos: "0 < (of_nat (digits_val d1) * 10 powi s1 :: rat)" "0 < (of_nat (digits_val d2) * 10 powi s2 :: rat)"
    using p1(2) p2(2) by (simp_all add: zero_less_power_int)
  have n: "n1 = n2"
    using assms(1) pos by (cases n1; cases n2) (auto simp: decimal_def)
  then have "of_nat (digits_val d1) * 10 powi s1 = (of_nat (digits_val d2) * 10 powi s2 :: rat)"
    using assms(1) by (simp add: decimal_def split: if_splits)
  then have "digits_val d1 = digits_val d2 \<and> s1 = s2" using scaled_unique p1(1) p2(1) by blast
  then show ?thesis
    using n digits_val_inj' [of d1 d2] assms(2,3) by (simp add: core_ok_def)
qed

subsection \<open>Canonical spellings\<close>

lemma scan_int_set: "scan_int r = Some (ids, r1) \<Longrightarrow> (\<forall>c \<in> set ids. is_digit c) \<and> length ids + length r1 = length r"
  by (auto simp: scan_int_def split: list.splits if_splits dest: set_takeWhileD)
    (metis length_append takeWhile_dropWhile_id)

lemma scan_frac_set: "scan_frac r = Some (fds, r1) \<Longrightarrow> (\<forall>c \<in> set fds. is_digit c) \<and> length fds + length r1 \<le> length r"
  by (auto simp: scan_frac_def split: list.splits if_splits dest: set_takeWhileD)
    (metis length_append takeWhile_dropWhile_id le_SucI order_refl)

text \<open>The saturating exponent agrees with the exact one unless the exact one is beyond a million.\<close>

lemma exp_saturates:
  assumes "\<forall>c \<in> set ds. is_digit c"
  shows "foldl exp_step 0 ds = int (digits_val ds) \<or> 1000000 < foldl exp_step 0 ds \<and> 1000000 < int (digits_val ds)"
  using assms
proof (induction ds rule: rev_induct)
  case (snoc c ds)
  have d: "digits_val (ds @ [c]) = digits_val ds * 10 + digit_val c" by (simp add: digits_val_append)
  from snoc have "foldl exp_step 0 ds = int (digits_val ds) \<or> 1000000 < foldl exp_step 0 ds \<and> 1000000 < int (digits_val ds)" by simp
  then show ?case by (auto simp: exp_step_def [of _ c] d)
qed simp

lemma scan_exp_exact:
  assumes "scan_exp r = Some (ex, r3)"
  shows "\<exists>e. exp_value r = Some (e, r3) \<and> (ex = e \<or> \<bar>ex\<bar> = 1000001)"
proof (cases "\<exists>c r1. r = c # r1 \<and> (c = CHR ''e'' \<or> c = CHR ''E'')")
  case True
  then obtain c r1 where r: "r = c # r1" and c: "c = CHR ''e'' \<or> c = CHR ''E''" by blast
  define neg where "neg = (case r1 of s # _ \<Rightarrow> s = CHR ''-'' | [] \<Rightarrow> False)"
  define r2 where "r2 = (case r1 of s # t \<Rightarrow> if s = CHR ''+'' \<or> s = CHR ''-'' then t else r1 | [] \<Rightarrow> r1)"
  have "foldl exp_step 0 (takeWhile is_digit r2) = int (digits_val (takeWhile is_digit r2))
      \<or> 1000000 < foldl exp_step 0 (takeWhile is_digit r2)"
    using exp_saturates [of "takeWhile is_digit r2"] by (auto dest: set_takeWhileD)
  then show ?thesis
    using assms c by (auto simp: r scan_exp_def exp_value_def Let_def neg_def [symmetric] r2_def [symmetric] split: if_splits)
qed (use assms in \<open>auto simp: scan_exp_def exp_value_def split: list.splits if_splits\<close>)

lemma scan_exp_None: "scan_exp r = None \<longleftrightarrow> exp_value r = None"
  by (cases r) (auto simp: scan_exp_def exp_value_def Let_def)

lemma canonical_digits_form:
  assumes "\<forall>c \<in> set (ids @ fds). is_digit c" "canonical_digits request neg ids fds ex = Inr (Some c)"
  shows "c = ''0'' \<and> digits_val (ids @ fds) = 0 \<or>
    (\<exists>core t. core_ok core \<and> c = render_number neg core (ex - int (length fds) + int t)
      \<and> (\<forall>s. decimal neg (ids @ fds) s = decimal neg core (int t + s)) \<and> t \<le> length ids + length fds
      \<and> length core \<le> maxTypedFilterSignificant
      \<and> \<bar>int (length core) - 1 + (ex - int (length fds) + int t)\<bar> \<le> maxTypedFilterExponent)"
proof (cases "\<exists>c \<in> set (ids @ fds). c \<noteq> CHR ''0''")
  case False
  then show ?thesis
    using assms(2) first_nonzero_None [of 0 "ids @ fds"] all_zero_val [of "ids @ fds"]
    by (auto simp: canonical_digits_def)
next
  case True
  then obtain f core t where ds: "ids @ fds = replicate f CHR ''0'' @ core @ replicate t CHR ''0''" and
    core: "core \<noteq> []" "hd core \<noteq> CHR ''0''" "last core \<noteq> CHR ''0''"
    by (rule strip_zeros)
  have ok: "core_ok core" using core assms(1) unfolding ds by (auto simp: core_ok_def)
  have first: "first_nonzero 0 (ids @ fds) = Some f"
    using first_nonzero_zeros [of "hd core" 0 f "tl core @ replicate t CHR ''0''"] core by (cases core) (simp_all add: ds)
  have "core = butlast core @ [last core]" using core(1) by simp
  then have "ids @ fds = (replicate f CHR ''0'' @ butlast core) @ last core # replicate t CHR ''0''"
    unfolding ds by (metis append.assoc append_Cons append_Nil)
  then have lst: "last_nonzero 0 0 (ids @ fds) = f + (length core - 1)"
    using last_nonzero_last [OF core(3), of 0 0 "replicate f CHR ''0'' @ butlast core" t] by simp
  have len: "length (ids @ fds) = f + length core + t" by (simp add: ds)
  have n: "0 < length core" using core(1) by simp
  have form: "take (length core) (drop f (ids @ fds)) = core" "f + (length core - 1) - f + 1 = length core"
    "length (ids @ fds) - 1 - (f + (length core - 1)) = t"
    using n unfolding ds by simp_all
  from assms(2) have "c = render_number neg core (ex - int (length fds) + int t)"
    "length core \<le> maxTypedFilterSignificant"
    "\<bar>int (length core) - 1 + (ex - int (length fds) + int t)\<bar> \<le> maxTypedFilterExponent"
    unfolding canonical_digits_def Let_def first option.case lst form by (auto split: if_splits)
  moreover have "decimal neg (ids @ fds) s = decimal neg core (int t + s)" for s
    unfolding ds by (rule decimal_zeros)
  moreover have "t \<le> length ids + length fds" using len by simp
  ultimately show ?thesis using ok by blast
qed

lemma canonical_form:
  assumes can: "canonicalNumberToken tok request = Inr (Some c)" and len: "length tok \<le> 999000"
  obtains "c = ''0''" "number_value tok = Some 0"
  | neg core s where "core_ok core" "c = render_number neg core s" "number_value tok = Some (decimal neg core s)"
proof -
  obtain c0 r where tok: "tok = c0 # r" using can by (cases tok) (auto simp: canonicalNumberToken_def split: if_splits)
  define neg where "neg \<longleftrightarrow> c0 = CHR ''-''"
  obtain ids r1 fds r2 ex where
    i: "scan_int (if neg then r else tok) = Some (ids, r1)" and f: "scan_frac r1 = Some (fds, r2)" and
    e: "scan_exp r2 = Some (ex, [])" and c: "canonical_digits request neg ids fds ex = Inr (Some c)"
    using can by (auto simp: canonicalNumberToken_def tok neg_def Let_def split: if_splits option.splits prod.splits)
  obtain e1 where e1: "exp_value r2 = Some (e1, [])" "ex = e1 \<or> \<bar>ex\<bar> = 1000001"
    using scan_exp_exact [OF e] by blast
  have v: "number_value tok = Some (decimal neg (ids @ fds) (e1 - int (length fds)))"
    using i f e1(1) by (cases "c0 = CHR ''-''") (simp_all add: number_value_def tok neg_def)
  have dg: "\<forall>c \<in> set (ids @ fds). is_digit c" and small: "length ids + length fds \<le> length tok"
    using scan_int_set [OF i] scan_frac_set [OF f] by (auto simp: tok split: if_splits)
  from canonical_digits_form [OF dg c] show ?thesis
  proof (elim disjE exE conjE)
    fix core t
    assume ok: "core_ok core" and r: "c = render_number neg core (ex - int (length fds) + int t)"
      and d: "\<forall>s. decimal neg (ids @ fds) s = decimal neg core (int t + s)" and t: "t \<le> length ids + length fds"
      and sig: "length core \<le> maxTypedFilterSignificant"
      and m: "\<bar>int (length core) - 1 + (ex - int (length fds) + int t)\<bar> \<le> maxTypedFilterExponent"
    have "\<bar>ex\<bar> \<noteq> 1000001"
      using m sig t small len by (simp add: maxTypedFilterExponent_def maxTypedFilterSignificant_def)
    then have "ex = e1" using e1(2) by simp
    then show ?thesis
      using that(2) [OF ok r] d v by (simp add: algebra_simps)
  qed (use v that(1) in \<open>simp add: decimal_def\<close>)
qed

lemma render_zero: "core_ok core \<Longrightarrow> render_number neg core s \<noteq> ''0''"
  using number_value_render [of core neg s] core_not_dvd(2) [of core]
  by (auto simp: decimal_def number_value_def scan_int_def scan_frac_def exp_value_def split: if_splits)

lemma canonical_equal_iff:
  assumes "canonicalNumberToken t1 r1 = Inr (Some c1)" "length t1 \<le> 999000"
    and "canonicalNumberToken t2 r2 = Inr (Some c2)" "length t2 \<le> 999000"
  shows "c1 = c2 \<longleftrightarrow> number_value t1 = number_value t2" "number_value t1 \<noteq> None" "number_value c1 = number_value t1"
proof -
  have z: "number_value ''0'' = Some 0"
    by (simp add: number_value_def scan_int_def scan_frac_def exp_value_def decimal_def)
  have nz: "decimal neg core s \<noteq> 0" if "core_ok core" for neg core s
    using core_not_dvd(2) [OF that] by (simp add: decimal_def)
  show "number_value t1 \<noteq> None" "number_value c1 = number_value t1"
    by (rule canonical_form [OF assms(1,2)]; simp add: z number_value_render)+
  show "c1 = c2 \<longleftrightarrow> number_value t1 = number_value t2"
    by (rule canonical_form [OF assms(1,2)]; rule canonical_form [OF assms(3,4)])
      (auto simp: nz nz [symmetric] render_zero render_zero [symmetric] number_value_render
        dest: decimal_unique arg_cong [where f = number_value])
qed

subsection \<open>The two grammars agree\<close>

definition number_ok :: "string \<Rightarrow> bool" where
  "number_ok r = (case scan_int r of None \<Rightarrow> False | Some (ids, r1) \<Rightarrow>
     (case scan_frac r1 of None \<Rightarrow> False | Some (fds, r2) \<Rightarrow>
       (case exp_value r2 of None \<Rightarrow> False | Some (ex, r3) \<Rightarrow> r3 = [])))"

lemma number_ok_value:
  "number_value tok \<noteq> None \<longleftrightarrow> (case tok of [] \<Rightarrow> False | c # r \<Rightarrow> number_ok (if c = CHR ''-'' then r else tok))"
  by (cases tok) (auto simp: number_value_def number_ok_def split: option.splits prod.splits)

lemma number_ok_canonical:
  "isl (canonicalNumberToken tok False) \<longleftrightarrow> number_value tok = None"
proof (cases tok)
  case (Cons c r)
  have dig: "\<not> isl (canonical_digits False neg ids fds ex)" for neg ids fds ex
    by (auto simp: canonical_digits_def Let_def split: option.splits)
  have ex: "scan_exp r2 = Some (x, r3) \<Longrightarrow> \<exists>e. exp_value r2 = Some (e, r3)" for r2 x r3
    using scan_exp_exact by blast
  show ?thesis
  proof (cases "scan_int (if c = CHR ''-'' then r else tok)")
    case (Some ir)
    obtain ids r1 where i: "scan_int (if c = CHR ''-'' then r else tok) = Some (ids, r1)" using Some by (cases ir) auto
    show ?thesis
    proof (cases "scan_frac r1")
      case (Some fr)
      then obtain fds r2 where f: "scan_frac r1 = Some (fds, r2)" by (cases fr) auto
      show ?thesis
        using i f dig ex [of r2] scan_exp_None [of r2]
        by (cases "scan_exp r2") (auto simp: canonicalNumberToken_def number_value_def Cons Let_def)
    qed (use i in \<open>auto simp: canonicalNumberToken_def number_value_def Cons Let_def\<close>)
  qed (auto simp: canonicalNumberToken_def number_value_def Cons Let_def)
qed (simp add: canonicalNumberToken_def number_value_def)

lemma valid_scalar_number:
  "validScalarToken tok \<longleftrightarrow> tok \<in> {''true'', ''false'', ''null''} \<or> number_value tok \<noteq> None"
proof -
  have frac: "(case r1 of d # t1 \<Rightarrow> if d = CHR ''.'' then
        (if takeWhile is_digit t1 = [] then None else Some (dropWhile is_digit t1)) else Some r1 | [] \<Rightarrow> Some r1)
      = map_option snd (scan_frac r1)" for r1
    by (cases r1) (auto simp: scan_frac_def)
  have expo: "(case r2 of e # t2 \<Rightarrow> if e = CHR ''e'' \<or> e = CHR ''E'' then
          (let t3 = (case t2 of s # t \<Rightarrow> if s = CHR ''+'' \<or> s = CHR ''-'' then t else t2 | [] \<Rightarrow> t2)
           in takeWhile is_digit t3 \<noteq> [] \<and> dropWhile is_digit t3 = []) else False | [] \<Rightarrow> True)
      = (case exp_value r2 of None \<Rightarrow> False | Some (ex, r3) \<Rightarrow> r3 = [])" for r2
    by (cases r2) (auto simp: exp_value_def Let_def)
  have rest: "\<not> (case scan_frac (d # t) of None \<Rightarrow> False | Some (fds, r2) \<Rightarrow>
      (case exp_value r2 of None \<Rightarrow> False | Some (ex, r3) \<Rightarrow> r3 = []))" if "is_digit d" for d t
    using that by (auto simp: scan_frac_def exp_value_def is_digit_def)
  have body: "(case r of [] \<Rightarrow> False | c # t \<Rightarrow>
      (case (if c = CHR ''0'' then Some t else if is_digit c then Some (dropWhile is_digit r) else None) of
         None \<Rightarrow> False
       | Some r1 \<Rightarrow> (case map_option snd (scan_frac r1) of
           None \<Rightarrow> False | Some r2 \<Rightarrow> (case exp_value r2 of None \<Rightarrow> False | Some (ex, r3) \<Rightarrow> r3 = []))))
     = number_ok r" for r
  proof (cases r)
    case (Cons c t)
    show ?thesis
    proof (cases "c = CHR ''0'' \<and> t \<noteq> [] \<and> is_digit (hd t)")
      case True
      then have "number_ok r = False" by (cases t) (auto simp: Cons number_ok_def scan_int_def)
      then show ?thesis using True rest [of "hd t" "tl t"] by (auto simp: Cons split: option.splits prod.splits)
    next
      case False
      then have "scan_int r = (if c = CHR ''0'' then Some ([c], t) else
          if is_digit c then Some (takeWhile is_digit r, dropWhile is_digit r) else None)"
        by (cases t) (auto simp: Cons scan_int_def)
      then show ?thesis by (auto simp: Cons number_ok_def split: option.splits prod.splits)
    qed
  qed (simp add: number_ok_def scan_int_def)
  show ?thesis
  proof -
    define r where "r = (case tok of c # t \<Rightarrow> if c = CHR ''-'' then t else tok | [] \<Rightarrow> tok)"
    have "validScalarToken tok = (if tok = ''true'' \<or> tok = ''false'' \<or> tok = ''null'' then True else number_ok r)"
      unfolding validScalarToken_def Let_def r_def [symmetric] frac expo [unfolded Let_def] using body [of r] by argo
    moreover have "number_ok r = (number_value tok \<noteq> None)"
      unfolding number_ok_value r_def by (cases tok) (simp_all add: number_ok_def scan_int_def)
    ultimately show ?thesis by auto
  qed
qed

subsection \<open>Order\<close>

definition frac_val :: "string \<Rightarrow> rat" where
  "frac_val ds = of_nat (digits_val ds) / 10 ^ length ds"

lemma digits_val_Cons: "digits_val (c # cs) = digit_val c * 10 ^ length cs + digits_val cs"
  using digits_val_append [of "[c]" cs] by simp

lemma frac_val_simps [simp]:
  "frac_val [] = 0" "frac_val (c # cs) = (of_nat (digit_val c) + frac_val cs) / 10"
  by (simp_all add: frac_val_def digits_val_Cons field_simps)

lemma frac_val_bounds: "0 \<le> frac_val ds" "\<forall>c \<in> set ds. is_digit c \<Longrightarrow> frac_val ds < 1"
proof -
  show "0 \<le> frac_val ds" by (simp add: frac_val_def)
  assume "\<forall>c \<in> set ds. is_digit c"
  then have "of_nat (digits_val ds) < (of_nat (10 ^ length ds) :: rat)" by (simp only: of_nat_less_iff digits_val_bound)
  then show "frac_val ds < 1" by (simp add: frac_val_def)
qed

lemma digit_val_compare:
  assumes "is_digit x" "is_digit y"
  shows "int (of_char x) - int (of_char y) = int (digit_val x) - int (digit_val y)" "x < y \<longleftrightarrow> digit_val x < digit_val y"
  using assms by (auto simp: is_digit_byte digit_val_def less_char_def)

lemma high_digit: "a < P \<Longrightarrow> x < y \<Longrightarrow> x * P + a < y * P + (b :: nat)"
proof -
  assume "a < P" "x < y"
  then have "Suc x * P \<le> y * P" by (intro mult_le_mono1) simp
  then show "x * P + a < y * P + b" using \<open>a < P\<close> by simp
qed

lemma str_compare_digits:
  assumes "length xs = length ys" "\<forall>c \<in> set xs. is_digit c" "\<forall>c \<in> set ys. is_digit c"
  shows "(str_compare xs ys < 0 \<longleftrightarrow> digits_val xs < digits_val ys) \<and> (str_compare xs ys = 0 \<longleftrightarrow> xs = ys)"
  using assms
proof (induction xs ys rule: list_induct2)
  case (Cons x xs y ys)
  have b: "digits_val xs < 10 ^ length ys" "digits_val ys < 10 ^ length ys"
    using digits_val_bound [of xs] digits_val_bound [of ys] Cons by auto
  have d: "is_digit x" "is_digit y" using Cons.prems by auto
  show ?case
  proof (cases "x = y")
    case True
    then show ?thesis using Cons by (simp add: digits_val_Cons)
  next
    case False
    then have ne: "digit_val x \<noteq> digit_val y" using d digit_val_inj by blast
    then consider "digit_val x < digit_val y" | "digit_val y < digit_val x" by linarith
    then show ?thesis
    proof cases
      case 1
      then show ?thesis
        using False high_digit [OF b(1) 1] Cons.hyps by (simp add: digits_val_Cons digit_val_compare(2) [OF d])
    next
      case 2
      have "\<not> digits_val (x # xs) < digits_val (y # ys)"
        using high_digit [OF b(2) 2, of "digits_val xs"] Cons.hyps by (simp add: digits_val_Cons)
      then show ?thesis using False 2 digit_val_compare(2) [OF d] by simp
    qed
  qed
qed simp

lemma frac_val_zero: "(\<forall>c \<in> set ds. is_digit c) \<Longrightarrow> frac_val ds = 0 \<longleftrightarrow> (\<forall>c \<in> set ds. c = CHR ''0'')"
proof (induction ds)
  case (Cons c ds)
  then show ?case using frac_val_bounds(1) [of ds] digit_zero [of c] by (auto simp: add_nonneg_eq_0_iff)
qed simp

lemma frac_compare_val:
  assumes "\<forall>c \<in> set xs. is_digit c" "\<forall>c \<in> set ys. is_digit c"
  shows "(frac_compare xs ys < 0 \<longleftrightarrow> frac_val xs < frac_val ys) \<and> (frac_compare xs ys = 0 \<longleftrightarrow> frac_val xs = frac_val ys)"
  using assms
proof (induction xs ys rule: frac_compare.induct)
  case (2 x xs)
  have d: "digit_val x = 0 \<longleftrightarrow> x = CHR ''0''" "int (of_char x) - 48 = int (digit_val x)"
    using 2(2) digit_zero [of x] digit_val_compare(1) [of x "CHR ''0''"] by auto
  show ?case using 2 d frac_val_bounds(1) [of xs] by (cases "x = CHR ''0''") (auto simp: add_nonneg_eq_0_iff)
next
  case (3 y ys)
  have d: "digit_val y = 0 \<longleftrightarrow> y = CHR ''0''" "48 - int (of_char y) = - int (digit_val y)"
    using 3(3) digit_zero [of y] digit_val_compare(1) [of "CHR ''0''" y] by auto
  show ?case using 3 d frac_val_bounds(1) [of ys] by (cases "y = CHR ''0''") (auto simp: add_pos_nonneg)
next
  case (4 x xs y ys)
  have d: "is_digit x" "is_digit y" using 4 by auto
  have bx: "0 \<le> frac_val xs" "frac_val xs < 1" "0 \<le> frac_val ys" "frac_val ys < 1"
    using 4 frac_val_bounds [of xs] frac_val_bounds [of ys] by auto
  show ?case
  proof (cases "x = y")
    case False
    then have "digit_val x \<noteq> digit_val y" using d digit_val_inj by blast
    then consider "digit_val x + 1 \<le> digit_val y" | "digit_val y + 1 \<le> digit_val x" by linarith
    then have "(digit_val x < digit_val y \<longleftrightarrow> of_nat (digit_val x) + frac_val xs < of_nat (digit_val y) + frac_val ys)
        \<and> of_nat (digit_val x) + frac_val xs \<noteq> of_nat (digit_val y) + frac_val ys"
    proof cases
      case 1
      then have "of_nat (digit_val x + 1) \<le> (of_nat (digit_val y) :: rat)" by (simp only: of_nat_le_iff)
      then show ?thesis using 1 bx by simp
    next
      case 2
      then have "of_nat (digit_val y + 1) \<le> (of_nat (digit_val x) :: rat)" by (simp only: of_nat_le_iff)
      then show ?thesis using 2 bx by simp
    qed
    moreover define A B where "A = of_nat (digit_val x) + frac_val xs" and "B = of_nat (digit_val y) + frac_val ys"
    ultimately have "(digit_val x < digit_val y \<longleftrightarrow> A < B) \<and> A \<noteq> B" by simp
    moreover have "frac_val (x # xs) < frac_val (y # ys) \<longleftrightarrow> A < B" "frac_val (x # xs) = frac_val (y # ys) \<longleftrightarrow> A = B"
      unfolding frac_val_simps A_def [symmetric] B_def [symmetric] by simp_all
    ultimately show ?thesis using False \<open>digit_val x \<noteq> digit_val y\<close>
      by (simp add: digit_val_compare(1) [OF d] del: frac_val_simps)
  qed (use 4 in auto)
qed simp

text \<open>A canonical magnitude: an integer part without superfluous zeros and a possibly empty fraction.\<close>

definition mag_ok :: "string \<Rightarrow> string \<Rightarrow> bool" where
  "mag_ok I F \<longleftrightarrow> I \<noteq> [] \<and> (\<forall>c \<in> set I. is_digit c) \<and> (\<forall>c \<in> set F. is_digit c) \<and> (I = ''0'' \<or> hd I \<noteq> CHR ''0'')"

definition mag_str :: "string \<Rightarrow> string \<Rightarrow> string" where
  "mag_str I F = I @ (if F = [] then [] else CHR ''.'' # F)"

definition mag_val :: "string \<Rightarrow> string \<Rightarrow> rat" where
  "mag_val I F = of_nat (digits_val I) + frac_val F"

lemma render_mag:
  assumes "core_ok core"
  shows "\<exists>I F. mag_ok I F \<and> render_number neg core s = (if neg then ''-'' else '''') @ mag_str I F"
proof -
  let ?p = "int (length core) + s"
  have d: "core \<noteq> []" "\<forall>c \<in> set core. is_digit c" "hd core \<noteq> CHR ''0''" using assms by (simp_all add: core_ok_def)
  consider "?p \<le> 0" | "0 < ?p" "?p < int (length core)" | "0 < ?p" "int (length core) \<le> ?p" by linarith
  then show ?thesis
  proof cases
    case 1
    let ?F = "replicate (nat (- ?p)) CHR ''0'' @ core"
    have "mag_ok ''0'' ?F" using d by (auto simp: mag_ok_def)
    then show ?thesis using 1 d(1) by (intro exI [of _ "''0''"] exI [of _ ?F]) (simp add: render_number_def Let_def mag_str_def)
  next
    case 2
    let ?k = "nat ?p"
    have "mag_ok (take ?k core) (drop ?k core)"
      using 2 d by (auto simp: mag_ok_def hd_take dest: in_set_takeD in_set_dropD)
    then show ?thesis using 2
      by (intro exI [of _ "take ?k core"] exI [of _ "drop ?k core"]) (auto simp: render_number_def Let_def mag_str_def)
  next
    case 3
    let ?I = "core @ replicate (nat (?p - int (length core))) CHR ''0''"
    have "mag_ok ?I []" using d by (auto simp: mag_ok_def hd_append)
    then show ?thesis using 3 by (intro exI [of _ ?I] exI [of _ "[]"]) (auto simp: render_number_def Let_def mag_str_def)
  qed
qed

lemma number_value_mag:
  assumes "mag_ok I F"
  shows "number_value ((if neg then ''-'' else '''') @ mag_str I F) = Some ((if neg then - 1 else 1) * mag_val I F)"
proof -
  let ?t = "if F = [] then [] else CHR ''.'' # F"
  have m: "I \<noteq> []" "\<forall>c \<in> set I. is_digit c" "\<forall>c \<in> set F. is_digit c" "I = ''0'' \<or> hd I \<noteq> CHR ''0''"
    using assms by (simp_all add: mag_ok_def)
  have i: "scan_int (I @ ?t) = Some (I, ?t)"
    using m scan_int_digits [of I ?t] by (cases "I = ''0''") (auto simp: scan_int_def)
  have f: "scan_frac ?t = Some (F, [])"
    using m(3) scan_frac_digits [of F] by (simp add: scan_frac_def)
  have "hd (I @ ?t) \<noteq> CHR ''-''" using m(1,2) by (metis hd_append2 hd_in_set not_digit(2))
  from number_value_scanned [OF refl _ this i f] m(1)
  have "number_value ((if neg then ''-'' else '''') @ mag_str I F) = Some (decimal neg (I @ F) (- int (length F)))"
    by (simp add: mag_str_def)
  also have "decimal neg (I @ F) (- int (length F)) = (if neg then - 1 else 1) * mag_val I F"
    by (simp add: decimal_def mag_val_def frac_val_def digits_val_append power_int_minus field_simps)
  finally show ?thesis .
qed

lemma mag_compare:
  assumes a: "mag_ok I F" and b: "mag_ok J G"
  shows "(compareCanonicalMagnitudes (mag_str I F) (mag_str J G) < 0 \<longleftrightarrow> mag_val I F < mag_val J G)
    \<and> (compareCanonicalMagnitudes (mag_str I F) (mag_str J G) = 0 \<longleftrightarrow> mag_val I F = mag_val J G)"
proof -
  have dot: "(case index_byte CHR ''.'' (mag_str K H) of None \<Rightarrow> length (mag_str K H) | Some i \<Rightarrow> i) = length K"
    "take (length K) (mag_str K H) = K" "drop (length K + 1) (mag_str K H) = H" if "mag_ok K H" for K H
  proof -
    have n: "\<forall>c \<in> set K. c \<noteq> CHR ''.''" using that not_digit(1) by (auto simp: mag_ok_def)
    then show "(case index_byte CHR ''.'' (mag_str K H) of None \<Rightarrow> length (mag_str K H) | Some i \<Rightarrow> i) = length K"
      by (auto simp: index_byte_def mag_str_def takeWhile_append takeWhile_eq_all_conv)
    show "take (length K) (mag_str K H) = K" "drop (length K + 1) (mag_str K H) = H" by (simp_all add: mag_str_def)
  qed
  have fr: "0 \<le> frac_val F" "frac_val F < 1" "0 \<le> frac_val G" "frac_val G < 1"
    using a b frac_val_bounds by (auto simp: mag_ok_def)
  have big: "mag_val K H < mag_val L M" if "mag_ok K H" "mag_ok L M" "length K < length L" for K H L M
  proof -
    have "digits_val K < 10 ^ length K" using that(1) digits_val_bound by (auto simp: mag_ok_def)
    also have "(10 :: nat) ^ length K \<le> 10 ^ (length L - 1)" using that(3) by (intro power_increasing) auto
    also have "10 ^ (length L - 1) \<le> digits_val L"
      using that digits_val_ge [of "hd L" "tl L"] by (cases L) (auto simp: mag_ok_def)
    finally have "of_nat (digits_val K + 1) \<le> (of_nat (digits_val L) :: rat)" by (simp only: of_nat_le_iff)
    moreover have "frac_val H < 1" "0 \<le> frac_val M" using that frac_val_bounds by (auto simp: mag_ok_def)
    ultimately show ?thesis by (simp add: mag_val_def)
  qed
  show ?thesis
  proof (cases "length I = length J")
    case False
    then consider "length I < length J" | "length J < length I" by linarith
    then show ?thesis
    proof cases
      case 1
      then show ?thesis using big [OF a b] by (simp add: compareCanonicalMagnitudes_def Let_def dot [OF a] dot [OF b])
    next
      case 2
      then show ?thesis using big [OF b a] by (simp add: compareCanonicalMagnitudes_def Let_def dot [OF a] dot [OF b])
    qed
  next
    case True
    have sc: "(str_compare I J < 0 \<longleftrightarrow> digits_val I < digits_val J) \<and> (str_compare I J = 0 \<longleftrightarrow> I = J)"
      using str_compare_digits [OF True] a b by (simp add: mag_ok_def)
    have cmp: "compareCanonicalMagnitudes (mag_str I F) (mag_str J G) =
        (if str_compare I J \<noteq> 0 then str_compare I J else frac_compare F G)"
      using dot [OF a] dot [OF b] True by (simp add: compareCanonicalMagnitudes_def Let_def)
    show ?thesis
    proof (cases "I = J")
      case True
      then show ?thesis using cmp sc frac_compare_val [of F G] a b by (simp add: mag_ok_def mag_val_def)
    next
      case ne: False
      then have "digits_val I \<noteq> digits_val J" using digits_val_inj [of I J] True a b by (auto simp: mag_ok_def)
      then consider "digits_val I + 1 \<le> digits_val J" | "digits_val J + 1 \<le> digits_val I" by linarith
      then show ?thesis
      proof cases
        case 1
        then have "of_nat (digits_val I + 1) \<le> (of_nat (digits_val J) :: rat)" by (simp only: of_nat_le_iff)
        then show ?thesis using 1 ne sc fr by (simp add: cmp mag_val_def)
      next
        case 2
        then have "of_nat (digits_val J + 1) \<le> (of_nat (digits_val I) :: rat)" by (simp only: of_nat_le_iff)
        then show ?thesis using 2 ne sc fr by (simp add: cmp mag_val_def)
      qed
    qed
  qed
qed

lemma canonical_mag:
  assumes "canonicalNumberToken tok r = Inr (Some c)" "length tok \<le> 999000"
  obtains neg I F where "mag_ok I F" "c = (if neg then ''-'' else '''') @ mag_str I F" "neg \<longrightarrow> 0 < mag_val I F" "0 \<le> mag_val I F"
proof -
  have nn: "0 \<le> mag_val I F" for I F using frac_val_bounds(1) [of F] by (simp add: mag_val_def)
  from assms show ?thesis
  proof (cases rule: canonical_form)
    case 1
    show ?thesis by (rule that [of "''0''" "[]" False]) (simp_all add: 1 mag_ok_def mag_str_def nn)
  next
    case (2 neg core s)
    obtain I F where m: "mag_ok I F" "render_number neg core s = (if neg then ''-'' else '''') @ mag_str I F"
      using render_mag [OF 2(1)] by blast
    have "(if neg then - 1 else 1) * mag_val I F = decimal neg core s"
      using number_value_mag [OF m(1), of neg] number_value_render [OF 2(1), of neg s] m(2) by simp
    moreover have "decimal neg core s \<noteq> 0" using core_not_dvd(2) [OF 2(1)] by (simp add: decimal_def)
    ultimately have "mag_val I F \<noteq> 0" by auto
    then show ?thesis using nn [of I F] by (intro that [OF m(1)]) (auto simp: 2(2) m(2))
  qed
qed

lemma canonical_compare:
  assumes "canonicalNumberToken t1 r1 = Inr (Some c1)" "length t1 \<le> 999000"
    and "canonicalNumberToken t2 r2 = Inr (Some c2)" "length t2 \<le> 999000"
  shows "compareCanonicalNumbers c1 c2 < 0 \<longleftrightarrow> the (number_value t1) < the (number_value t2)"
    "compareCanonicalNumbers c1 c2 = 0 \<longleftrightarrow> number_value t1 = number_value t2"
proof -
  obtain n1 I F where 1: "mag_ok I F" "c1 = (if n1 then ''-'' else '''') @ mag_str I F" "n1 \<longrightarrow> 0 < mag_val I F" "0 \<le> mag_val I F"
    by (rule canonical_mag [OF assms(1,2)])
  obtain n2 J G where 2: "mag_ok J G" "c2 = (if n2 then ''-'' else '''') @ mag_str J G" "n2 \<longrightarrow> 0 < mag_val J G" "0 \<le> mag_val J G"
    by (rule canonical_mag [OF assms(3,4)])
  have v: "number_value t1 = Some ((if n1 then - 1 else 1) * mag_val I F)" "number_value t2 = Some ((if n2 then - 1 else 1) * mag_val J G)"
    using canonical_equal_iff(3) [OF assms] canonical_equal_iff(3) [OF assms(3,4,1,2)]
      number_value_mag [OF 1(1)] number_value_mag [OF 2(1)] by (simp_all add: 1(2) 2(2))
  have hd: "hd (mag_str K H) \<noteq> CHR ''-''" "mag_str K H \<noteq> []" if "mag_ok K H" for K H
    using that by (auto simp: mag_str_def mag_ok_def hd_append) (metis hd_in_set not_digit(2))+
  have neg: "take 1 ((if n then ''-'' else '''') @ mag_str K H) = ''-'' \<longleftrightarrow> n" if "mag_ok K H" for n K H
    using hd [OF that] by (cases "mag_str K H") auto
  note mc = mag_compare [OF 1(1) 2(1)]
  have eq: "c1 = c2 \<longleftrightarrow> number_value t1 = number_value t2" by (rule canonical_equal_iff(1) [OF assms])
  have "(compareCanonicalNumbers c1 c2 < 0 \<longleftrightarrow> the (number_value t1) < the (number_value t2))
      \<and> (compareCanonicalNumbers c1 c2 = 0 \<longleftrightarrow> number_value t1 = number_value t2)"
  proof (cases "c1 = c2")
    case True
    then show ?thesis using eq by (simp add: compareCanonicalNumbers_def)
  next
    case False
    have cmp: "compareCanonicalNumbers c1 c2 =
        (if n1 \<noteq> n2 then (if n1 then - 1 else 1)
         else if n1 then - compareCanonicalMagnitudes (mag_str I F) (mag_str J G)
         else compareCanonicalMagnitudes (mag_str I F) (mag_str J G))"
      using False neg [OF 1(1), of n1] neg [OF 2(1), of n2] by (auto simp: compareCanonicalNumbers_def Let_def 1(2) 2(2))
    have "(if n1 then - 1 else 1) * mag_val I F \<noteq> (if n2 then - 1 else 1) * mag_val J G" using False eq v by simp
    then show ?thesis using mc 1(3,4) 2(3,4) unfolding cmp v option.sel by (cases n1; cases n2) auto
  qed
  then show "compareCanonicalNumbers c1 c2 < 0 \<longleftrightarrow> the (number_value t1) < the (number_value t2)"
    "compareCanonicalNumbers c1 c2 = 0 \<longleftrightarrow> number_value t1 = number_value t2" by blast+
qed

subsection \<open>Properties\<close>

text \<open>
  C13: Numeric filter equality is mathematical equality. For tokens below a megabyte that the canonicalizer
  finds comparable (whether from a request or from a payload), the canonical spellings are equal exactly
  when the two JSON tokens denote the same number, the canonical spelling denotes that number too, and
  the comparison that orders IN sets is the numeric order.
\<close>

theorem number_canonical_exact:
  assumes "canonicalNumberToken t1 r1 = Inr (Some c1)" "length t1 \<le> 999000"
    and "canonicalNumberToken t2 r2 = Inr (Some c2)" "length t2 \<le> 999000"
  shows "(c1 = c2 \<longleftrightarrow> number_value t1 = number_value t2) \<and> number_value c1 = number_value t1
    \<and> (compareCanonicalNumbers c1 c2 < 0 \<longleftrightarrow> the (number_value t1) < the (number_value t2))
    \<and> (compareCanonicalNumbers c1 c2 = 0 \<longleftrightarrow> number_value t1 = number_value t2)"
  using canonical_equal_iff [OF assms] canonical_compare [OF assms] by simp

theorem number_canonical_exact_witness:
  "canonicalNumberToken ''-12.50e1'' True = Inr (Some ''-125'') \<and> canonicalNumberToken ''-0.125E+3'' False = Inr (Some ''-125'')
    \<and> number_value ''-12.50e1'' = number_value ''-0.125E+3''"
proof -
  have a: "canonicalNumberToken ''-12.50e1'' True = Inr (Some ''-125'')" by code_simp
  have b: "canonicalNumberToken ''-0.125E+3'' False = Inr (Some ''-125'')" by code_simp
  from number_canonical_exact [OF a _ b] a b show ?thesis by simp
qed

text \<open>
  The two hand-written number grammars agree. The scanner accepts a scalar token exactly when it is a
  literal or a token of the canonicalizer's grammar, so the canonicalizer never fails on a payload number
  that the scanner let through.
\<close>

lemma scalar_grammars_agree:
  "validScalarToken tok \<longleftrightarrow>
     tok = ''true'' \<or> tok = ''false'' \<or> tok = ''null'' \<or> (\<exists>c. canonicalNumberToken tok False = Inr c)"
proof -
  have "(\<exists>c. canonicalNumberToken tok False = Inr c) \<longleftrightarrow> number_value tok \<noteq> None"
    using number_ok_canonical [of tok] by (cases "canonicalNumberToken tok False") auto
  then show ?thesis using valid_scalar_number [of tok] by auto
qed

text \<open>The tokens \<open>0.\<close>\<open>0\<^sup>n\<close>\<open>1e5000000\<close>, for any number of zeros.\<close>

definition long_token :: "nat \<Rightarrow> string" where
  "long_token n = ''0.'' @ replicate n CHR ''0'' @ ''1e5000000''"

lemma long_token_read:
  "canonicalNumberToken (long_token n) False = canonical_digits False False ''0'' (replicate n CHR ''0'' @ ''1'') 1000001"
  "number_value (long_token n) = Some (decimal False (''0'' @ replicate n CHR ''0'' @ ''1'') (5000000 - int (n + 1)))"
proof -
  let ?f = "replicate n CHR ''0'' @ ''1''"
  have tw: "takeWhile is_digit (?f @ ''e5000000'') = ?f" "dropWhile is_digit (?f @ ''e5000000'') = ''e5000000''"
    by (rule take_digits; simp add: is_digit_def)+
  then have f: "scan_frac (CHR ''.'' # ?f @ ''e5000000'') = Some (?f, ''e5000000'')"
    by (simp only: scan_frac_def list.case) simp
  have e: "scan_exp ''e5000000'' = Some (1000001, [])" "exp_value ''e5000000'' = Some (5000000, [])"
    by (simp_all add: scan_exp_def exp_value_def is_digit_def exp_step_def digits_val_def digit_val_def)
  have tok: "long_token n = CHR ''0'' # CHR ''.'' # ?f @ ''e5000000''" by (simp add: long_token_def)
  have i: "scan_int (long_token n) = Some (''0'', CHR ''.'' # ?f @ ''e5000000'')"
    by (simp add: tok scan_int_def)
  have c: "long_token n \<noteq> []" "hd (long_token n) = CHR ''0''" by (simp_all add: tok)
  show "canonicalNumberToken (long_token n) False = canonical_digits False False ''0'' ?f 1000001"
    using c i f e(1) by (cases "long_token n") (simp_all add: canonicalNumberToken_def)
  show "number_value (long_token n) = Some (decimal False (''0'' @ ?f) (5000000 - int (n + 1)))"
    using c i f e(2) by (cases "long_token n") (simp_all add: number_value_def)
qed

lemma canonical_one:
  assumes "\<bar>ex - int (n + 1)\<bar> \<le> 200"
  shows "canonical_digits False False ''0'' (replicate n CHR ''0'' @ ''1'') ex = Inr (Some (render_number False ''1'' (ex - int (n + 1))))"
proof -
  have ds: "''0'' @ replicate n CHR ''0'' @ ''1'' = replicate (Suc n) CHR ''0'' @ CHR ''1'' # replicate 0 CHR ''0''" by simp
  have "first_nonzero 0 (''0'' @ replicate n CHR ''0'' @ ''1'') = Some (Suc n)"
    unfolding ds by (subst first_nonzero_zeros) simp_all
  moreover have "last_nonzero 0 0 (''0'' @ replicate n CHR ''0'' @ ''1'') = Suc n"
    unfolding ds by (subst last_nonzero_last) simp_all
  moreover have "length (''0'' @ replicate n CHR ''0'' @ ''1'') = n + 2" "drop (Suc n) (''0'' @ replicate n CHR ''0'' @ ''1'') = ''1''"
    by simp_all
  ultimately show ?thesis using assms
    by (auto simp: canonical_digits_def Let_def maxTypedFilterSignificant_def maxTypedFilterExponent_def abs_le_iff)
qed

text \<open>
  C37: Exponents saturate. The exponent accumulator stops above a million, so on a token with about a million
  fraction digits, which a payload line of \<open>maxLine\<close> bytes can hold, the canonical form is not
  the number's: this 1,000,011-byte spelling of ten to the power 3,999,999 canonicalizes to \<open>1\<close>.
\<close>

theorem exponent_saturation_misreads:
  "canonicalNumberToken (long_token 1000000) False = Inr (Some ''1'')
    \<and> number_value (long_token 1000000) = Some (10 powi 3999999) \<and> length (long_token 1000000) = 1000011"
proof (intro conjI)
  have r: "render_number False ''1'' 0 = ''1''" by (simp add: render_number_def)
  show "canonicalNumberToken (long_token 1000000) False = Inr (Some ''1'')"
    unfolding long_token_read(1) by (subst canonical_one) (simp_all add: r)
  have "decimal False ''1'' s = 10 powi s" for s by (simp add: decimal_def digit_val_def)
  moreover have "decimal False (''0'' @ replicate n CHR ''0'' @ ''1'') s = decimal False ''1'' s" for n s
    using decimal_zeros [of False "Suc n" "''1''" 0 s] by simp
  ultimately have "number_value (long_token n) = Some (10 powi (5000000 - int (n + 1)))" for n
    unfolding long_token_read(2) by simp
  moreover have "5000000 - int (1000000 + 1) = 3999999" by simp
  ultimately show "number_value (long_token 1000000) = Some (10 powi 3999999)" by metis
  have "length (long_token n) = n + 11" for n by (simp add: long_token_def)
  from this [of 1000000] show "length (long_token 1000000) = 1000011" by simp
qed

end
