(* ===== verification/Payload_Scan.thy ===== *)
theory Payload_Scan
  imports Filter_Number
begin

text \<open>
  The payload scanner behind query-time filters (\<open>engine/payload.go\<close>, and \<open>compiledFilter.eval\<close> of
  \<open>engine/filter.go\<close>): one strict pass over a payload's JSON bytes that walks a trie of declared paths and
  collects, in a bit mask, the filter terms some reached value satisfies. The cursor is the list of bytes
  not yet consumed; a string token is returned as its inner bytes.

  The recursive functions take fuel, one unit per call. \<open>scan_fuel\<close> gives every payload enough, which is
  proved below: running out (\<open>OutOfFuel\<close>) is not a result of a scan.
\<close>

datatype scan_error =
    TruncatedValue | BadString | InvalidScalar | BadObjectKey | MissingColon | TruncatedObject | BadObjectSeparator
  | TruncatedArray | BadArraySeparator | EmptyValue | TrailingData | OutOfFuel

subsection \<open>Tokens\<close>

definition is_ws :: "char \<Rightarrow> bool" where
  "is_ws c \<longleftrightarrow> c = CHR '' '' \<or> c = CHR 0x09 \<or> c = CHR 0x0A \<or> c = CHR 0x0D"

definition ws :: "string \<Rightarrow> string" where
  "ws r = dropWhile is_ws r"

definition hasControl :: "string \<Rightarrow> bool" where
  "hasControl b \<longleftrightarrow> (\<exists>c \<in> set b. byte c < 32)"

definition isHex :: "char \<Rightarrow> bool" where
  "isHex c \<longleftrightarrow> CHR ''0'' \<le> c \<and> c \<le> CHR ''9'' \<or> CHR ''a'' \<le> c \<and> c \<le> CHR ''f'' \<or> CHR ''A'' \<le> c \<and> c \<le> CHR ''F''"

definition quote :: char where "quote = CHR 0x22"
definition backslash :: char where "backslash = CHR 0x5C"

definition simple_escapes :: "char set" where
  "simple_escapes = {quote, backslash, CHR ''/'', CHR ''b'', CHR ''f'', CHR ''n'', CHR ''r'', CHR ''t''}"

text \<open>\<open>escape_len e\<close>: the length of the valid escape that \<open>e\<close> starts with, \<open>None\<close> if there is none.\<close>

definition escape_len :: "string \<Rightarrow> nat option" where
  "escape_len e = (case e of
     _ # x # t \<Rightarrow>
       if x \<in> simple_escapes then Some 2
       else if x = CHR ''u'' then
         (if length t < 4 then None else if list_all isHex (take 4 t) then Some 6 else None)
       else None
   | _ \<Rightarrow> None)"

lemma escape_len_bounds: "escape_len e = Some n \<Longrightarrow> 2 \<le> n \<and> n \<le> length e"
  by (auto simp: escape_len_def split: list.splits if_splits)

text \<open>The body of \<open>rawString\<close>, from behind the opening quote: the inner span and the rest.\<close>

function raw_body :: "string \<Rightarrow> (string \<times> string) option" where
  "raw_body rest =
     (case (index_byte quote rest, index_byte backslash rest) of
        (None, None) \<Rightarrow> None
      | (q, bs) \<Rightarrow>
          if bs \<noteq> None \<and> (q = None \<or> the bs < the q) then
            (if hasControl (take (the bs) rest) then None
             else case escape_len (drop (the bs) rest) of
               None \<Rightarrow> None
             | Some n \<Rightarrow>
                 map_option (\<lambda>(inner, r). (take (the bs + n) rest @ inner, r)) (raw_body (drop (the bs + n) rest)))
          else if hasControl (take (the q) rest) then None
          else Some (take (the q) rest, drop (the q + 1) rest))"
  by pat_completeness auto

lemma index_byte_Some:
  "index_byte c s = Some i \<Longrightarrow> i < length s \<and> s ! i = c \<and> c \<notin> set (take i s)"
proof -
  assume "index_byte c s = Some i"
  then have c: "c \<in> set s" and i: "i = length (takeWhile (\<lambda>x. x \<noteq> c) s)" by (auto simp: index_byte_def split: if_splits)
  have "i < length s" using c unfolding i by (induction s) auto
  moreover have "s ! i = c" using nth_length_takeWhile [of "\<lambda>x. x \<noteq> c" s] \<open>i < length s\<close> unfolding i by simp
  moreover have "take i s = takeWhile (\<lambda>x. x \<noteq> c) s" unfolding i by (rule takeWhile_eq_take [symmetric])
  ultimately show ?thesis by (auto dest: set_takeWhileD)
qed

termination raw_body
  by (relation "measure length") (auto dest!: escape_len_bounds)

declare raw_body.simps [simp del]

definition rawString :: "string \<Rightarrow> (string \<times> string) option" where
  "rawString r = (case r of c # t \<Rightarrow> if c = quote then raw_body t else None | [] \<Rightarrow> None)"

definition is_delim :: "char \<Rightarrow> bool" where
  "is_delim c \<longleftrightarrow> c \<in> set '',}]{[ '' \<or> c = quote \<or> c = CHR 0x09 \<or> c = CHR 0x0A \<or> c = CHR 0x0D"

definition rawScalar :: "string \<Rightarrow> scan_error + (string \<times> string)" where
  "rawScalar r =
     (let tok = takeWhile (\<lambda>c. \<not> is_delim c) r in
      if validScalarToken tok then Inr (tok, dropWhile (\<lambda>c. \<not> is_delim c) r) else Inl InvalidScalar)"

subsection \<open>Skipping a value\<close>

text \<open>\<open>skip\<close> at a position: \<open>skipValue\<close>, \<open>skipObject\<close> behind the brace, its member loop, \<open>skipArray\<close> behind the
  bracket, its element loop.\<close>

datatype scan_at = AtValue | AtObject | AtMembers | AtArray | AtElements

primrec skip :: "nat \<Rightarrow> scan_at \<Rightarrow> string \<Rightarrow> scan_error + string" where
  "skip 0 m r = Inl OutOfFuel"
| "skip (Suc k) m r = (case m of
     AtValue \<Rightarrow>
       (case ws r of
          [] \<Rightarrow> Inl TruncatedValue
        | c # t \<Rightarrow>
            if c = quote then (case rawString (c # t) of None \<Rightarrow> Inl BadString | Some (_, r1) \<Rightarrow> Inr r1)
            else if c = CHR ''{'' then skip k AtObject t
            else if c = CHR ''['' then skip k AtArray t
            else (case rawScalar (c # t) of Inl e \<Rightarrow> Inl e | Inr (_, r1) \<Rightarrow> Inr r1))
   | AtObject \<Rightarrow>
       (case ws r of c # t \<Rightarrow> if c = CHR ''}'' then Inr t else skip k AtMembers (c # t) | [] \<Rightarrow> skip k AtMembers [])
   | AtMembers \<Rightarrow>
       (case rawString (ws r) of
          None \<Rightarrow> Inl BadObjectKey
        | Some (_, r1) \<Rightarrow>
            (case ws r1 of
               [] \<Rightarrow> Inl MissingColon
             | c # r2 \<Rightarrow>
                 if c \<noteq> CHR '':'' then Inl MissingColon
                 else case skip k AtValue r2 of
                   Inl e \<Rightarrow> Inl e
                 | Inr r3 \<Rightarrow>
                     (case ws r3 of
                        [] \<Rightarrow> Inl TruncatedObject
                      | d # r4 \<Rightarrow>
                          if d = CHR '','' then skip k AtMembers r4
                          else if d = CHR ''}'' then Inr r4
                          else Inl BadObjectSeparator)))
   | AtArray \<Rightarrow>
       (case ws r of c # t \<Rightarrow> if c = CHR '']'' then Inr t else skip k AtElements (c # t) | [] \<Rightarrow> skip k AtElements [])
   | AtElements \<Rightarrow>
       (case skip k AtValue r of
          Inl e \<Rightarrow> Inl e
        | Inr r1 \<Rightarrow>
            (case ws r1 of
               [] \<Rightarrow> Inl TruncatedArray
             | d # r2 \<Rightarrow>
                 if d = CHR '','' then skip k AtElements r2
                 else if d = CHR '']'' then Inr r2
                 else Inl BadArraySeparator)))"

subsection \<open>Comparing strings\<close>

definition hex_val :: "char \<Rightarrow> nat" where
  "hex_val c = (if c \<le> CHR ''9'' then byte c - 48 else if c \<le> CHR ''F'' then byte c - 55 else byte c - 87)"

definition getu4 :: "string \<Rightarrow> nat option" where
  "getu4 s = (case s of
     a # b # h1 # h2 # h3 # h4 # _ \<Rightarrow>
       if a = backslash \<and> b = CHR ''u'' \<and> isHex h1 \<and> isHex h2 \<and> isHex h3 \<and> isHex h4
       then Some (((hex_val h1 * 16 + hex_val h2) * 16 + hex_val h3) * 16 + hex_val h4) else None
   | _ \<Rightarrow> None)"

definition utf16_decode :: "nat \<Rightarrow> nat option \<Rightarrow> nat option" where
  "utf16_decode r1 r2 = (case r2 of
     None \<Rightarrow> None
   | Some r2 \<Rightarrow>
       if 55296 \<le> r1 \<and> r1 < 56320 \<and> 56320 \<le> r2 \<and> r2 < 57344
       then Some ((r1 - 55296) * 1024 + (r2 - 56320) + 65536) else None)"

definition unescape :: "char \<Rightarrow> char option" where
  "unescape e =
     (if e = quote \<or> e = backslash \<or> e = CHR ''/'' then Some e
      else if e = CHR ''b'' then Some (CHR 0x08)
      else if e = CHR ''f'' then Some (CHR 0x0C)
      else if e = CHR ''n'' then Some (CHR 0x0A)
      else if e = CHR ''r'' then Some (CHR 0x0D)
      else if e = CHR ''t'' then Some (CHR 0x09)
      else None)"

text \<open>What \<open>json.Unmarshal\<close> makes of a string token with these inner bytes.\<close>

function (sequential) json_unquote :: "string \<Rightarrow> string option" where
  "json_unquote [] = Some []"
| "json_unquote (c # r) =
     (if c = backslash then
        (case r of
           [] \<Rightarrow> None
         | e # t \<Rightarrow>
             if e = CHR ''u'' then
               (case getu4 (c # r) of
                  None \<Rightarrow> None
                | Some rr \<Rightarrow>
                    if 55296 \<le> rr \<and> rr < 57344 then
                      (case utf16_decode rr (getu4 (drop 6 (c # r))) of
                         Some dec \<Rightarrow> map_option ((@) (encode_rune dec)) (json_unquote (drop 12 (c # r)))
                       | None \<Rightarrow> map_option ((@) (encode_rune rune_error)) (json_unquote (drop 6 (c # r))))
                    else map_option ((@) (encode_rune rr)) (json_unquote (drop 6 (c # r))))
             else (case unescape e of None \<Rightarrow> None | Some x \<Rightarrow> map_option ((#) x) (json_unquote t)))
      else if c = quote \<or> byte c < 32 then None
      else if byte c < 128 then map_option ((#) c) (json_unquote r)
      else map_option ((@) (encode_rune (chunk_rune (c # r)))) (json_unquote (drop (rune_width (c # r)) (c # r))))"
  by pat_completeness auto
termination
  by (relation "measure length") (auto simp: rune_width_pos)

declare json_unquote.simps(2) [simp del]

definition cleanASCII :: "string \<Rightarrow> bool" where
  "cleanASCII s \<longleftrightarrow> (\<forall>c \<in> set s. \<not> (byte c < 32 \<or> byte c > 126 \<or> c = quote \<or> c = backslash))"

definition decodedStringEq :: "string \<Rightarrow> string \<Rightarrow> bool \<Rightarrow> bool" where
  "decodedStringEq inner want wantClean =
     (if backslash \<notin> set inner \<and> wantClean \<and> valid_utf8 inner then inner = want
      else (case json_unquote inner of None \<Rightarrow> False | Some got \<Rightarrow> got = want))"

subsection \<open>Filter values and the path trie\<close>

datatype filterScalarKind = filterFalse | filterTrue | filterNumber | filterString

record filterScalar =
  fs_kind :: filterScalarKind
  fs_value :: string
  fs_clean :: bool

record filterValue =
  fv_in :: bool
  fv_scalars :: "filterScalar list"

definition matchesString :: "filterValue \<Rightarrow> string \<Rightarrow> bool" where
  "matchesString v inner \<longleftrightarrow>
     (\<exists>sc \<in> set (fv_scalars v). fs_kind sc = filterString \<and> decodedStringEq inner (fs_value sc) (fs_clean sc))"

definition matchesScalar :: "filterValue \<Rightarrow> string \<Rightarrow> bool" where
  "matchesScalar v token =
     (if token = ''false'' then (\<exists>sc \<in> set (fv_scalars v). fs_kind sc = filterFalse)
      else if token = ''true'' then (\<exists>sc \<in> set (fv_scalars v). fs_kind sc = filterTrue)
      else if token = ''null'' then False
      else case canonicalNumberToken token False of
        Inr (Some canonical) \<Rightarrow> (\<exists>sc \<in> set (fv_scalars v). fs_kind sc = filterNumber \<and> fs_value sc = canonical)
      | _ \<Rightarrow> False)"

text \<open>A node has its children by segment, each with the segment's clean flag, and the terms that end there.\<close>

datatype filterNode = FilterNode (children: "(string \<times> bool \<times> filterNode) list") (node_terms: "(u8 \<times> filterValue) list")

definition node_child :: "filterNode \<Rightarrow> string \<Rightarrow> filterNode option" where
  "node_child n inner =
     map_option (\<lambda>(seg, cl, c). c) (find (\<lambda>(seg, cl, c). decodedStringEq inner seg cl) (children n))"

definition fire_terms :: "(filterValue \<Rightarrow> bool) \<Rightarrow> (u8 \<times> filterValue) list \<Rightarrow> u8 \<Rightarrow> u8" where
  "fire_terms match ts bits = fold (\<lambda>(b, v) bits. if bits AND b = 0 \<and> match v then bits OR b else bits) ts bits"

subsection \<open>Walking a value\<close>

primrec walk :: "nat \<Rightarrow> scan_at \<Rightarrow> filterNode \<Rightarrow> u8 \<Rightarrow> string \<Rightarrow> scan_error + (u8 \<times> string)" where
  "walk 0 m n bits r = Inl OutOfFuel"
| "walk (Suc k) m n bits r = (case m of
     AtValue \<Rightarrow>
       (case ws r of
          [] \<Rightarrow> Inl EmptyValue
        | c # t \<Rightarrow>
            if c = CHR ''{'' then walk k AtObject n bits t
            else if c = CHR ''['' then walk k AtArray n bits t
            else if c = quote then
              (case rawString (c # t) of
                 None \<Rightarrow> Inl BadString
               | Some (inner, r1) \<Rightarrow> Inr (fire_terms (\<lambda>v. matchesString v inner) (node_terms n) bits, r1))
            else
              (case rawScalar (c # t) of
                 Inl e \<Rightarrow> Inl e
               | Inr (tok, r1) \<Rightarrow> Inr (fire_terms (\<lambda>v. matchesScalar v tok) (node_terms n) bits, r1)))
   | AtObject \<Rightarrow>
       (case ws r of c # t \<Rightarrow> if c = CHR ''}'' then Inr (bits, t) else walk k AtMembers n bits (c # t)
        | [] \<Rightarrow> walk k AtMembers n bits [])
   | AtMembers \<Rightarrow>
       (case rawString (ws r) of
          None \<Rightarrow> Inl BadObjectKey
        | Some (key, r1) \<Rightarrow>
            (case ws r1 of
               [] \<Rightarrow> Inl MissingColon
             | c # r2 \<Rightarrow>
                 if c \<noteq> CHR '':'' then Inl MissingColon
                 else
                   case (case node_child n key of
                           Some ch \<Rightarrow> walk k AtValue ch bits r2
                         | None \<Rightarrow> (case skip k AtValue r2 of Inl e \<Rightarrow> Inl e | Inr r3 \<Rightarrow> Inr (bits, r3))) of
                     Inl e \<Rightarrow> Inl e
                   | Inr (bits1, r3) \<Rightarrow>
                       (case ws r3 of
                          [] \<Rightarrow> Inl TruncatedObject
                        | d # r4 \<Rightarrow>
                            if d = CHR '','' then walk k AtMembers n bits1 r4
                            else if d = CHR ''}'' then Inr (bits1, r4)
                            else Inl BadObjectSeparator)))
   | AtArray \<Rightarrow>
       (case ws r of c # t \<Rightarrow> if c = CHR '']'' then Inr (bits, t) else walk k AtElements n bits (c # t)
        | [] \<Rightarrow> walk k AtElements n bits [])
   | AtElements \<Rightarrow>
       (case walk k AtValue n bits r of
          Inl e \<Rightarrow> Inl e
        | Inr (bits1, r1) \<Rightarrow>
            (case ws r1 of
               [] \<Rightarrow> Inl TruncatedArray
             | d # r2 \<Rightarrow>
                 if d = CHR '','' then walk k AtElements n bits1 r2
                 else if d = CHR '']'' then Inr (bits1, r2)
                 else Inl BadArraySeparator)))"

definition scan_fuel :: "string \<Rightarrow> nat" where
  "scan_fuel r = 3 * length r + 1"

text \<open>\<open>compiledFilter.eval\<close>, on the root of the trie and the all-terms mask.\<close>

definition eval_trie :: "filterNode \<Rightarrow> u8 \<Rightarrow> string \<Rightarrow> scan_error + bool" where
  "eval_trie rt full payload =
     (case walk (scan_fuel payload) AtValue rt 0 payload of
        Inl e \<Rightarrow> Inl e
      | Inr (bits, r) \<Rightarrow> if ws r \<noteq> [] then Inl TrailingData else Inr (bits = full))"

subsection \<open>The payload as a tree\<close>

text \<open>Strings and scalars keep their spelling; what they denote is read off below.\<close>

datatype json = JStr string | JScalar string | JArr "json list" | JObj "(string \<times> json) list"

definition cons_elem :: "json \<Rightarrow> json \<Rightarrow> json" where
  "cons_elem v a = (case a of JArr vs \<Rightarrow> JArr (v # vs) | _ \<Rightarrow> a)"

definition cons_member :: "string \<Rightarrow> json \<Rightarrow> json \<Rightarrow> json" where
  "cons_member key v ob = (case ob of JObj ms \<Rightarrow> JObj ((key, v) # ms) | _ \<Rightarrow> ob)"

primrec parse :: "nat \<Rightarrow> scan_at \<Rightarrow> string \<Rightarrow> (json \<times> string) option" where
  "parse 0 m r = None"
| "parse (Suc k) m r = (case m of
     AtValue \<Rightarrow>
       (case ws r of
          [] \<Rightarrow> None
        | c # t \<Rightarrow>
            if c = quote then map_option (\<lambda>(inner, r1). (JStr inner, r1)) (rawString (c # t))
            else if c = CHR ''{'' then parse k AtObject t
            else if c = CHR ''['' then parse k AtArray t
            else (case rawScalar (c # t) of Inl e \<Rightarrow> None | Inr (tok, r1) \<Rightarrow> Some (JScalar tok, r1)))
   | AtObject \<Rightarrow>
       (case ws r of c # t \<Rightarrow> if c = CHR ''}'' then Some (JObj [], t) else parse k AtMembers (c # t)
        | [] \<Rightarrow> parse k AtMembers [])
   | AtMembers \<Rightarrow>
       (case rawString (ws r) of
          None \<Rightarrow> None
        | Some (key, r1) \<Rightarrow>
            (case ws r1 of
               [] \<Rightarrow> None
             | c # r2 \<Rightarrow>
                 if c \<noteq> CHR '':'' then None
                 else case parse k AtValue r2 of
                   None \<Rightarrow> None
                 | Some (v, r3) \<Rightarrow>
                     (case ws r3 of
                        [] \<Rightarrow> None
                      | d # r4 \<Rightarrow>
                          if d = CHR '','' then map_option (\<lambda>(ob, r5). (cons_member key v ob, r5)) (parse k AtMembers r4)
                          else if d = CHR ''}'' then Some (JObj [(key, v)], r4)
                          else None)))
   | AtArray \<Rightarrow>
       (case ws r of c # t \<Rightarrow> if c = CHR '']'' then Some (JArr [], t) else parse k AtElements (c # t)
        | [] \<Rightarrow> parse k AtElements [])
   | AtElements \<Rightarrow>
       (case parse k AtValue r of
          None \<Rightarrow> None
        | Some (v, r1) \<Rightarrow>
            (case ws r1 of
               [] \<Rightarrow> None
             | d # r2 \<Rightarrow>
                 if d = CHR '','' then map_option (\<lambda>(a, r3). (cons_elem v a, r3)) (parse k AtElements r2)
                 else if d = CHR '']'' then Some (JArr [v], r2)
                 else None)))"

definition parse_payload :: "string \<Rightarrow> json option" where
  "parse_payload payload = (case parse (scan_fuel payload) AtValue payload of
     None \<Rightarrow> None | Some (v, r) \<Rightarrow> if ws r = [] then Some v else None)"

definition shape_ok :: "scan_at \<Rightarrow> json \<Rightarrow> bool" where
  "shape_ok m v = (case m of
     AtValue \<Rightarrow> True
   | AtObject \<Rightarrow> (\<exists>ms. v = JObj ms) | AtMembers \<Rightarrow> (\<exists>ms. v = JObj ms)
   | AtArray \<Rightarrow> (\<exists>vs. v = JArr vs) | AtElements \<Rightarrow> (\<exists>vs. v = JArr vs))"

lemma parse_shape: "parse k m r = Some (v, r1) \<Longrightarrow> shape_ok m v"
proof (induction k arbitrary: m r v r1)
  case (Suc k)
  show ?case
  proof (cases m)
    case AtMembers
    then show ?thesis using Suc.prems
      by (auto simp: shape_ok_def cons_member_def split: option.splits list.splits if_splits dest!: Suc.IH)
  next
    case AtElements
    then show ?thesis using Suc.prems
      by (auto simp: shape_ok_def cons_elem_def split: option.splits list.splits if_splits dest!: Suc.IH)
  next
    case AtObject
    then show ?thesis using Suc.prems Suc.IH [of AtMembers]
      by (auto simp: shape_ok_def split: list.splits if_splits)
  next
    case AtArray
    then show ?thesis using Suc.prems Suc.IH [of AtElements]
      by (auto simp: shape_ok_def split: list.splits if_splits)
  qed (simp add: shape_ok_def)
qed simp

lemma skip_parse: "(case parse k m r of None \<Rightarrow> isl (skip k m r) | Some (v, r1) \<Rightarrow> skip k m r = Inr r1)"
proof (induction k arbitrary: m r)
  case (Suc k)
  show ?case
  proof (cases m)
    case AtValue
    then show ?thesis using Suc.IH [of AtObject "tl (ws r)"] Suc.IH [of AtArray "tl (ws r)"]
      by (auto split: list.splits option.splits sum.splits)
  next
    case AtObject
    then show ?thesis using Suc.IH [of AtMembers "ws r"] by (auto split: list.splits option.splits)
  next
    case AtArray
    then show ?thesis using Suc.IH [of AtElements "ws r"] by (auto split: list.splits option.splits)
  next
    case AtMembers
    show ?thesis
    proof (cases "rawString (ws r)")
      case (Some kr)
      obtain key r1 where kr: "rawString (ws r) = Some (key, r1)" using Some by (cases kr) auto
      show ?thesis
      proof (cases "ws r1")
        case (Cons c r2)
        show ?thesis
        proof (cases "c = CHR '':'' \<and> parse k AtValue r2 \<noteq> None")
          case False
          then show ?thesis using Suc.IH [of AtValue r2]
            by (cases "parse k AtValue r2"; cases "skip k AtValue r2") (auto simp: AtMembers kr Cons)
        next
          case True
          then obtain v r3 where v: "parse k AtValue r2 = Some (v, r3)" by auto
          then have "skip k AtValue r2 = Inr r3" using Suc.IH [of AtValue r2] by simp
          then show ?thesis using True v Suc.IH [of AtMembers "tl (ws r3)"]
            by (auto simp: AtMembers kr Cons split: list.splits option.splits)
        qed
      qed (simp add: AtMembers kr)
    qed (simp add: AtMembers)
  next
    case AtElements
    show ?thesis
    proof (cases "parse k AtValue r")
      case None
      then show ?thesis using Suc.IH [of AtValue r] by (auto simp: AtElements split: sum.splits)
    next
      case (Some vr)
      then obtain v r1 where v: "parse k AtValue r = Some (v, r1)" by (cases vr) auto
      then have "skip k AtValue r = Inr r1" using Suc.IH [of AtValue r] by simp
      then show ?thesis using v Suc.IH [of AtElements "tl (ws r1)"]
        by (auto simp: AtElements split: list.splits option.splits)
    qed
  qed
qed simp

subsection \<open>The fuel is enough\<close>

lemma ws_length: "length (ws r) \<le> length r"
  by (simp add: ws_def length_dropWhile_le)

lemma raw_body_cases:
  assumes "raw_body rest = Some (inner, r1)"
  obtains i where "index_byte quote rest = Some i" "\<forall>j. index_byte backslash rest = Some j \<longrightarrow> i \<le> j"
      "\<not> hasControl (take i rest)" "inner = take i rest" "r1 = drop (i + 1) rest"
  | j n in1 where "index_byte backslash rest = Some j" "\<forall>i. index_byte quote rest = Some i \<longrightarrow> j < i"
      "\<not> hasControl (take j rest)" "escape_len (drop j rest) = Some n"
      "raw_body (drop (j + n) rest) = Some (in1, r1)" "inner = take (j + n) rest @ in1"
proof -
  note u = assms [unfolded raw_body.simps [of rest]]
  show ?thesis
  proof (cases "index_byte quote rest")
    case None
    then show ?thesis using u that(2)
      by (cases "index_byte backslash rest") (auto split: if_splits option.splits)
  next
    case (Some i)
    then show ?thesis using u that
      by (cases "index_byte backslash rest") (auto simp: not_less split: if_splits option.splits)
  qed
qed

lemma raw_body_shrinks: "raw_body r = Some (inner, r1) \<Longrightarrow> length r1 < length r"
proof (induction r arbitrary: inner rule: length_induct)
  case (1 r)
  from 1(2) show ?case
  proof (cases rule: raw_body_cases)
    case (1 i)
    then show ?thesis using index_byte_Some [OF 1(1)] by auto
  next
    case (2 j n in1)
    have "length (drop (j + n) r) < length r"
      using escape_len_bounds [OF 2(4)] by auto
    then show ?thesis using "1.IH" 2(5) by fastforce
  qed
qed

lemma rawString_shrinks: "rawString r = Some (inner, r1) \<Longrightarrow> length r1 + 2 \<le> length r"
  by (auto simp: rawString_def split: list.splits if_splits dest!: raw_body_shrinks)

lemma rawScalar_shrinks: "rawScalar r = Inr (tok, r1) \<Longrightarrow> length r1 < length r"
proof -
  assume a: "rawScalar r = Inr (tok, r1)"
  then have "validScalarToken tok" "tok @ r1 = r"
    by (auto simp: rawScalar_def Let_def split: if_splits)
  moreover have "\<not> validScalarToken []" by (simp add: validScalarToken_def)
  ultimately show ?thesis by (metis length_append length_greater_0_conv less_add_same_cancel2)
qed

lemma skip_shrinks: "skip k m r = Inr r1 \<Longrightarrow> length r1 < length r"
proof (induction k arbitrary: m r r1)
  case (Suc k)
  note w = ws_length [of r]
  show ?case
  proof (cases m)
    case AtValue
    then show ?thesis using Suc.prems w
      by (fastforce split: list.splits if_splits option.splits sum.splits
          dest: Suc.IH rawString_shrinks rawScalar_shrinks)
  next
    case AtObject
    then show ?thesis using Suc.prems w by (fastforce split: list.splits if_splits dest: Suc.IH)
  next
    case AtArray
    then show ?thesis using Suc.prems w by (fastforce split: list.splits if_splits dest: Suc.IH)
  next
    case AtMembers
    then obtain key ra rb rc d rd where a: "rawString (ws r) = Some (key, ra)" "ws ra = CHR '':'' # rb"
      "skip k AtValue rb = Inr rc" "ws rc = d # rd"
      and e: "(if d = CHR '','' then skip k AtMembers rd else if d = CHR ''}'' then Inr rd else Inl BadObjectSeparator) = Inr r1"
      using Suc.prems by (auto split: option.splits list.splits if_splits sum.splits)
    have "length r1 \<le> length rd" using e Suc.IH [of AtMembers rd r1] by (auto split: if_splits)
    moreover have "length rd < length rc" "length rc < length rb" "length rb < length ra" "length ra < length r"
      using a Suc.IH [OF a(3)] rawString_shrinks [OF a(1)] ws_length [of rc] ws_length [of ra] w by simp_all
    ultimately show ?thesis by simp
  next
    case AtElements
    then obtain rc d rd where a: "skip k AtValue r = Inr rc" "ws rc = d # rd"
      and e: "(if d = CHR '','' then skip k AtElements rd else if d = CHR '']'' then Inr rd else Inl BadArraySeparator) = Inr r1"
      using Suc.prems by (auto split: option.splits list.splits if_splits sum.splits)
    have "length r1 \<le> length rd" using e Suc.IH [of AtElements rd r1] by (auto split: if_splits)
    moreover have "length rd < length rc" "length rc < length r"
      using a Suc.IH [OF a(1)] ws_length [of rc] by simp_all
    ultimately show ?thesis by simp
  qed
qed simp

fun need :: "scan_at \<Rightarrow> nat \<Rightarrow> nat" where
  "need AtValue l = 3 * l + 1"
| "need AtObject l = 3 * l + 2"
| "need AtMembers l = 3 * l + 1"
| "need AtArray l = 3 * l + 3"
| "need AtElements l = 3 * l + 2"

lemma rawScalar_error: "rawScalar r \<noteq> Inl OutOfFuel"
  by (simp add: rawScalar_def Let_def)

lemma skip_fuel: "need m (length r) \<le> k \<Longrightarrow> skip k m r \<noteq> Inl OutOfFuel"
proof (induction k arbitrary: m r)
  case 0
  then show ?case by (cases m) simp_all
next
  case (Suc k)
  note w = ws_length [of r]
  show ?case
  proof (cases m)
    case AtValue
    then show ?thesis using Suc.prems w Suc.IH [of AtObject "tl (ws r)"] Suc.IH [of AtArray "tl (ws r)"] rawScalar_error
      by (auto split: list.splits if_splits option.splits sum.splits)
  next
    case AtObject
    then show ?thesis using Suc.prems w Suc.IH [of AtMembers "ws r"] by (auto split: list.splits if_splits)
  next
    case AtArray
    then show ?thesis using Suc.prems w Suc.IH [of AtElements "ws r"] by (auto split: list.splits if_splits)
  next
    case AtMembers
    show ?thesis
    proof
      assume "skip (Suc k) m r = Inl OutOfFuel"
      then obtain key ra rb where a: "rawString (ws r) = Some (key, ra)" "ws ra = CHR '':'' # rb"
        and e: "skip k AtValue rb = Inl OutOfFuel \<or>
          (\<exists>rc rd. skip k AtValue rb = Inr rc \<and> ws rc = CHR '','' # rd \<and> skip k AtMembers rd = Inl OutOfFuel)"
        by (auto simp: AtMembers split: option.splits list.splits if_splits sum.splits)
      have l: "length rb + 3 \<le> length r" using rawString_shrinks [OF a(1)] ws_length [of ra] a(2) w by simp
      from e show False
      proof (elim disjE exE conjE)
        fix rc rd assume c: "skip k AtValue rb = Inr rc" "ws rc = CHR '','' # rd" "skip k AtMembers rd = Inl OutOfFuel"
        have "length rd < length rb" using skip_shrinks [OF c(1)] ws_length [of rc] c(2) by simp
        then show False using Suc.IH [of AtMembers rd] Suc.prems l c(3) by (simp add: AtMembers)
      qed (use Suc.IH [of AtValue rb] Suc.prems l in \<open>simp add: AtMembers\<close>)
    qed
  next
    case AtElements
    show ?thesis
    proof
      assume "skip (Suc k) m r = Inl OutOfFuel"
      then have e: "skip k AtValue r = Inl OutOfFuel \<or>
          (\<exists>rc rd. skip k AtValue r = Inr rc \<and> ws rc = CHR '','' # rd \<and> skip k AtElements rd = Inl OutOfFuel)"
        by (auto simp: AtElements split: option.splits list.splits if_splits sum.splits)
      then show False
      proof (elim disjE exE conjE)
        fix rc rd assume c: "skip k AtValue r = Inr rc" "ws rc = CHR '','' # rd" "skip k AtElements rd = Inl OutOfFuel"
        have "length rd < length r" using skip_shrinks [OF c(1)] ws_length [of rc] c(2) by simp
        then show False using Suc.IH [of AtElements rd] Suc.prems c(3) by (simp add: AtElements)
      qed (use Suc.IH [of AtValue r] Suc.prems in \<open>simp add: AtElements\<close>)
    qed
  qed
qed

subsection \<open>One pass computes the bits of the tree\<close>

text \<open>\<open>hit n v i\<close>: walking the value \<open>v\<close> from the node \<open>n\<close> sets bit \<open>i\<close>.\<close>

fun leaf_match :: "filterValue \<Rightarrow> json \<Rightarrow> bool" where
  "leaf_match v (JStr inner) = matchesString v inner"
| "leaf_match v (JScalar tok) = matchesScalar v tok"
| "leaf_match v _ = False"

definition fires :: "filterNode \<Rightarrow> json \<Rightarrow> nat \<Rightarrow> bool" where
  "fires n x i \<longleftrightarrow> (\<exists>(b, v) \<in> set (node_terms n). bit b i \<and> leaf_match v x)"

function hit :: "filterNode \<Rightarrow> json \<Rightarrow> nat \<Rightarrow> bool" where
  "hit n (JStr inner) i = fires n (JStr inner) i"
| "hit n (JScalar tok) i = fires n (JScalar tok) i"
| "hit n (JArr vs) i = (\<exists>v \<in> set vs. hit n v i)"
| "hit n (JObj ms) i = (\<exists>m \<in> set ms. case node_child n (fst m) of None \<Rightarrow> False | Some ch \<Rightarrow> hit ch (snd m) i)"
  by pat_completeness auto
termination
proof (relation "measure (\<lambda>(n, v, i). size v)")
  fix n ms i ch and m :: "string \<times> json" assume "m \<in> set ms"
  then have "size (snd m) < Suc (size_list (\<lambda>x. Suc (size (snd x))) ms)"
    by (induction ms) auto
  then show "((ch, snd m, i), n, JObj ms, i) \<in> measure (\<lambda>(n, v, i). size v)" by (simp add: size_prod_simp)
qed (auto simp: less_Suc_eq_le intro: size_list_estimation')

definition single_bits :: "(u8 \<times> filterValue) list \<Rightarrow> bool" where
  "single_bits ts \<longleftrightarrow> (\<forall>(b, v) \<in> set ts. \<exists>i. b = push_bit i 1)"

inductive trie_ok :: "filterNode \<Rightarrow> bool" where
  "single_bits (node_terms n) \<Longrightarrow> (\<And>seg cl c. (seg, cl, c) \<in> set (children n) \<Longrightarrow> trie_ok c) \<Longrightarrow> trie_ok n"

inductive_cases trie_okE: "trie_ok n"

lemma node_child_ok: "trie_ok n \<Longrightarrow> node_child n k = Some ch \<Longrightarrow> trie_ok ch"
  by (auto simp: node_child_def elim!: trie_okE dest!: find_Some_iff [THEN iffD1]) (metis nth_mem)

lemma bit_single: "bit (push_bit j (1 :: u8)) i \<longleftrightarrow> i = j \<and> j < 8"
  by (auto simp: bit_exp_iff)

lemma fire_terms_bits:
  assumes "single_bits ts"
  shows "bit (fire_terms match ts bits) i \<longleftrightarrow> bit bits i \<or> (\<exists>(b, v) \<in> set ts. bit b i \<and> match v)"
  using assms
proof (induction ts arbitrary: bits)
  case (Cons t ts)
  obtain b v where t: "t = (b, v)" by force
  obtain j where j: "b = push_bit j 1" using Cons.prems by (auto simp: single_bits_def t)
  have ih: "bit (fire_terms match ts bits) i \<longleftrightarrow> bit bits i \<or> (\<exists>(b, v) \<in> set ts. bit b i \<and> match v)" for bits
    using Cons by (simp add: single_bits_def)
  have old: "bit bits i" if "bits AND b \<noteq> 0" "bit b i"
  proof -
    from that(1) obtain l where "bit (bits AND b) l" by (metis bit_0_eq bit_eq_iff bot_apply bot_bool_def)
    then show ?thesis using that(2) unfolding j bit_and_iff bit_single by auto
  qed
  have "fire_terms match (t # ts) bits = fire_terms match ts (if bits AND b = 0 \<and> match v then bits OR b else bits)"
    by (simp add: fire_terms_def t)
  then show ?case using old by (auto simp: ih t bit_or_iff)
qed (simp add: fire_terms_def)

definition adds :: "filterNode \<Rightarrow> json \<Rightarrow> u8 \<Rightarrow> u8 \<Rightarrow> bool" where
  "adds n v bits bits1 \<longleftrightarrow> (\<forall>i. bit bits1 i \<longleftrightarrow> bit bits i \<or> hit n v i)"

lemma adds_cons_member:
  assumes "case node_child n key of None \<Rightarrow> bits1 = bits | Some ch \<Rightarrow> adds ch v bits bits1" "adds n (JObj ms) bits1 bits2"
  shows "adds n (JObj ((key, v) # ms)) bits bits2"
  using assms by (auto simp: adds_def split: option.splits)

lemma adds_cons_elem: "adds n v bits bits1 \<Longrightarrow> adds n (JArr vs) bits1 bits2 \<Longrightarrow> adds n (JArr (v # vs)) bits bits2"
  by (auto simp: adds_def)

lemma adds_empty [simp]: "adds n (JObj []) bits bits" "adds n (JArr []) bits bits"
  by (simp_all add: adds_def)

lemma walk_parse:
  assumes "trie_ok n"
  shows "case parse k m r of
      None \<Rightarrow> isl (walk k m n bits r)
    | Some (v, r1) \<Rightarrow> (\<exists>bits1. walk k m n bits r = Inr (bits1, r1) \<and> adds n v bits bits1)"
  using assms
proof (induction k arbitrary: m n bits r)
  case (Suc k)
  have sb: "single_bits (node_terms n)" using Suc.prems by (auto elim: trie_okE)
  show ?case
  proof (cases m)
    case AtValue
    show ?thesis
    proof (cases "ws r")
      case (Cons c t)
      have str: "adds n (JStr inner) bits (fire_terms (\<lambda>v. matchesString v inner) (node_terms n) bits)" for inner
        by (simp add: adds_def fire_terms_bits [OF sb] fires_def)
      have sca: "adds n (JScalar tok) bits (fire_terms (\<lambda>v. matchesScalar v tok) (node_terms n) bits)" for tok
        by (simp add: adds_def fire_terms_bits [OF sb] fires_def)
      show ?thesis using Suc.IH [OF Suc.prems, of AtObject bits t] Suc.IH [OF Suc.prems, of AtArray bits t] str sca
        by (auto simp: AtValue Cons quote_def split: option.splits sum.splits)
    qed (simp add: AtValue)
  next
    case AtObject
    then show ?thesis using Suc.IH [OF Suc.prems, of AtMembers bits "ws r"] by (auto split: list.splits option.splits)
  next
    case AtArray
    then show ?thesis using Suc.IH [OF Suc.prems, of AtElements bits "ws r"] by (auto split: list.splits option.splits)
  next
    case AtMembers
    show ?thesis
    proof (cases "\<exists>key r1 r2. rawString (ws r) = Some (key, r1) \<and> ws r1 = CHR '':'' # r2")
      case True
      then obtain key r1 r2 where kr: "rawString (ws r) = Some (key, r1)" "ws r1 = CHR '':'' # r2" by blast
      define inner where "inner = (case node_child n key of
           Some ch \<Rightarrow> walk k AtValue ch bits r2
         | None \<Rightarrow> (case skip k AtValue r2 of Inl e \<Rightarrow> Inl e | Inr r3 \<Rightarrow> Inr (bits, r3)))"
      have w: "walk (Suc k) m n bits r = (case inner of Inl e \<Rightarrow> Inl e | Inr (bits1, r3) \<Rightarrow>
          (case ws r3 of [] \<Rightarrow> Inl TruncatedObject | d # r4 \<Rightarrow>
             if d = CHR '','' then walk k AtMembers n bits1 r4
             else if d = CHR ''}'' then Inr (bits1, r4) else Inl BadObjectSeparator))"
        by (simp add: AtMembers kr inner_def)
      show ?thesis
      proof (cases "parse k AtValue r2")
        case None
        then have "isl inner" using Suc.IH [OF node_child_ok [OF Suc.prems], of key _ AtValue bits r2] skip_parse [of k AtValue r2]
          by (auto simp: inner_def split: option.splits sum.splits)
        then have "isl (walk (Suc k) m n bits r)" unfolding w by (cases inner) auto
        moreover have "parse (Suc k) m r = None" by (simp add: AtMembers kr None)
        ultimately show ?thesis by simp
      next
        case (Some vr)
        then obtain v r3 where v: "parse k AtValue r2 = Some (v, r3)" by (cases vr) auto
        obtain bits1 where b: "inner = Inr (bits1, r3)"
          "case node_child n key of None \<Rightarrow> bits1 = bits | Some ch \<Rightarrow> adds ch v bits bits1"
          using Suc.IH [OF node_child_ok [OF Suc.prems], of key _ AtValue bits r2] skip_parse [of k AtValue r2] v
          by (cases "node_child n key") (auto simp: inner_def)
        have one: "adds n (JObj [(key, v)]) bits bits1" by (rule adds_cons_member [OF b(2)]) simp
        show ?thesis
        proof (cases "ws r3")
          case (Cons d r4)
          show ?thesis
          proof (cases "d = CHR '','' \<and> parse k AtMembers r4 \<noteq> None")
            case True
            then obtain ob r5 where p: "parse k AtMembers r4 = Some (ob, r5)" by auto
            obtain ms where ob: "ob = JObj ms" using parse_shape [OF p] by (auto simp: shape_ok_def)
            obtain bits2 where b2: "walk k AtMembers n bits1 r4 = Inr (bits2, r5)" "adds n (JObj ms) bits1 bits2"
              using Suc.IH [OF Suc.prems, of AtMembers bits1 r4] p ob by auto
            have "parse (Suc k) m r = Some (JObj ((key, v) # ms), r5)"
              using True by (simp add: AtMembers kr v Cons p ob cons_member_def)
            moreover have "walk (Suc k) m n bits r = Inr (bits2, r5)" unfolding w using True by (simp add: b(1) Cons b2)
            ultimately show ?thesis using adds_cons_member [OF b(2) b2(2)] by simp
          next
            case False
            then have np: "d = CHR '','' \<Longrightarrow> parse k AtMembers r4 = None \<and> isl (walk k AtMembers n bits1 r4)"
              using Suc.IH [OF Suc.prems, of AtMembers bits1 r4] by (cases "parse k AtMembers r4") auto
            have p: "parse (Suc k) m r = (if d = CHR ''}'' then Some (JObj [(key, v)], r4) else None)"
              using np by (auto simp: AtMembers kr v Cons)
            have q: "walk (Suc k) m n bits r = (if d = CHR '','' then walk k AtMembers n bits1 r4
                else if d = CHR ''}'' then Inr (bits1, r4) else Inl BadObjectSeparator)" unfolding w by (simp add: b(1) Cons)
            show ?thesis unfolding p q using np one by auto
          qed
        next
          case Nil
          have "parse (Suc k) m r = None" by (simp add: AtMembers kr v Nil)
          moreover have "isl (walk (Suc k) m n bits r)" unfolding w by (simp add: b(1) Nil)
          ultimately show ?thesis by simp
        qed
      qed
    qed (auto simp: AtMembers split: option.splits list.splits)
  next
    case AtElements
    show ?thesis
    proof (cases "parse k AtValue r")
      case None
      then have "isl (walk k AtValue n bits r)" using Suc.IH [OF Suc.prems, of AtValue bits r] by simp
      then show ?thesis using None by (auto simp: AtElements split: sum.splits)
    next
      case (Some vr)
      then obtain v r1 where v: "parse k AtValue r = Some (v, r1)" by (cases vr) auto
      then obtain bits1 where b: "walk k AtValue n bits r = Inr (bits1, r1)" "adds n v bits bits1"
        using Suc.IH [OF Suc.prems, of AtValue bits r] by auto
      have one: "adds n (JArr [v]) bits bits1" by (rule adds_cons_elem [OF b(2)]) simp
      show ?thesis
      proof (cases "ws r1")
        case (Cons d r2)
        show ?thesis
        proof (cases "d = CHR '','' \<and> parse k AtElements r2 \<noteq> None")
          case True
          then obtain a r3 where p: "parse k AtElements r2 = Some (a, r3)" by auto
          obtain vs where a: "a = JArr vs" using parse_shape [OF p] by (auto simp: shape_ok_def)
          obtain bits2 where b2: "walk k AtElements n bits1 r2 = Inr (bits2, r3)" "adds n (JArr vs) bits1 bits2"
            using Suc.IH [OF Suc.prems, of AtElements bits1 r2] p a by auto
          show ?thesis using adds_cons_elem [OF b(2) b2(2)] True
            by (simp add: AtElements v b(1) Cons b2 p a cons_elem_def)
        next
          case False
          then have np: "d = CHR '','' \<Longrightarrow> parse k AtElements r2 = None \<and> isl (walk k AtElements n bits1 r2)"
            using Suc.IH [OF Suc.prems, of AtElements bits1 r2] by (cases "parse k AtElements r2") auto
          have p: "parse (Suc k) m r = (if d = CHR '']'' then Some (JArr [v], r2) else None)"
            using np by (auto simp: AtElements v Cons)
          have q: "walk (Suc k) m n bits r = (if d = CHR '','' then walk k AtElements n bits1 r2
              else if d = CHR '']'' then Inr (bits1, r2) else Inl BadArraySeparator)" by (simp add: AtElements b(1) Cons)
          show ?thesis unfolding p q using np one by auto
        qed
      qed (simp add: AtElements v b(1))
    qed
  qed
qed simp

text \<open>Walking and skipping accept the same documents and consume the same bytes. Only the wording of an error differs.\<close>

abbreviation no_fuel :: "scan_error \<Rightarrow> bool" where "no_fuel e \<equiv> e = OutOfFuel"

lemma walk_skip: "map_sum no_fuel snd (walk k m n bits r) = map_sum no_fuel id (skip k m r)"
proof (induction k arbitrary: m n bits r)
  case (Suc k)
  have ih: "walk k m n bits r = Inl e \<Longrightarrow> \<exists>e1. skip k m r = Inl e1 \<and> (no_fuel e1 \<longleftrightarrow> no_fuel e)"
    "walk k m n bits r = Inr (bits1, r1) \<Longrightarrow> skip k m r = Inr r1" for m n bits r e bits1 r1
    using Suc [of m n bits r] by (cases "skip k m r"; auto)+
  show ?case
  proof (cases m)
    case AtValue
    then show ?thesis using Suc by (auto simp: quote_def split: list.splits option.splits sum.splits)
  next
    case AtObject
    then show ?thesis using Suc by (auto split: list.splits)
  next
    case AtArray
    then show ?thesis using Suc by (auto split: list.splits)
  next
    case AtMembers
    show ?thesis
    proof (cases "\<exists>key r1 r2. rawString (ws r) = Some (key, r1) \<and> ws r1 = CHR '':'' # r2")
      case True
      then obtain key r1 r2 where kr: "rawString (ws r) = Some (key, r1)" "ws r1 = CHR '':'' # r2" by blast
      show ?thesis using Suc
        by (cases "node_child n key") (auto simp: AtMembers kr split: list.splits sum.splits prod.splits dest!: ih)
    qed (auto simp: AtMembers split: option.splits list.splits)
  next
    case AtElements
    then show ?thesis using Suc by (auto split: list.splits sum.splits prod.splits dest!: ih)
  qed
qed simp

lemma walk_fuel: "need m (length r) \<le> k \<Longrightarrow> walk k m n bits r \<noteq> Inl OutOfFuel"
  using walk_skip [of k m n bits r] skip_fuel [of m r k] by (cases "skip k m r") auto

lemma scan_fuel_enough:
  "skip (scan_fuel r) AtValue r \<noteq> Inl OutOfFuel" "walk (scan_fuel r) AtValue n bits r \<noteq> Inl OutOfFuel"
  using skip_fuel [of AtValue r "scan_fuel r"] walk_fuel [of AtValue r "scan_fuel r"] by (simp_all add: scan_fuel_def)

end
