(* ===== verification/Payload_Match.thy ===== *)
theory Payload_Match
  imports Payload_Scan "HOL-Library.AList"
begin

text \<open>
  What the comparisons of the payload scanner mean: a string token matches the text it decodes to, a number
  token matches by value, a path reaches the values under its segments through objects and arrays.
\<close>

subsection \<open>String tokens\<close>

text \<open>\<open>rawString\<close> only returns spans in which an unescaped quote or a control byte cannot hide.\<close>

definition span_ok :: "string \<Rightarrow> bool" where
  "span_ok inner \<longleftrightarrow> backslash \<in> set inner \<or> quote \<notin> set inner \<and> \<not> hasControl inner"

lemma rawString_span: "rawString r = Some (inner, r1) \<Longrightarrow> span_ok inner"
proof -
  assume "rawString r = Some (inner, r1)"
  then obtain t where "raw_body t = Some (inner, r1)" by (auto simp: rawString_def split: list.splits if_splits)
  then show ?thesis
  proof (cases rule: raw_body_cases)
    case (1 i)
    then show ?thesis using index_byte_Some [OF 1(1)] by (simp add: span_ok_def)
  next
    case (2 j n in1)
    have "j < length t" "t ! j = backslash" "2 \<le> n" using index_byte_Some [OF 2(1)] escape_len_bounds [OF 2(4)] by auto
    then have "backslash \<in> set (take (j + n) t)" by (auto simp: in_set_conv_nth intro!: exI [of _ j])
    then show ?thesis by (simp add: 2(6) span_ok_def)
  qed
qed

lemma valid_width_bound: "valid_width s = Some w \<Longrightarrow> w \<in> {1, 2, 3, 4} \<and> w \<le> length s"
  by (auto simp: valid_width_def split: list.splits if_splits)

lemma chunk_rune_take: "valid_width s = Some w \<Longrightarrow> chunk_rune (take w s) = chunk_rune s"
  using valid_width_bound [of s w] valid_width_take [of s w] by (auto simp: chunk_rune_def)

lemma encode_first_chunk: "valid_width s = Some w \<Longrightarrow> encode_rune (chunk_rune s) = take w s"
  using encode_chunk [of "take w s"] valid_width_take [of s w] chunk_rune_take [of s w] by simp

lemma valid_utf8_step:
  assumes "valid_utf8 (c # r)"
  shows "valid_width (c # r) = Some (rune_width (c # r))" "valid_utf8 (drop (rune_width (c # r)) (c # r))"
proof -
  have ch: "chunks (c # r) = take (rune_width (c # r)) (c # r) # chunks (drop (rune_width (c # r)) (c # r))" by simp
  show "valid_utf8 (drop (rune_width (c # r)) (c # r))"
    using assms unfolding valid_utf8_def ch by (metis list.set_intros(2))
  have "valid_width (take (rune_width (c # r)) (c # r)) \<noteq> None"
    using assms unfolding valid_utf8_def ch by (metis list.set_intros(1))
  then show "valid_width (c # r) = Some (rune_width (c # r))"
    by (cases "valid_width (c # r)") (auto simp: rune_width_def valid_width_def split: list.splits if_splits)
qed

lemma json_unquote_plain:
  "valid_utf8 s \<Longrightarrow> backslash \<notin> set s \<Longrightarrow> quote \<notin> set s \<Longrightarrow> \<not> hasControl s \<Longrightarrow> json_unquote s = Some s"
proof (induction s rule: length_induct)
  case (1 s)
  show ?case
  proof (cases s)
    case (Cons c r)
    let ?w = "rune_width (c # r)"
    note v = valid_utf8_step [OF "1.prems"(1) [unfolded Cons]]
    have rest: "json_unquote (drop ?w (c # r)) = Some (drop ?w (c # r))"
    proof (rule "1.IH" [rule_format])
      show "length (drop ?w (c # r)) < length s" using rune_width_pos [of "c # r"] by (simp add: Cons)
    qed (use v(2) "1.prems"(2-) in_set_dropD [of _ ?w "c # r"] in \<open>auto simp: Cons hasControl_def\<close>)
    have ascii: "byte c < 128 \<Longrightarrow> ?w = 1" by (simp add: rune_width_def valid_width_def)
    show ?thesis
      using "1.prems"(2-) rest ascii encode_first_chunk [OF v(1)]
      by (auto simp: Cons json_unquote.simps(2) hasControl_def)
  qed simp
qed

text \<open>The fast path of \<open>decodedStringEq\<close> agrees with decoding: the clean flag never changes an answer.\<close>

lemma decodedStringEq_decodes: "span_ok inner \<Longrightarrow> decodedStringEq inner want cl \<longleftrightarrow> json_unquote inner = Some want"
  using json_unquote_plain [of inner] by (auto simp: decodedStringEq_def span_ok_def split: option.splits)

subsection \<open>Number tokens\<close>

lemma canonical_digits_core:
  assumes "\<forall>c \<in> set (ids @ fds). is_digit c" "\<exists>c \<in> set (ids @ fds). c \<noteq> CHR ''0''"
  obtains core t where "core_ok core" "\<And>s. decimal neg (ids @ fds) s = decimal neg core (int t + s)"
    "length core + t \<le> length ids + length fds"
    "canonical_digits False neg ids fds ex = Inr
      (if length core \<le> maxTypedFilterSignificant
          \<and> \<bar>int (length core) - 1 + (ex - int (length fds) + int t)\<bar> \<le> maxTypedFilterExponent
       then Some (render_number neg core (ex - int (length fds) + int t)) else None)"
proof -
  from assms(2) obtain f core t where ds: "ids @ fds = replicate f CHR ''0'' @ core @ replicate t CHR ''0''" and
    core: "core \<noteq> []" "hd core \<noteq> CHR ''0''" "last core \<noteq> CHR ''0''"
    by (rule strip_zeros)
  have ok: "core_ok core" using core assms(1) unfolding ds by (auto simp: core_ok_def)
  have first: "first_nonzero 0 (ids @ fds) = Some f"
    using first_nonzero_zeros [of "hd core" 0 f "tl core @ replicate t CHR ''0''"] core by (cases core) (simp_all add: ds)
  have "core = butlast core @ [last core]" using core(1) by simp
  then have "ids @ fds = (replicate f CHR ''0'' @ butlast core) @ last core # replicate t CHR ''0''"
    unfolding ds by (metis append.assoc append_Cons append_Nil)
  then have lst: "last_nonzero 0 0 (ids @ fds) = f + (length core - 1)"
    using last_nonzero_last [OF core(3), of 0 0 "replicate f CHR ''0'' @ butlast core" t] by simp
  have len: "length ids + length fds = f + length core + t" using arg_cong [OF ds, of length] by simp
  have n: "0 < length core" using core(1) by simp
  have form: "take (length core) (drop f (ids @ fds)) = core" "f + (length core - 1) - f + 1 = length core"
    "length (ids @ fds) - 1 - (f + (length core - 1)) = t"
    using n unfolding ds by simp_all
  have "canonical_digits False neg ids fds ex = Inr
      (if length core \<le> maxTypedFilterSignificant
          \<and> \<bar>int (length core) - 1 + (ex - int (length fds) + int t)\<bar> \<le> maxTypedFilterExponent
       then Some (render_number neg core (ex - int (length fds) + int t)) else None)"
    unfolding canonical_digits_def Let_def first option.case lst form by (auto simp: abs_le_iff)
  moreover have "decimal neg (ids @ fds) s = decimal neg core (int t + s)" for s
    unfolding ds by (rule decimal_zeros)
  ultimately show ?thesis using that [OF ok] len by simp
qed

lemma scan_exp_big:
  assumes "scan_exp r = Some (ex, r3)" "exp_value r = Some (e1, r3)"
  shows "ex = e1 \<or> \<bar>ex\<bar> = 1000001 \<and> \<bar>e1\<bar> > 1000000"
proof (cases "\<exists>c r1. r = c # r1 \<and> (c = CHR ''e'' \<or> c = CHR ''E'')")
  case True
  then obtain c r1 where r: "r = c # r1" and c: "c = CHR ''e'' \<or> c = CHR ''E''" by blast
  define neg where "neg = (case r1 of s # _ \<Rightarrow> s = CHR ''-'' | [] \<Rightarrow> False)"
  define r2 where "r2 = (case r1 of s # t \<Rightarrow> if s = CHR ''+'' \<or> s = CHR ''-'' then t else r1 | [] \<Rightarrow> r1)"
  have "foldl exp_step 0 (takeWhile is_digit r2) = int (digits_val (takeWhile is_digit r2))
      \<or> 1000000 < foldl exp_step 0 (takeWhile is_digit r2) \<and> 1000000 < int (digits_val (takeWhile is_digit r2))"
    using exp_saturates [of "takeWhile is_digit r2"] by (auto dest: set_takeWhileD)
  then show ?thesis
    using assms c by (auto simp: r scan_exp_def exp_value_def Let_def neg_def [symmetric] r2_def [symmetric] split: if_splits)
qed (use assms in \<open>auto simp: scan_exp_def exp_value_def split: list.splits if_splits\<close>)

definition in_envelope :: "string \<Rightarrow> int \<Rightarrow> bool" where
  "in_envelope core s \<longleftrightarrow> length core \<le> maxTypedFilterSignificant \<and> \<bar>int (length core) - 1 + s\<bar> \<le> maxTypedFilterExponent"

lemma token_core:
  assumes can: "canonicalNumberToken tok False = Inr co" and len: "length tok \<le> 999000"
  obtains "co = Some ''0''" "number_value tok = Some 0"
  | neg core s where "core_ok core" "number_value tok = Some (decimal neg core s)"
      "co = (if in_envelope core s then Some (render_number neg core s) else None)"
proof -
  obtain c0 r where tok: "tok = c0 # r" using can by (cases tok) (auto simp: canonicalNumberToken_def split: if_splits)
  define neg where "neg \<longleftrightarrow> c0 = CHR ''-''"
  obtain ids r1 fds r2 ex where
    i: "scan_int (if neg then r else tok) = Some (ids, r1)" and f: "scan_frac r1 = Some (fds, r2)" and
    e: "scan_exp r2 = Some (ex, [])" and c: "canonical_digits False neg ids fds ex = Inr co"
    using can by (auto simp: canonicalNumberToken_def tok neg_def Let_def split: if_splits option.splits prod.splits)
  obtain e1 where e1: "exp_value r2 = Some (e1, [])" using scan_exp_exact [OF e] by blast
  have v: "number_value tok = Some (decimal neg (ids @ fds) (e1 - int (length fds)))"
    using i f e1 by (cases "c0 = CHR ''-''") (simp_all add: number_value_def tok neg_def)
  have dg: "\<forall>c \<in> set (ids @ fds). is_digit c" and small: "length ids + length fds \<le> length tok"
    using scan_int_set [OF i] scan_frac_set [OF f] by (auto simp: tok split: if_splits)
  show ?thesis
  proof (cases "\<exists>c \<in> set (ids @ fds). c \<noteq> CHR ''0''")
    case True
    obtain core t where ok: "core_ok core" and d: "\<And>s. decimal neg (ids @ fds) s = decimal neg core (int t + s)"
      and l: "length core + t \<le> length ids + length fds"
      and co: "canonical_digits False neg ids fds ex = Inr (if length core \<le> maxTypedFilterSignificant
          \<and> \<bar>int (length core) - 1 + (ex - int (length fds) + int t)\<bar> \<le> maxTypedFilterExponent
        then Some (render_number neg core (ex - int (length fds) + int t)) else None)"
      by (rule canonical_digits_core [OF dg True]) blast
    have far: "\<not> \<bar>int (length core) - 1 + (x - int (length fds) + int t)\<bar> \<le> maxTypedFilterExponent" if "\<bar>x\<bar> > 1000000" for x
      using that l small len by (simp add: maxTypedFilterExponent_def)
    have "co = (if in_envelope core (int t + (e1 - int (length fds))) then Some (render_number neg core (int t + (e1 - int (length fds)))) else None)"
      using scan_exp_big [OF e e1]
    proof
      assume "ex = e1"
      then show ?thesis using c co by (simp add: in_envelope_def algebra_simps)
    next
      assume x: "\<bar>ex\<bar> = 1000001 \<and> 1000000 < \<bar>e1\<bar>"
      then have "co = None" using c co far [of ex] by simp
      then show ?thesis using far [of e1] x by (simp add: in_envelope_def algebra_simps)
    qed
    then show ?thesis using that(2) [OF ok _] v d by simp
  next
    case False
    then have "co = Some ''0''" using c first_nonzero_None [of 0 "ids @ fds"] by (auto simp: canonical_digits_def)
    then show ?thesis using that(1) v all_zero_val [of "ids @ fds"] False by (simp add: decimal_def)
  qed
qed

lemma request_number: "canonicalNumberToken t True = Inr x \<Longrightarrow> canonicalNumberToken t False = Inr x \<and> length t \<le> 256 \<and> x \<noteq> None"
  by (auto simp: canonicalNumberToken_def canonical_digits_def Let_def maxTypedFilterNumberBytes_def
      split: if_splits list.splits option.splits prod.splits)

text \<open>A payload number has the canonical spelling of a request number exactly when the two are the same number:
  numbers outside the envelope are not comparable, and rightly so.\<close>

lemma number_token_match:
  assumes req: "canonicalNumberToken t True = Inr (Some c)" and len: "length tok \<le> 999000"
  shows "canonicalNumberToken tok False = Inr (Some c) \<longleftrightarrow> number_value tok = number_value t"
proof -
  have t: "canonicalNumberToken t False = Inr (Some c)" "length t \<le> 999000" using request_number [OF req] by simp_all
  have nz: "decimal neg core s \<noteq> 0" if "core_ok core" for neg core s
    using core_not_dvd(2) [OF that] by (simp add: decimal_def)
  show ?thesis
  proof (cases "canonicalNumberToken tok False")
    case (Inr co)
    show ?thesis
    proof (cases co)
      case None
      have "number_value tok \<noteq> number_value t"
        by (rule token_core [OF Inr len]; rule token_core [OF t])
          (auto simp: None nz nz [symmetric] split: if_splits dest: decimal_unique)
      then show ?thesis using Inr None by simp
    next
      case (Some c1)
      then show ?thesis using canonical_equal_iff(1) [OF Inr [unfolded Some] len t] Inr by simp
    qed
  next
    case (Inl e)
    then show ?thesis using number_ok_canonical [of tok] canonical_equal_iff(2) [OF t t] by auto
  qed
qed

subsection \<open>Trees of well-formed tokens\<close>

fun json_ok :: "nat \<Rightarrow> json \<Rightarrow> bool" where
  "json_ok N (JStr inner) \<longleftrightarrow> span_ok inner"
| "json_ok N (JScalar tok) \<longleftrightarrow> length tok \<le> N"
| "json_ok N (JArr vs) \<longleftrightarrow> list_all (json_ok N) vs"
| "json_ok N (JObj ms) \<longleftrightarrow> list_all (\<lambda>m. span_ok (fst m) \<and> json_ok N (snd m)) ms"

lemma rawScalar_length: "rawScalar r = Inr (tok, r1) \<Longrightarrow> length tok \<le> length r"
  by (auto simp: rawScalar_def Let_def length_takeWhile_le split: if_splits)

lemma parse_shrinks: "parse k m r = Some (v, r1) \<Longrightarrow> length r1 < length r"
  using skip_parse [of k m r] by (auto dest: skip_shrinks)

lemma parse_json_ok: "parse k m r = Some (v, r1) \<Longrightarrow> length r \<le> N \<Longrightarrow> json_ok N v"
proof (induction k arbitrary: m r v r1)
  case (Suc k)
  note w = ws_length [of r]
  show ?case
  proof (cases m)
    case AtValue
    show ?thesis
    proof (cases "ws r")
      case (Cons c t)
      have l: "length t < length r" "length (c # t) \<le> N" using w Suc.prems(2) by (simp_all add: Cons)
      consider "c = CHR ''{''" "parse k AtObject t = Some (v, r1)" | "c = CHR ''[''" "parse k AtArray t = Some (v, r1)"
        | inner where "rawString (c # t) = Some (inner, r1)" "v = JStr inner"
        | tok where "rawScalar (c # t) = Inr (tok, r1)" "v = JScalar tok"
        using Suc.prems(1) by (auto simp: AtValue Cons split: if_splits option.splits sum.splits)
      then show ?thesis
      proof cases
        case 4
        then show ?thesis using rawScalar_length [OF 4(1)] l(2) by simp
      qed (use Suc.IH l in \<open>auto dest: rawString_span\<close>)
    qed (use Suc.prems(1) in \<open>simp add: AtValue\<close>)
  next
    case AtObject
    then show ?thesis using Suc.prems w by (auto split: list.splits if_splits dest!: Suc.IH)
  next
    case AtArray
    then show ?thesis using Suc.prems w by (auto split: list.splits if_splits dest!: Suc.IH)
  next
    case AtMembers
    then obtain key ra rb x rc d rd where a: "rawString (ws r) = Some (key, ra)" "ws ra = CHR '':'' # rb"
      "parse k AtValue rb = Some (x, rc)" "ws rc = d # rd"
      and e: "(\<exists>ob. parse k AtMembers rd = Some (ob, r1) \<and> v = cons_member key x ob) \<or> v = JObj [(key, x)]"
      using Suc.prems(1) by (auto split: option.splits list.splits if_splits)
    have l: "length rb \<le> N" "length rd \<le> N"
      using Suc.prems(2) w rawString_shrinks [OF a(1)] ws_length [of ra] ws_length [of rc] parse_shrinks [OF a(3)] a(2,4) by auto
    have x: "span_ok key" "json_ok N x" using rawString_span [OF a(1)] Suc.IH [OF a(3) l(1)] by simp_all
    from e show ?thesis
    proof (elim disjE exE conjE)
      fix ob assume p: "parse k AtMembers rd = Some (ob, r1)" and v: "v = cons_member key x ob"
      obtain ms where "ob = JObj ms" using parse_shape [OF p] by (auto simp: shape_ok_def)
      then show ?thesis using Suc.IH [OF p l(2)] x by (simp add: v cons_member_def)
    qed (use x in simp)
  next
    case AtElements
    then obtain x rc d rd where a: "parse k AtValue r = Some (x, rc)" "ws rc = d # rd"
      and e: "(\<exists>ob. parse k AtElements rd = Some (ob, r1) \<and> v = cons_elem x ob) \<or> v = JArr [x]"
      using Suc.prems(1) by (auto split: option.splits list.splits if_splits)
    have l: "length rd \<le> N" using Suc.prems(2) ws_length [of rc] parse_shrinks [OF a(1)] a(2) by auto
    have x: "json_ok N x" using Suc.IH [OF a(1) Suc.prems(2)] .
    from e show ?thesis
    proof (elim disjE exE conjE)
      fix ob assume p: "parse k AtElements rd = Some (ob, r1)" and v: "v = cons_elem x ob"
      obtain vs where "ob = JArr vs" using parse_shape [OF p] by (auto simp: shape_ok_def)
      then show ?thesis using Suc.IH [OF p l] x by (simp add: v cons_elem_def)
    qed (use x in simp)
  qed
qed simp

subsection \<open>Paths and alternatives\<close>

text \<open>The values a declared path reaches: a segment selects every member whose decoded key it is, an array is
  searched element by element at the same position.\<close>

fun reach :: "string list \<Rightarrow> json \<Rightarrow> json list" where
  "reach [] (JStr s) = [JStr s]"
| "reach [] (JScalar t) = [JScalar t]"
| "reach (seg # segs) (JStr s) = []"
| "reach (seg # segs) (JScalar t) = []"
| "reach segs (JArr vs) = concat (map (reach segs) vs)"
| "reach [] (JObj ms) = []"
| "reach (seg # segs) (JObj ms) = concat (map (\<lambda>m. if json_unquote (fst m) = Some seg then reach segs (snd m) else []) ms)"

text \<open>A filter scalar denotes a payload value: same type, and same decoded text or same number.\<close>

definition denotes :: "filterScalar \<Rightarrow> json \<Rightarrow> bool" where
  "denotes sc x = (case fs_kind sc of
     filterFalse \<Rightarrow> x = JScalar ''false''
   | filterTrue \<Rightarrow> x = JScalar ''true''
   | filterNumber \<Rightarrow> (case x of JScalar tok \<Rightarrow> number_value tok = number_value (fs_value sc) | _ \<Rightarrow> False)
   | filterString \<Rightarrow> (case x of JStr inner \<Rightarrow> json_unquote inner = Some (fs_value sc) | _ \<Rightarrow> False))"

lemma denotes_simps [simp]:
  "denotes sc (JStr inner) \<longleftrightarrow> fs_kind sc = filterString \<and> json_unquote inner = Some (fs_value sc)"
  "denotes sc (JScalar tok) \<longleftrightarrow> fs_kind sc = filterFalse \<and> tok = ''false'' \<or> fs_kind sc = filterTrue \<and> tok = ''true''
     \<or> fs_kind sc = filterNumber \<and> number_value tok = number_value (fs_value sc)"
  "\<not> denotes sc (JArr vs)" "\<not> denotes sc (JObj ms)"
  by (cases "fs_kind sc"; simp add: denotes_def)+

definition scalar_ok :: "filterScalar \<Rightarrow> bool" where
  "scalar_ok sc \<longleftrightarrow> (fs_kind sc = filterNumber \<longrightarrow> (\<exists>t. canonicalNumberToken t True = Inr (Some (fs_value sc))))"

definition value_ok :: "filterValue \<Rightarrow> bool" where
  "value_ok v \<longleftrightarrow> list_all scalar_ok (fv_scalars v)"

lemma request_value:
  "canonicalNumberToken t True = Inr (Some c) \<Longrightarrow> number_value c = number_value t \<and> number_value t \<noteq> None"
  using canonical_equal_iff [of t False c t False c] request_number [of t "Some c"] by auto

lemma literal_no_number:
  "number_value ''true'' = None" "number_value ''false'' = None" "number_value ''null'' = None"
  by (simp_all add: number_value_def scan_int_def is_digit_def)

lemma leaf_match_denotes:
  assumes "value_ok v" "json_ok 999000 x"
  shows "leaf_match v x \<longleftrightarrow> (\<exists>sc \<in> set (fv_scalars v). denotes sc x)"
proof -
  have num: "canonicalNumberToken tok False = Inr (Some (fs_value sc)) \<longleftrightarrow> number_value tok = number_value (fs_value sc)"
    "number_value (fs_value sc) \<noteq> None"
    if sc: "sc \<in> set (fv_scalars v)" "fs_kind sc = filterNumber" "length tok \<le> 999000" for sc tok
  proof -
    obtain t where t: "canonicalNumberToken t True = Inr (Some (fs_value sc))"
      using assms(1) sc by (auto simp: value_ok_def scalar_ok_def list_all_iff)
    show "canonicalNumberToken tok False = Inr (Some (fs_value sc)) \<longleftrightarrow> number_value tok = number_value (fs_value sc)"
      "number_value (fs_value sc) \<noteq> None"
      using number_token_match [OF t sc(3)] request_value [OF t] by simp_all
  qed
  show ?thesis
  proof (cases x)
    case (JStr inner)
    then have "span_ok inner" using assms(2) by simp
    then show ?thesis
      by (auto simp: JStr matchesString_def decodedStringEq_decodes)
  next
    case (JScalar tok)
    then have l: "length tok \<le> 999000" using assms(2) by simp
    show ?thesis
    proof (cases "tok \<in> {''true'', ''false'', ''null''}")
      case True
      then have "number_value tok = None" using literal_no_number by auto
      moreover have "\<forall>sc \<in> set (fv_scalars v). fs_kind sc = filterNumber \<longrightarrow> number_value (fs_value sc) \<noteq> None"
        using num(2) [OF _ _ l] by blast
      ultimately have "(\<exists>sc \<in> set (fv_scalars v). denotes sc x) \<longleftrightarrow> (\<exists>sc \<in> set (fv_scalars v).
          fs_kind sc = filterFalse \<and> tok = ''false'' \<or> fs_kind sc = filterTrue \<and> tok = ''true'')"
        unfolding JScalar denotes_simps by metis
      then show ?thesis using True by (auto simp: JScalar matchesScalar_def)
    next
      case False
      then have "leaf_match v x \<longleftrightarrow> (\<exists>sc \<in> set (fv_scalars v). fs_kind sc = filterNumber \<and> canonicalNumberToken tok False = Inr (Some (fs_value sc)))"
        by (cases "canonicalNumberToken tok False"; cases "projr (canonicalNumberToken tok False)")
          (auto simp: JScalar matchesScalar_def)
      also have "\<dots> \<longleftrightarrow> (\<exists>sc \<in> set (fv_scalars v). fs_kind sc = filterNumber \<and> number_value tok = number_value (fs_value sc))"
        using num(1) [OF _ _ l] by blast
      also have "\<dots> \<longleftrightarrow> (\<exists>sc \<in> set (fv_scalars v). denotes sc x)"
        using False by (auto simp: JScalar)
      finally show ?thesis .
    qed
  qed simp_all
qed

subsection \<open>The path trie\<close>

definition empty_node :: filterNode where "empty_node = FilterNode [] []"

text \<open>One term goes into the trie: its path is followed, missing children are made, and the term is appended
  at the last node.\<close>

fun insert_path :: "string list \<Rightarrow> u8 \<times> filterValue \<Rightarrow> filterNode \<Rightarrow> filterNode" where
  "insert_path [] t n = FilterNode (children n) (node_terms n @ [t])"
| "insert_path (seg # segs) t n =
     (let (cl, child) = (case map_of (children n) seg of Some x \<Rightarrow> x | None \<Rightarrow> (cleanASCII seg, empty_node))
      in FilterNode (AList.update seg (cl, insert_path segs t child) (children n)) (node_terms n))"

definition child_at :: "filterNode \<Rightarrow> string \<Rightarrow> filterNode option" where
  "child_at n seg = map_option snd (map_of (children n) seg)"

lemma node_child_at:
  assumes "span_ok key"
  shows "node_child n key = (case json_unquote key of None \<Rightarrow> None | Some seg \<Rightarrow> child_at n seg)"
proof -
  have "map_option (\<lambda>(seg, cl, c). c) (find (\<lambda>(seg, cl, c). json_unquote key = Some seg) cs)
      = (case json_unquote key of None \<Rightarrow> None | Some seg \<Rightarrow> map_option snd (map_of cs seg))" for cs :: "(string \<times> bool \<times> filterNode) list"
    by (induction cs) (auto split: option.splits)
  then show ?thesis using assms unfolding node_child_def child_at_def by (simp add: decodedStringEq_decodes)
qed

lemma insert_path_simps [simp]:
  "node_terms (insert_path (seg # segs) t n) = node_terms n"
  "child_at (insert_path (seg # segs) t n) s =
     (if s = seg then Some (insert_path segs t (case child_at n seg of Some c \<Rightarrow> c | None \<Rightarrow> empty_node)) else child_at n s)"
  by (auto simp: child_at_def update_conv Let_def split: prod.splits option.splits)

declare insert_path.simps(2) [simp del]

lemma hit_obj:
  "json_ok N (JObj ms) \<Longrightarrow> hit n (JObj ms) i \<longleftrightarrow>
     (\<exists>m \<in> set ms. \<exists>seg ch. json_unquote (fst m) = Some seg \<and> child_at n seg = Some ch \<and> hit ch (snd m) i)"
proof -
  have "(case (case k of None \<Rightarrow> None | Some seg \<Rightarrow> child_at n seg) of None \<Rightarrow> False | Some ch \<Rightarrow> P ch)
      \<longleftrightarrow> (\<exists>seg ch. k = Some seg \<and> child_at n seg = Some ch \<and> P ch)" for k P
    by (cases k) (auto split: option.splits)
  then show "json_ok N (JObj ms) \<Longrightarrow> ?thesis" by (auto simp: list_all_iff node_child_at)
qed

lemma hit_empty [simp]: "json_ok N v \<Longrightarrow> \<not> hit empty_node v i"
proof (induction v)
  case (JObj ms)
  then show ?case by (subst hit_obj) (simp_all add: child_at_def empty_node_def)
qed (auto simp: fires_def empty_node_def list_all_iff)

lemma hit_insert:
  "json_ok N v \<Longrightarrow> hit (insert_path segs (b, fv) n) v i \<longleftrightarrow>
     hit n v i \<or> bit b i \<and> (\<exists>x \<in> set (reach segs v). leaf_match fv x)"
proof (induction segs v arbitrary: n rule: reach.induct)
  case (5 segs vs)
  then show ?case by (auto simp: list_all_iff)
next
  case (6 ms)
  have "child_at (insert_path [] (b, fv) n) = child_at n" by (simp add: child_at_def fun_eq_iff)
  then show ?case unfolding hit_obj [OF 6] by simp
next
  case (7 seg segs ms)
  have ok: "json_ok N (snd m)" if "m \<in> set ms" for m using 7(2) that by (simp add: list_all_iff)
  have e: "hit (case child_at n seg of Some c \<Rightarrow> c | None \<Rightarrow> empty_node) (snd m) i \<longleftrightarrow>
      (\<exists>ch. child_at n seg = Some ch \<and> hit ch (snd m) i)" if "m \<in> set ms" for m
    using hit_empty [OF ok [OF that]] by (auto split: option.splits)
  have m: "(\<exists>s ch. json_unquote (fst m) = Some s \<and> child_at (insert_path (seg # segs) (b, fv) n) s = Some ch \<and> hit ch (snd m) i)
      \<longleftrightarrow> (\<exists>s ch. json_unquote (fst m) = Some s \<and> child_at n s = Some ch \<and> hit ch (snd m) i)
        \<or> json_unquote (fst m) = Some seg \<and> bit b i \<and> (\<exists>x \<in> set (reach segs (snd m)). leaf_match fv x)" if "m \<in> set ms" for m
  proof (cases "json_unquote (fst m) = Some seg")
    case True
    then show ?thesis using 7(1) [OF that True ok [OF that]] e [OF that] by simp
  qed auto
  have r: "(\<exists>x \<in> set (reach (seg # segs) (JObj ms)). leaf_match fv x) \<longleftrightarrow>
      (\<exists>m \<in> set ms. json_unquote (fst m) = Some seg \<and> (\<exists>x \<in> set (reach segs (snd m)). leaf_match fv x))"
    by auto
  show ?case unfolding hit_obj [OF 7(2)] r using m by blast
qed (auto simp: fires_def)

lemma trie_ok_iff:
  "trie_ok n \<longleftrightarrow> single_bits (node_terms n) \<and> (\<forall>(seg, cl, c) \<in> set (children n). trie_ok c)"
  by (auto elim: trie_okE intro: trie_ok.intros)

lemma trie_ok_empty [simp]: "trie_ok empty_node"
  by (subst trie_ok_iff) (simp add: empty_node_def single_bits_def)

lemma set_update_subset: "set (AList.update k v al) \<subseteq> insert (k, v) (set al)"
  by (induction al) auto

lemma trie_ok_insert: "trie_ok n \<Longrightarrow> trie_ok (insert_path segs (push_bit i 1, fv) n)"
proof (induction segs arbitrary: n)
  case Nil
  then show ?case by (subst (asm) trie_ok_iff, subst trie_ok_iff) (auto simp: single_bits_def)
next
  case (Cons seg segs)
  have c: "trie_ok (snd x)" if "map_of (children n) seg = Some x" for x
    using Cons.prems map_of_SomeD [OF that] by (cases x) (auto elim: trie_okE)
  have up: "trie_ok (FilterNode (AList.update seg (cl0, c0) (children n)) (node_terms n))" if "trie_ok c0" for cl0 c0
    using Cons.prems that set_update_subset [of seg "(cl0, c0)" "children n"]
    by (subst trie_ok_iff) (fastforce elim: trie_okE)
  show ?case
    using Cons.IH [OF trie_ok_empty] Cons.IH [OF c] up
    by (cases "map_of (children n) seg") (auto simp: insert_path.simps(2) Let_def split: prod.splits)
qed

text \<open>The trie of a list of terms, term \<open>i\<close> with bit \<open>i\<close>, and the mask of all terms.\<close>

definition build_trie :: "(string list \<times> filterValue) list \<Rightarrow> filterNode" where
  "build_trie ts = fold (\<lambda>(i, segs, v) n. insert_path segs (push_bit i 1, v) n) (enumerate 0 ts) empty_node"

definition full_mask :: "'a list \<Rightarrow> u8" where
  "full_mask ts = push_bit (length ts) 1 - 1"

definition term_holds :: "json \<Rightarrow> string list \<times> filterValue \<Rightarrow> bool" where
  "term_holds v t \<longleftrightarrow> (\<exists>x \<in> set (reach (fst t) v). \<exists>sc \<in> set (fv_scalars (snd t)). denotes sc x)"

lemma build_trie_snoc: "build_trie (ts @ [t]) = insert_path (fst t) (push_bit (length ts) 1, snd t) (build_trie ts)"
  by (simp add: build_trie_def enumerate_append_eq case_prod_beta)

lemma build_trie_ok: "trie_ok (build_trie ts)"
  by (induction ts rule: rev_induct) (simp add: build_trie_def, simp only: build_trie_snoc trie_ok_insert)

lemma reach_ok: "json_ok N v \<Longrightarrow> x \<in> set (reach segs v) \<Longrightarrow> json_ok N x"
  by (induction segs v rule: reach.induct) (auto simp: list_all_iff split: if_splits)

lemma build_trie_hit:
  assumes "json_ok 999000 v" "list_all (value_ok \<circ> snd) ts" "length ts \<le> 8"
  shows "hit (build_trie ts) v i \<longleftrightarrow> i < length ts \<and> term_holds v (ts ! i)"
  using assms(2,3)
proof (induction ts rule: rev_induct)
  case Nil
  then show ?case using hit_empty [OF assms(1)] by (simp add: build_trie_def)
next
  case (snoc t ts)
  have "(\<exists>x \<in> set (reach (fst t) v). leaf_match (snd t) x) \<longleftrightarrow> term_holds v t"
    using snoc.prems(1) leaf_match_denotes reach_ok [OF assms(1)] unfolding term_holds_def by (auto simp: list_all_iff)
  moreover have "bit (push_bit (length ts) (1 :: u8)) i \<longleftrightarrow> i = length ts"
    using snoc.prems(2) bit_single [of "length ts" i] by auto
  ultimately show ?case
    unfolding build_trie_snoc hit_insert [OF assms(1)] using snoc by (auto simp: nth_append less_Suc_eq)
qed

lemma full_mask_bit: "bit (full_mask ts) i \<longleftrightarrow> i < length ts \<and> i < 8"
proof -
  have "full_mask ts = (mask (length ts) :: u8)" by (simp add: full_mask_def mask_eq_exp_minus_1)
  then show ?thesis by (auto simp: bit_mask_iff)
qed

text \<open>One pass over a payload decides every term at once. A payload that is not JSON is an error, whatever the terms.\<close>

lemma eval_trie_spec:
  assumes "list_all (value_ok \<circ> snd) ts" "length ts \<le> 8" "length payload \<le> 999000"
  shows "case parse_payload payload of
      None \<Rightarrow> isl (eval_trie (build_trie ts) (full_mask ts) payload)
    | Some v \<Rightarrow> eval_trie (build_trie ts) (full_mask ts) payload = Inr (list_all (term_holds v) ts)"
proof (cases "parse (scan_fuel payload) AtValue payload")
  case None
  then show ?thesis using walk_parse [OF build_trie_ok [of ts], of "scan_fuel payload" AtValue 0 payload]
    by (auto simp: parse_payload_def eval_trie_def isl_def)
next
  case (Some vr)
  then obtain v r where p: "parse (scan_fuel payload) AtValue payload = Some (v, r)" by (cases vr) auto
  obtain bits where b: "walk (scan_fuel payload) AtValue (build_trie ts) 0 payload = Inr (bits, r)" "adds (build_trie ts) v 0 bits"
    using walk_parse [OF build_trie_ok [of ts], of "scan_fuel payload" AtValue 0 payload] p by auto
  have bit: "bit bits i \<longleftrightarrow> i < length ts \<and> term_holds v (ts ! i)" for i
    using b(2) build_trie_hit [OF parse_json_ok [OF p assms(3)] assms(1,2)] by (simp add: adds_def)
  have "bits = full_mask ts \<longleftrightarrow> list_all (term_holds v) ts"
    using assms(2) by (auto simp: bit_eq_iff bit full_mask_bit list_all_length) (meson order_less_le_trans)
  then show ?thesis using p b(1) by (auto simp: parse_payload_def eval_trie_def)
qed

lemma eval_trie_fuel: "eval_trie n full payload \<noteq> Inl OutOfFuel"
  using scan_fuel_enough(2) [of payload n 0] by (auto simp: eval_trie_def split: sum.splits prod.splits if_splits)

text \<open>The single-path matcher: a trie with one path and one string to look for. Its clean flag is the caller's.\<close>

definition pathMatch :: "string \<Rightarrow> string list \<Rightarrow> string \<Rightarrow> bool \<Rightarrow> scan_error + bool" where
  "pathMatch payload segs want wantClean =
     (if segs = [] then Inr False
      else
        let v = \<lparr>fv_in = False, fv_scalars = [\<lparr>fs_kind = filterString, fs_value = want, fs_clean = wantClean\<rparr>]\<rparr>;
            rt = insert_path segs (1, v) empty_node
        in case walk (scan_fuel payload) AtValue rt 0 payload of
             Inl e \<Rightarrow> Inl e
           | Inr (bits, r) \<Rightarrow> if ws r \<noteq> [] then Inl TrailingData else Inr (bits \<noteq> 0))"

lemma pathMatch_spec:
  assumes "segs \<noteq> []" "length payload \<le> 999000"
  shows "case parse_payload payload of
      None \<Rightarrow> isl (pathMatch payload segs want cl)
    | Some v \<Rightarrow> pathMatch payload segs want cl = Inr (\<exists>inner. JStr inner \<in> set (reach segs v) \<and> json_unquote inner = Some want)"
proof -
  define fv where "fv = \<lparr>fv_in = False, fv_scalars = [\<lparr>fs_kind = filterString, fs_value = want, fs_clean = cl\<rparr>]\<rparr>"
  let ?ts = "[(segs, fv)]"
  have rt: "build_trie ?ts = insert_path segs (1, fv) empty_node" by (simp add: build_trie_def)
  have ok: "list_all (value_ok \<circ> snd) ?ts" "length ?ts \<le> 8" by (simp_all add: value_ok_def scalar_ok_def fv_def)
  have pm: "pathMatch payload segs want cl = (case walk (scan_fuel payload) AtValue (build_trie ?ts) 0 payload of
      Inl e \<Rightarrow> Inl e | Inr (bits, r) \<Rightarrow> if ws r \<noteq> [] then Inl TrailingData else Inr (bits \<noteq> 0))"
    using assms(1) unfolding pathMatch_def Let_def rt fv_def [symmetric] by simp
  show ?thesis
  proof (cases "parse (scan_fuel payload) AtValue payload")
    case None
    then show ?thesis using walk_parse [OF build_trie_ok [of ?ts], of "scan_fuel payload" AtValue 0 payload]
      by (auto simp: pm parse_payload_def isl_def)
  next
    case (Some vr)
    then obtain v r where p: "parse (scan_fuel payload) AtValue payload = Some (v, r)" by (cases vr) auto
    obtain bits where b: "walk (scan_fuel payload) AtValue (build_trie ?ts) 0 payload = Inr (bits, r)" "adds (build_trie ?ts) v 0 bits"
      using walk_parse [OF build_trie_ok [of ?ts], of "scan_fuel payload" AtValue 0 payload] p by auto
    have "hit (build_trie ?ts) v i \<longleftrightarrow> i = 0 \<and> term_holds v (segs, fv)" for i
      unfolding build_trie_hit [OF parse_json_ok [OF p assms(2)] ok] by (cases i) simp_all
    then have bit: "bit bits i \<longleftrightarrow> i = 0 \<and> term_holds v (segs, fv)" for i
      using b(2) by (simp add: adds_def)
    have "denotes \<lparr>fs_kind = filterString, fs_value = want, fs_clean = cl\<rparr> x \<longleftrightarrow> (\<exists>inner. x = JStr inner \<and> json_unquote inner = Some want)" for x
      by (cases x) auto
    then have t: "term_holds v (segs, fv) \<longleftrightarrow> (\<exists>inner. JStr inner \<in> set (reach segs v) \<and> json_unquote inner = Some want)"
      by (auto simp: term_holds_def fv_def)
    have "bits = 0" if "\<not> term_holds v (segs, fv)" by (rule bit_eqI) (simp add: bit that)
    moreover have "bits \<noteq> 0" if "term_holds v (segs, fv)" using bit [of 0] that by auto
    ultimately have "bits \<noteq> 0 \<longleftrightarrow> term_holds v (segs, fv)" by blast
    then show ?thesis using p b(1) t by (auto simp: pm parse_payload_def)
  qed
qed

subsection \<open>Properties\<close>

text \<open>
  C38: The payload scan ends. Three calls per payload byte and one more are enough fuel for walking and for skipping
  a value, whatever the trie, and the two agree at every position and any fuel on whether the input
  is accepted and on what is left of it, so a member off every declared path is validated like any other.
\<close>

theorem payload_scan_terminates:
  "walk (scan_fuel payload) AtValue n bits payload \<noteq> Inl OutOfFuel \<and> skip (scan_fuel payload) AtValue payload \<noteq> Inl OutOfFuel
    \<and> map_sum no_fuel snd (walk k m n bits r) = map_sum no_fuel id (skip k m r)"
  using scan_fuel_enough walk_skip by blast

end
