(* ===== verification/Typed_Filter.thy ===== *)
theory Typed_Filter
  imports Payload_Match List_Config
begin

text \<open>
  Typed query filters (\<open>engine/typed_filter.go\<close>) and their compilation against a list's declared fields
  (\<open>engine/filter.go\<close>): the request JSON is parsed with duplicate-aware object walks into terms in name order,
  IN sets are sorted and deduplicated, the whole filter gets one canonical JSON spelling, and compiling
  resolves each name to its declared path and builds the path trie the payload scanner walks.

  A \<open>json.RawMessage\<close> cut out of a document that has already been read is represented by its parse tree:
  decoding it again cannot fail, so those error branches of the source have no counterpart. The JSON grammar
  of \<open>encoding/json\<close> is the one of \<open>parse\<close>, with its nesting limit. A Go map given by a caller is an
  association list with distinct keys; everything here sorts its keys, so their order is immaterial.
\<close>

subsection \<open>Bounds and data\<close>

definition maxTypedFilterAlternatives :: nat where "maxTypedFilterAlternatives = 64"
definition maxTypedFilterCanonical :: nat where "maxTypedFilterCanonical = 32768"
definition maxFilterValueRunes :: nat where "maxFilterValueRunes = 512"

datatype filter_error =
    NotObject
  | Malformed
  | DuplicateName string
  | TooManyNames nat
  | EmptyName
  | NameTooLong string
  | ValueTooLong string
  | BadNumber string number_error
  | NoCanonicalForm
  | NullValue string
  | BadValueType string
  | DuplicateOperator string string
  | NotOneOperator string
  | UnknownOperator string string
  | InNotArray string
  | TooManyAlternatives string
  | InStringTooLong string
  | NestedAlternative string
  | EmptyIn string
  | CanonicalTooLong nat
  | UndeclaredName string

record TypedFilter =
  tf_terms :: "(string \<times> filterValue) list"
  tf_canonical :: string
  tf_alternatives :: nat
  tf_scalarBytes :: nat

definition no_filter :: TypedFilter where
  "no_filter = \<lparr>tf_terms = [], tf_canonical = [], tf_alternatives = 0, tf_scalarBytes = 0\<rparr>"

definition filter_empty :: "TypedFilter \<Rightarrow> bool" where
  "filter_empty f \<longleftrightarrow> length (tf_terms f) = 0"

definition CanonicalJSON :: "TypedFilter \<Rightarrow> string option" where
  "CanonicalJSON f = (if length (tf_terms f) = 0 then None else Some (tf_canonical f))"

definition Names :: "TypedFilter \<Rightarrow> string list" where
  "Names f = map fst (tf_terms f)"

subsection \<open>Canonical spelling\<close>

definition hex_digit :: "nat \<Rightarrow> char" where
  "hex_digit n = ''0123456789abcdef'' ! n"

definition escape_ascii :: "char \<Rightarrow> string" where
  "escape_ascii c =
     (if c = quote \<or> c = backslash then [backslash, c]
      else if c = CHR 0x08 then [backslash, CHR ''b'']
      else if c = CHR 0x0C then [backslash, CHR ''f'']
      else if c = CHR 0x0A then [backslash, CHR ''n'']
      else if c = CHR 0x0D then [backslash, CHR ''r'']
      else if c = CHR 0x09 then [backslash, CHR ''t'']
      else if byte c < 32 then [backslash, CHR ''u'', CHR ''0'', CHR ''0'', hex_digit (byte c div 16), hex_digit (byte c mod 16)]
      else [c])"

function (sequential) json_escape :: "string \<Rightarrow> string" where
  "json_escape [] = []"
| "json_escape (c # r) =
     (if byte c < 128 then escape_ascii c @ json_escape r
      else if rune_width (c # r) = 1 then map char_of [239 :: nat, 191, 189] @ json_escape r
      else take (rune_width (c # r)) (c # r) @ json_escape (drop (rune_width (c # r)) (c # r)))"
  by pat_completeness auto
termination
  by (relation "measure length") (auto simp: rune_width_pos)

declare json_escape.simps(2) [simp del]

definition appendJSONString :: "string \<Rightarrow> string \<Rightarrow> string" where
  "appendJSONString dst s = dst @ [quote] @ json_escape s @ [quote]"

definition appendFilterScalar :: "string \<Rightarrow> filterScalar \<Rightarrow> string" where
  "appendFilterScalar dst sc = (case fs_kind sc of
     filterFalse \<Rightarrow> dst @ ''false''
   | filterTrue \<Rightarrow> dst @ ''true''
   | filterNumber \<Rightarrow> dst @ fs_value sc
   | filterString \<Rightarrow> appendJSONString dst (fs_value sc))"

text \<open>The two nested loops of \<open>finishTypedFilter\<close>, with the index that decides on the comma.\<close>

fun render_scalars :: "nat \<Rightarrow> filterScalar list \<Rightarrow> string \<times> nat \<times> nat \<Rightarrow> string \<times> nat \<times> nat" where
  "render_scalars j [] st = st"
| "render_scalars j (sc # scs) (buf, bytes, alts) =
     (let buf1 = (if j > 0 then buf @ '','' else buf);
          buf2 = appendFilterScalar buf1 sc
      in render_scalars (Suc j) scs (buf2, bytes + (length buf2 - length buf1), alts + 1))"

fun render_terms :: "nat \<Rightarrow> (string \<times> filterValue) list \<Rightarrow> string \<times> nat \<times> nat \<Rightarrow> string \<times> nat \<times> nat" where
  "render_terms i [] st = st"
| "render_terms i ((name, v) # ts) (buf, bytes, alts) =
     (let buf1 = appendJSONString (if i > 0 then buf @ '','' else buf) name @ '':'';
          buf2 = (if fv_in v then buf1 @ [CHR ''{'', quote, CHR ''i'', CHR ''n'', quote, CHR '':'', CHR ''[''] else buf1);
          (buf3, bytes1, alts1) = render_scalars 0 (fv_scalars v) (buf2, bytes, alts);
          buf4 = (if fv_in v then buf3 @ '']}'' else buf3)
      in render_terms (Suc i) ts (buf4, bytes1, alts1))"

definition finishTypedFilter :: "(string \<times> filterValue) list \<Rightarrow> filter_error + TypedFilter" where
  "finishTypedFilter ts =
     (let (buf, bytes, alts) = render_terms 0 ts (''{'', 0, 0);
          canonical = buf @ ''}''
      in if length canonical > maxTypedFilterCanonical then Inl (CanonicalTooLong (length canonical))
         else Inr \<lparr>tf_terms = ts, tf_canonical = canonical, tf_alternatives = alts, tf_scalarBytes = bytes\<rparr>)"

subsection \<open>The legacy string form\<close>

definition validateTypedFilterName :: "string \<Rightarrow> filter_error option" where
  "validateTypedFilterName name =
     (if name = '''' then Some EmptyName
      else if rune_count name > maxFilterNameRunes then Some (NameTooLong name)
      else None)"

definition string_scalar :: "string \<Rightarrow> filterScalar" where
  "string_scalar x = \<lparr>fs_kind = filterString, fs_value = x, fs_clean = cleanASCII x\<rparr>"

definition bool_scalar :: "bool \<Rightarrow> filterScalar" where
  "bool_scalar b = \<lparr>fs_kind = (if b then filterTrue else filterFalse), fs_value = '''', fs_clean = False\<rparr>"

definition number_scalar :: "string \<Rightarrow> filterScalar" where
  "number_scalar canon = \<lparr>fs_kind = filterNumber, fs_value = canon, fs_clean = False\<rparr>"

definition direct_value :: "filterScalar \<Rightarrow> filterValue" where
  "direct_value sc = \<lparr>fv_in = False, fv_scalars = [sc]\<rparr>"

fun string_terms :: "(string \<times> string) list \<Rightarrow> string list \<Rightarrow> filter_error + (string \<times> filterValue) list" where
  "string_terms values [] = Inr []"
| "string_terms values (name # names) =
     (case validateTypedFilterName name of
        Some e \<Rightarrow> Inl e
      | None \<Rightarrow>
          let v = (case map_of values name of None \<Rightarrow> '''' | Some v \<Rightarrow> v) in
          if rune_count v > maxFilterValueRunes then Inl (ValueTooLong name)
          else case string_terms values names of
            Inl e \<Rightarrow> Inl e
          | Inr ts \<Rightarrow> Inr ((name, direct_value (string_scalar v)) # ts))"

definition StringTypedFilter :: "(string \<times> string) list \<Rightarrow> filter_error + TypedFilter" where
  "StringTypedFilter values =
     (if length values = 0 then Inr no_filter
      else if length values > maxFilterFields then Inl (TooManyNames (length values))
      else case string_terms values (sort (map fst values)) of
        Inl e \<Rightarrow> Inl e
      | Inr ts \<Rightarrow> finishTypedFilter ts)"

subsection \<open>Reading the request JSON\<close>

definition maxNestingDepth :: nat where "maxNestingDepth = 10000"

fun json_depth :: "json \<Rightarrow> nat" where
  "json_depth (JStr s) = 0"
| "json_depth (JScalar t) = 0"
| "json_depth (JArr vs) = Suc (Max (insert 0 (json_depth ` set vs)))"
| "json_depth (JObj ms) = Suc (Max (insert 0 ((\<lambda>m. json_depth (snd m)) ` set ms)))"

text \<open>The member loop of \<open>rawObject\<close>: the first value of every decoded key, and the keys seen again.\<close>

fun raw_members :: "(string \<times> json) list \<Rightarrow> (string \<times> json) list \<Rightarrow> string list
    \<Rightarrow> filter_error + (string \<times> json) list \<times> string list" where
  "raw_members [] entries dups = Inr (entries, dups)"
| "raw_members ((k, v) # ms) entries dups =
     (case json_unquote k of
        None \<Rightarrow> Inl Malformed
      | Some key \<Rightarrow>
          if json_depth v > maxNestingDepth then Inl Malformed
          else if map_of entries key \<noteq> None then raw_members ms entries (List.insert key dups)
          else raw_members ms (entries @ [(key, v)]) dups)"

definition rawObject_tree :: "json \<Rightarrow> filter_error + (string \<times> json) list \<times> string list" where
  "rawObject_tree v = (case v of JObj ms \<Rightarrow> raw_members ms [] [] | _ \<Rightarrow> Inl NotObject)"

definition rawObject :: "string \<Rightarrow> filter_error + (string \<times> json) list \<times> string list" where
  "rawObject raw = (case parse_payload raw of
     None \<Rightarrow> Inl (case ws raw of c # _ \<Rightarrow> if c = CHR ''{'' then Malformed else NotObject | [] \<Rightarrow> NotObject)
   | Some v \<Rightarrow> rawObject_tree v)"

text \<open>What a filter scalar is read from: a string, a literal, or a number token.\<close>

definition number_value_scalar :: "string \<Rightarrow> string \<Rightarrow> filter_error + filterScalar" where
  "number_value_scalar name tok = (case canonicalNumberToken tok True of
     Inl e \<Rightarrow> Inl (BadNumber name e)
   | Inr None \<Rightarrow> Inl NoCanonicalForm
   | Inr (Some canon) \<Rightarrow> Inr (number_scalar canon))"

definition parseTypedScalar :: "string \<Rightarrow> json \<Rightarrow> filter_error + filterScalar" where
  "parseTypedScalar name v = (case v of
     JStr inner \<Rightarrow>
       (case json_unquote inner of
          None \<Rightarrow> Inl Malformed
        | Some x \<Rightarrow> if rune_count x > maxFilterValueRunes then Inl (InStringTooLong name) else Inr (string_scalar x))
   | JScalar tok \<Rightarrow>
       if tok = ''true'' then Inr (bool_scalar True)
       else if tok = ''false'' then Inr (bool_scalar False)
       else if tok = ''null'' then Inl (NestedAlternative name)
       else number_value_scalar name tok
   | _ \<Rightarrow> Inl (NestedAlternative name))"

definition kind_ord :: "filterScalarKind \<Rightarrow> int" where
  "kind_ord k = (case k of filterFalse \<Rightarrow> 0 | filterTrue \<Rightarrow> 1 | filterNumber \<Rightarrow> 2 | filterString \<Rightarrow> 3)"

definition compareFilterScalar :: "filterScalar \<Rightarrow> filterScalar \<Rightarrow> int" where
  "compareFilterScalar a b =
     (if fs_kind a \<noteq> fs_kind b then kind_ord (fs_kind a) - kind_ord (fs_kind b)
      else case fs_kind a of
        filterNumber \<Rightarrow> compareCanonicalNumbers (fs_value a) (fs_value b)
      | filterString \<Rightarrow> str_compare (fs_value a) (fs_value b)
      | _ \<Rightarrow> 0)"

text \<open>\<open>sort.Slice\<close> by \<open>compareFilterScalar\<close>. Its order of equal elements is open, but equal alternatives
  are identical (\<open>compare_zero\<close>), so there is only one result.\<close>

fun insert_scalar :: "filterScalar \<Rightarrow> filterScalar list \<Rightarrow> filterScalar list" where
  "insert_scalar x [] = [x]"
| "insert_scalar x (y # ys) = (if compareFilterScalar y x < 0 then y # insert_scalar x ys else x # y # ys)"

definition sort_scalars :: "filterScalar list \<Rightarrow> filterScalar list" where
  "sort_scalars xs = foldr insert_scalar xs []"

fun drop_repeats :: "filterScalar list \<Rightarrow> filterScalar list \<Rightarrow> filterScalar list" where
  "drop_repeats out [] = out"
| "drop_repeats out (s # ss) =
     drop_repeats (if out = [] \<or> compareFilterScalar (last out) s \<noteq> 0 then out @ [s] else out) ss"

fun parse_alternatives :: "string \<Rightarrow> json list \<Rightarrow> filterScalar list \<Rightarrow> filter_error + filterScalar list" where
  "parse_alternatives name [] scalars = Inr scalars"
| "parse_alternatives name (v # vs) scalars =
     (if length scalars = maxTypedFilterAlternatives then Inl (TooManyAlternatives name)
      else case parseTypedScalar name v of
        Inl e \<Rightarrow> Inl e
      | Inr s \<Rightarrow> parse_alternatives name vs (scalars @ [s]))"

definition in_value :: "filterScalar list \<Rightarrow> filterValue" where
  "in_value scalars =
     (let out = drop_repeats [] (sort_scalars scalars) in
      if length out = 1 then \<lparr>fv_in = False, fv_scalars = out\<rparr> else \<lparr>fv_in = True, fv_scalars = out\<rparr>)"

definition parseTypedIn :: "string \<Rightarrow> json \<Rightarrow> filter_error + filterValue" where
  "parseTypedIn name v = (case rawObject_tree v of
     Inl e \<Rightarrow> Inl e
   | Inr (entries, dups) \<Rightarrow>
       if dups \<noteq> [] then Inl (DuplicateOperator name (hd (sort dups)))
       else if length entries \<noteq> 1 then Inl (NotOneOperator name)
       else case map_of entries ''in'' of
         None \<Rightarrow> Inl (UnknownOperator name (hd (sort (map fst entries))))
       | Some (JArr vs) \<Rightarrow>
           (case parse_alternatives name vs [] of
              Inl e \<Rightarrow> Inl e
            | Inr scalars \<Rightarrow> if length scalars = 0 then Inl (EmptyIn name) else Inr (in_value scalars))
       | Some _ \<Rightarrow> Inl (InNotArray name))"

definition parseTypedFilterValue :: "string \<Rightarrow> json \<Rightarrow> filter_error + filterValue" where
  "parseTypedFilterValue name v = (case v of
     JStr inner \<Rightarrow>
       (case json_unquote inner of
          None \<Rightarrow> Inl Malformed
        | Some x \<Rightarrow> if rune_count x > maxFilterValueRunes then Inl (ValueTooLong name) else Inr (direct_value (string_scalar x)))
   | JScalar tok \<Rightarrow>
       if tok = ''true'' then Inr (direct_value (bool_scalar True))
       else if tok = ''false'' then Inr (direct_value (bool_scalar False))
       else if tok = ''null'' then Inl (NullValue name)
       else map_sum id direct_value (number_value_scalar name tok)
   | JObj ms \<Rightarrow> parseTypedIn name v
   | JArr vs \<Rightarrow> Inl (BadValueType name))"

fun parse_terms :: "(string \<times> json) list \<Rightarrow> string list \<Rightarrow> filter_error + (string \<times> filterValue) list" where
  "parse_terms entries [] = Inr []"
| "parse_terms entries (name # names) =
     (case validateTypedFilterName name of
        Some e \<Rightarrow> Inl e
      | None \<Rightarrow>
          (case map_of entries name of
             None \<Rightarrow> Inl Malformed
           | Some v \<Rightarrow>
               (case parseTypedFilterValue name v of
                  Inl e \<Rightarrow> Inl e
                | Inr value \<Rightarrow>
                    (case parse_terms entries names of Inl e \<Rightarrow> Inl e | Inr ts \<Rightarrow> Inr ((name, value) # ts)))))"

definition ParseTypedFilter :: "string \<Rightarrow> filter_error + TypedFilter" where
  "ParseTypedFilter raw = (case rawObject raw of
     Inl e \<Rightarrow> Inl e
   | Inr (entries, dups) \<Rightarrow>
       if dups \<noteq> [] then Inl (DuplicateName (hd (sort dups)))
       else if length entries = 0 then Inr no_filter
       else if length entries > maxFilterFields then Inl (TooManyNames (length entries))
       else case parse_terms entries (sort (map fst entries)) of
         Inl e \<Rightarrow> Inl e
       | Inr ts \<Rightarrow> finishTypedFilter ts)"

subsection \<open>Compiling against a list's declarations\<close>

record filterTerm =
  ft_name :: string
  ft_segs :: "string list"
  ft_value :: filterValue
  ft_segsClean :: bool

record compiledFilter =
  cf_terms :: "filterTerm list"
  cf_root :: filterNode
  cf_full :: u8
  cf_canonical :: string
  cf_alternatives :: nat
  cf_scalarBytes :: nat
  cf_legacy :: "(string \<times> string) list option"

text \<open>\<open>slices.BinarySearchFunc\<close>: the search interval, then the test of the position found.\<close>

function search_from :: "('a \<Rightarrow> int) \<Rightarrow> 'a list \<Rightarrow> nat \<Rightarrow> nat \<Rightarrow> nat" where
  "search_from cmp xs i j =
     (if i < j then
        let h = (i + j) div 2 in
        if cmp (xs ! h) < 0 then search_from cmp xs (h + 1) j else search_from cmp xs i h
      else i)"
  by pat_completeness auto
termination
  by (relation "measure (\<lambda>(cmp, xs, i, j). j - i)") auto

declare search_from.simps [simp del]

definition binary_search :: "('a \<Rightarrow> int) \<Rightarrow> 'a list \<Rightarrow> nat \<times> bool" where
  "binary_search cmp xs =
     (let i = search_from cmp xs 0 (length xs) in (i, i < length xs \<and> cmp (xs ! i) = 0))"

definition compile_term :: "filter_field list \<Rightarrow> string \<times> filterValue \<Rightarrow> filter_error + filterTerm" where
  "compile_term fls t =
     (let (name, value) = t;
          (i, found) = binary_search (\<lambda>f. str_compare (ff_Name f) name) fls
      in if \<not> found then Inl (UndeclaredName name)
         else let segs = split_on (CHR ''.'') (ff_Path (fls ! i)) in
           Inr \<lparr>ft_name = name, ft_segs = segs, ft_value = value, ft_segsClean = list_all cleanASCII segs\<rparr>)"

fun compile_terms :: "filter_field list \<Rightarrow> (string \<times> filterValue) list \<Rightarrow> filter_error + filterTerm list" where
  "compile_terms fls [] = Inr []"
| "compile_terms fls (t # ts) =
     (case compile_term fls t of
        Inl e \<Rightarrow> Inl e
      | Inr ft \<Rightarrow> (case compile_terms fls ts of Inl e \<Rightarrow> Inl e | Inr fts \<Rightarrow> Inr (ft # fts)))"

definition trie_terms :: "filterTerm list \<Rightarrow> (string list \<times> filterValue) list" where
  "trie_terms fts = map (\<lambda>t. (ft_segs t, ft_value t)) fts"

definition compileTypedFilter :: "filter_field list \<Rightarrow> TypedFilter \<Rightarrow> filter_error + compiledFilter option" where
  "compileTypedFilter fls f =
     (if filter_empty f then Inr None
      else case compile_terms fls (tf_terms f) of
        Inl e \<Rightarrow> Inl e
      | Inr fts \<Rightarrow> Inr (Some \<lparr>cf_terms = fts, cf_root = build_trie (trie_terms fts), cf_full = full_mask fts,
          cf_canonical = tf_canonical f, cf_alternatives = tf_alternatives f, cf_scalarBytes = tf_scalarBytes f,
          cf_legacy = None\<rparr>))"

definition compileFilter :: "filter_field list \<Rightarrow> (string \<times> string) list \<Rightarrow> filter_error + compiledFilter option" where
  "compileFilter fls values = (case StringTypedFilter values of
     Inl e \<Rightarrow> Inl e
   | Inr expr \<Rightarrow>
       (case compileTypedFilter fls expr of
          Inr (Some cf) \<Rightarrow> Inr (Some (cf\<lparr>cf_legacy := Some values\<rparr>))
        | r \<Rightarrow> r))"

definition cf_eval :: "compiledFilter \<Rightarrow> string \<Rightarrow> scan_error + bool" where
  "cf_eval f payload = eval_trie (cf_root f) (cf_full f) payload"

definition cf_applied :: "compiledFilter option \<Rightarrow> (string \<times> string) list option" where
  "cf_applied f = Option.bind f cf_legacy"

definition appliedJSON :: "compiledFilter option \<Rightarrow> string option" where
  "appliedJSON f = map_option cf_canonical f"

subsection \<open>Names resolve to their declarations\<close>

lemma str_compare_iff: "str_compare a b < 0 \<longleftrightarrow> a < b" "str_compare a b = 0 \<longleftrightarrow> a = b"
  by (induction a b rule: str_compare.induct) (auto simp: less_list_code)

lemma search_from_spec:
  assumes mono: "\<And>a b. a \<le> b \<Longrightarrow> b < length xs \<Longrightarrow> cmp (xs ! b) < 0 \<Longrightarrow> cmp (xs ! a) < 0"
  shows "i \<le> j \<Longrightarrow> j \<le> length xs \<Longrightarrow> \<forall>a < i. cmp (xs ! a) < 0 \<Longrightarrow> \<forall>a. j \<le> a \<and> a < length xs \<longrightarrow> \<not> cmp (xs ! a) < 0 \<Longrightarrow>
    (\<forall>a < search_from cmp xs i j. cmp (xs ! a) < 0) \<and>
    (\<forall>a. search_from cmp xs i j \<le> a \<and> a < length xs \<longrightarrow> \<not> cmp (xs ! a) < 0)"
proof (induction "j - i" arbitrary: i j rule: less_induct)
  case less
  show ?case
  proof (cases "i < j")
    case True
    define h where "h = (i + j) div 2"
    have h: "i \<le> h" "h < j" using True by (auto simp: h_def)
    have step: "search_from cmp xs i j = (if cmp (xs ! h) < 0 then search_from cmp xs (h + 1) j else search_from cmp xs i h)"
      by (subst search_from.simps) (simp add: True h_def Let_def)
    show ?thesis
    proof (cases "cmp (xs ! h) < 0")
      case lt: True
      have "\<forall>a < h + 1. cmp (xs ! a) < 0" using mono [of _ h] h less.prems lt by auto
      then show ?thesis unfolding step if_P [OF lt]
        by (intro less.hyps) (use h less.prems in simp_all)
    next
      case ge: False
      have "\<forall>a. h \<le> a \<and> a < length xs \<longrightarrow> \<not> cmp (xs ! a) < 0" using mono [of h] ge by blast
      then show ?thesis unfolding step if_not_P [OF ge]
        by (intro less.hyps) (use h less.prems in simp_all)
    qed
  next
    case False
    have "search_from cmp xs i j = i" by (subst search_from.simps) (simp add: False)
    then show ?thesis using less.prems False by simp
  qed
qed

lemma binary_search_field:
  assumes "sorted (map ff_Name fls)"
  shows "case binary_search (\<lambda>f. str_compare (ff_Name f) name) fls of
    (i, found) \<Rightarrow> (found \<longleftrightarrow> name \<in> ff_Name ` set fls) \<and> (found \<longrightarrow> i < length fls \<and> ff_Name (fls ! i) = name)"
proof -
  let ?cmp = "\<lambda>f. str_compare (ff_Name f) name"
  let ?i = "search_from ?cmp fls 0 (length fls)"
  have "?cmp (fls ! a) < 0" if "a \<le> b" "b < length fls" "?cmp (fls ! b) < 0" for a b
    using sorted_nth_mono [OF assms, of a b] that by (auto simp: str_compare_iff)
  then have "(\<forall>a < ?i. ?cmp (fls ! a) < 0) \<and> (\<forall>a. ?i \<le> a \<and> a < length fls \<longrightarrow> \<not> ?cmp (fls ! a) < 0)"
    by (intro search_from_spec) auto
  then have s: "\<forall>a < ?i. ff_Name (fls ! a) < name" "\<forall>a. ?i \<le> a \<and> a < length fls \<longrightarrow> \<not> ff_Name (fls ! a) < name"
    by (simp_all add: str_compare_iff)
  have fwd: "?i < length fls \<and> ff_Name (fls ! ?i) = name" if "name \<in> ff_Name ` set fls"
  proof -
    from that obtain b where b: "b < length fls" "ff_Name (fls ! b) = name" by (auto simp: in_set_conv_nth)
    then have "?i \<le> b" using s(1) by (metis less_irrefl not_le)
    then have "ff_Name (fls ! ?i) \<le> name" using sorted_nth_mono [OF assms, of ?i b] b by simp
    moreover have "?i < length fls" using \<open>?i \<le> b\<close> b(1) by (rule le_less_trans)
    ultimately show ?thesis using s(2) by (meson antisym_conv2 le_refl)
  qed
  have bwd: "name \<in> ff_Name ` set fls" if "?i < length fls \<and> ff_Name (fls ! ?i) = name"
    using that by (metis image_eqI nth_mem)
  show ?thesis unfolding binary_search_def Let_def prod.case str_compare_iff using fwd bwd by blast
qed

text \<open>The path a list declares for a logical name.\<close>

definition declared_path :: "filter_field list \<Rightarrow> string \<Rightarrow> string option" where
  "declared_path fls name = map_of (map (\<lambda>f. (ff_Name f, ff_Path f)) fls) name"

lemma compile_term_cases:
  assumes "sorted (map ff_Name fls)" "distinct (map ff_Name fls)"
  shows "compile_term fls (name, v) = (case declared_path fls name of
     None \<Rightarrow> Inl (UndeclaredName name)
   | Some p \<Rightarrow> Inr \<lparr>ft_name = name, ft_segs = split_on (CHR ''.'') p, ft_value = v,
       ft_segsClean = list_all cleanASCII (split_on (CHR ''.'') p)\<rparr>)"
proof -
  obtain i found where b: "binary_search (\<lambda>f. str_compare (ff_Name f) name) fls = (i, found)" by force
  have f: "found \<longleftrightarrow> name \<in> ff_Name ` set fls" "found \<Longrightarrow> i < length fls \<and> ff_Name (fls ! i) = name"
    using binary_search_field [OF assms(1), of name] b by auto
  have "declared_path fls name = (if found then Some (ff_Path (fls ! i)) else None)"
  proof (cases found)
    case True
    have "(ff_Name (fls ! i), ff_Path (fls ! i)) \<in> set (map (\<lambda>f. (ff_Name f, ff_Path f)) fls)" using f(2) True by auto
    then show ?thesis using f(2) True assms(2)
      by (auto simp: declared_path_def comp_def intro!: map_of_is_SomeI)
  next
    case False
    then show ?thesis using f(1) by (auto simp: declared_path_def map_of_eq_None_iff)
  qed
  then show ?thesis by (simp add: compile_term_def b Let_def)
qed

lemma compile_terms_Inr:
  assumes "sorted (map ff_Name fls)" "distinct (map ff_Name fls)" "compile_terms fls ts = Inr fts"
  shows "trie_terms fts = map (\<lambda>(name, v). (split_on (CHR ''.'') (the (declared_path fls name)), v)) ts
    \<and> length fts = length ts \<and> (\<forall>(name, v) \<in> set ts. declared_path fls name \<noteq> None)"
  using assms(3)
proof (induction ts arbitrary: fts)
  case (Cons t ts)
  obtain name v where t: "t = (name, v)" by force
  show ?case using Cons
    by (auto simp: t compile_term_cases [OF assms(1,2)] trie_terms_def split: option.splits sum.splits)
qed (simp add: trie_terms_def)

lemma compile_terms_Inl:
  assumes "sorted (map ff_Name fls)" "distinct (map ff_Name fls)"
  shows "compile_terms fls ts = Inl e \<longleftrightarrow>
    (\<exists>ts1 name v ts2. ts = ts1 @ (name, v) # ts2 \<and> e = UndeclaredName name \<and> declared_path fls name = None
       \<and> (\<forall>t \<in> set ts1. declared_path fls (fst t) \<noteq> None))"
proof (induction ts)
  case (Cons t ts)
  obtain name v where t: "t = (name, v)" by force
  show ?case
  proof (cases "declared_path fls name")
    case None
    then have "compile_terms fls (t # ts) = Inl e \<longleftrightarrow> e = UndeclaredName name"
      by (auto simp: t compile_term_cases [OF assms])
    moreover have "e = UndeclaredName name" if "t # ts = ts1 @ (n, w) # ts2" "e = UndeclaredName n"
      "\<forall>t \<in> set ts1. declared_path fls (fst t) \<noteq> None" for ts1 n w ts2
      using that None by (auto simp: t Cons_eq_append_conv)
    ultimately show ?thesis using None t by (metis append_Nil empty_iff list.set(1))
  next
    case (Some p)
    have "compile_terms fls (t # ts) = Inl e \<longleftrightarrow> compile_terms fls ts = Inl e"
      by (simp add: t compile_term_cases [OF assms] Some split: sum.splits)
    also have "\<dots> \<longleftrightarrow> (\<exists>ts1 n w ts2. t # ts = (t # ts1) @ (n, w) # ts2 \<and> e = UndeclaredName n \<and> declared_path fls n = None
        \<and> (\<forall>t \<in> set (t # ts1). declared_path fls (fst t) \<noteq> None))"
      unfolding Cons using Some by (simp add: t)
    also have "\<dots> \<longleftrightarrow> (\<exists>ts1 n w ts2. t # ts = ts1 @ (n, w) # ts2 \<and> e = UndeclaredName n \<and> declared_path fls n = None
        \<and> (\<forall>t \<in> set ts1. declared_path fls (fst t) \<noteq> None))"
    proof
      assume "\<exists>ts1 n w ts2. t # ts = ts1 @ (n, w) # ts2 \<and> e = UndeclaredName n \<and> declared_path fls n = None
        \<and> (\<forall>t \<in> set ts1. declared_path fls (fst t) \<noteq> None)"
      then obtain ts1 n w ts2 where x: "t # ts = ts1 @ (n, w) # ts2" "e = UndeclaredName n" "declared_path fls n = None"
        "\<forall>t \<in> set ts1. declared_path fls (fst t) \<noteq> None" by blast
      then obtain ts1' where "ts1 = t # ts1'" using Some t by (cases ts1) auto
      then show "\<exists>ts1 n w ts2. t # ts = (t # ts1) @ (n, w) # ts2 \<and> e = UndeclaredName n \<and> declared_path fls n = None
        \<and> (\<forall>t \<in> set (t # ts1). declared_path fls (fst t) \<noteq> None)" using x by blast
    qed blast
    finally show ?thesis .
  qed
qed simp

subsection \<open>Well-formed alternatives\<close>

definition scalar_wf :: "filterScalar \<Rightarrow> bool" where
  "scalar_wf sc = (case fs_kind sc of
     filterFalse \<Rightarrow> sc = bool_scalar False
   | filterTrue \<Rightarrow> sc = bool_scalar True
   | filterNumber \<Rightarrow> sc = number_scalar (fs_value sc) \<and> (\<exists>t. canonicalNumberToken t True = Inr (Some (fs_value sc)))
   | filterString \<Rightarrow> sc = string_scalar (fs_value sc))"

text \<open>The order of alternatives: by kind, then by number or by text.\<close>

definition scalar_key :: "filterScalar \<Rightarrow> int \<times> rat \<times> string" where
  "scalar_key sc = (kind_ord (fs_kind sc),
     if fs_kind sc = filterNumber then the (number_value (fs_value sc)) else 0,
     if fs_kind sc = filterString then fs_value sc else '''')"

lemma scalar_wf_ok: "scalar_wf sc \<Longrightarrow> scalar_ok sc"
  by (auto simp: scalar_wf_def scalar_ok_def)

lemma kind_ord_eq: "kind_ord j = kind_ord k \<longleftrightarrow> j = k"
  by (cases j; cases k) (simp_all add: kind_ord_def)

lemma compare_key:
  assumes "scalar_wf a" "scalar_wf b"
  shows "compareFilterScalar a b < 0 \<longleftrightarrow> scalar_key a < scalar_key b"
    "compareFilterScalar a b = 0 \<longleftrightarrow> a = b" "scalar_key a = scalar_key b \<longleftrightarrow> a = b"
proof -
  have num: "(compareCanonicalNumbers (fs_value a) (fs_value b) < 0 \<longleftrightarrow> the (number_value (fs_value a)) < the (number_value (fs_value b)))
      \<and> (compareCanonicalNumbers (fs_value a) (fs_value b) = 0 \<longleftrightarrow> fs_value a = fs_value b)
      \<and> (the (number_value (fs_value a)) = the (number_value (fs_value b)) \<longleftrightarrow> fs_value a = fs_value b)"
    if k: "fs_kind a = filterNumber" "fs_kind b = filterNumber"
  proof -
    obtain s t where st: "canonicalNumberToken s True = Inr (Some (fs_value a))" "canonicalNumberToken t True = Inr (Some (fs_value b))"
      using assms k by (auto simp: scalar_wf_def)
    have l: "length s \<le> 999000" "length t \<le> 999000" using st [THEN request_number] by simp_all
    show ?thesis
      using canonical_compare [OF st(1) l(1) st(2) l(2)] canonical_equal_iff [OF st(1) l(1) st(2) l(2)]
        st [THEN request_value] by auto
  qed
  show "compareFilterScalar a b < 0 \<longleftrightarrow> scalar_key a < scalar_key b"
    using num by (cases "fs_kind a"; cases "fs_kind b") (auto simp: compareFilterScalar_def scalar_key_def kind_ord_def str_compare_iff)
  show "compareFilterScalar a b = 0 \<longleftrightarrow> a = b" "scalar_key a = scalar_key b \<longleftrightarrow> a = b"
    using assms num
    by (cases "fs_kind a"; cases "fs_kind b"; auto simp: compareFilterScalar_def scalar_key_def scalar_wf_def kind_ord_def str_compare_iff)+
qed

lemma insert_scalar_set [simp]: "set (insert_scalar x ys) = insert x (set ys)"
  by (induction ys) auto

lemma insert_scalar_length [simp]: "length (insert_scalar x ys) = Suc (length ys)"
  by (induction ys) auto

lemma insert_scalar_sorted:
  "\<forall>y \<in> set (x # ys). scalar_wf y \<Longrightarrow> sorted (map scalar_key ys) \<Longrightarrow> sorted (map scalar_key (insert_scalar x ys))"
  by (induction ys) (auto simp: compare_key not_less intro: order_less_imp_le)

lemma sort_scalars_set [simp]: "set (sort_scalars xs) = set xs"
  by (induction xs) (simp_all add: sort_scalars_def)

lemma sort_scalars_length [simp]: "length (sort_scalars xs) = length xs"
  by (induction xs) (simp_all add: sort_scalars_def)

lemma sort_scalars_sorted: "\<forall>y \<in> set xs. scalar_wf y \<Longrightarrow> sorted (map scalar_key (sort_scalars xs))"
proof (induction xs)
  case (Cons x xs)
  then show ?case using insert_scalar_sorted [of x "sort_scalars xs"] sort_scalars_set [of xs] by (simp add: sort_scalars_def)
qed (simp add: sort_scalars_def)

lemma drop_repeats_spec:
  assumes "\<forall>y \<in> set (out @ ss). scalar_wf y" "sorted_wrt (<) (map scalar_key out)" "sorted (map scalar_key (out @ ss))"
  shows "set (drop_repeats out ss) = set (out @ ss) \<and> sorted_wrt (<) (map scalar_key (drop_repeats out ss))
    \<and> length (drop_repeats out ss) \<le> length (out @ ss)"
  using assms
proof (induction ss arbitrary: out)
  case (Cons s ss)
  have lst: "scalar_wf (last out)" "last out \<in> set out" if "out \<noteq> []" using that Cons.prems(1) by auto
  show ?case
  proof (cases "out = [] \<or> compareFilterScalar (last out) s \<noteq> 0")
    case True
    have lt: "scalar_key y < scalar_key s" if "y \<in> set out" for y
    proof -
      have le: "scalar_key y \<le> scalar_key s" using Cons.prems(3) that by (auto simp: sorted_append)
      have "out \<noteq> []" using that by auto
      then have "last out \<noteq> s" using True lst Cons.prems(1) compare_key(2) [of "last out" s] by auto
      then have neq: "scalar_key (last out) \<noteq> scalar_key s" using compare_key(3) [of "last out" s] lst \<open>out \<noteq> []\<close> Cons.prems(1) by auto
      have "scalar_key y \<le> scalar_key (last out)"
      proof -
        have "sorted (map scalar_key out)" using Cons.prems(3) by (simp add: sorted_append)
        then show ?thesis using that \<open>out \<noteq> []\<close>
          by (induction out) (auto simp: neq_Nil_conv dest: bspec split: if_splits)
      qed
      moreover have "scalar_key (last out) \<le> scalar_key s" using Cons.prems(3) lst(2) [OF \<open>out \<noteq> []\<close>] by (auto simp: sorted_append)
      ultimately show ?thesis using neq by simp
    qed
    then have "sorted_wrt (<) (map scalar_key (out @ [s]))" using Cons.prems(2) by (auto simp: sorted_wrt_append)
    then show ?thesis using Cons.IH [of "out @ [s]"] Cons.prems True by simp
  next
    case False
    then have "s \<in> set out" using compare_key(2) [of "last out" s] lst Cons.prems(1) by auto
    then show ?thesis using Cons.IH [of out] Cons.prems False by (auto simp: sorted_append)
  qed
qed simp

lemma strict_sorted_unique:
  assumes "sorted_wrt (<) (map scalar_key xs)" "sorted_wrt (<) (map scalar_key ys)" "set xs = set ys"
    "\<forall>x \<in> set xs. scalar_wf x"
  shows "xs = ys"
proof -
  have "map scalar_key xs = map scalar_key ys"
    using assms(1-3) strict_sorted_equal [of "map scalar_key xs" "map scalar_key ys"] by simp
  moreover have "inj_on scalar_key (set xs \<union> set ys)" using assms(3,4) compare_key(3) by (auto intro!: inj_onI)
  ultimately show ?thesis by (metis map_inj_on)
qed

text \<open>IN is a set: neither the order nor the repetition of its alternatives can be told from the filter.\<close>

lemma in_value_set:
  assumes "\<forall>x \<in> set xs. scalar_wf x" "set xs = set ys"
  shows "in_value xs = in_value ys"
proof -
  have "drop_repeats [] (sort_scalars xs) = drop_repeats [] (sort_scalars ys)"
    using drop_repeats_spec [of "[]" "sort_scalars xs"] drop_repeats_spec [of "[]" "sort_scalars ys"] assms
      sort_scalars_sorted [of xs] sort_scalars_sorted [of ys]
    by (intro strict_sorted_unique) simp_all
  then show ?thesis by (simp add: in_value_def)
qed

subsection \<open>What parsing returns\<close>

definition value_wf :: "filterValue \<Rightarrow> bool" where
  "value_wf v \<longleftrightarrow> list_all scalar_wf (fv_scalars v) \<and> sorted_wrt (<) (map scalar_key (fv_scalars v))
     \<and> 0 < length (fv_scalars v) \<and> length (fv_scalars v) \<le> maxTypedFilterAlternatives
     \<and> (fv_in v \<longleftrightarrow> length (fv_scalars v) \<noteq> 1)"

definition terms_wf :: "(string \<times> filterValue) list \<Rightarrow> bool" where
  "terms_wf ts \<longleftrightarrow> sorted_wrt (<) (map fst ts) \<and> length ts \<le> maxFilterFields
     \<and> list_all (\<lambda>(name, v). validateTypedFilterName name = None \<and> value_wf v) ts"

lemma scalars_wf [simp]: "scalar_wf (string_scalar x)" "scalar_wf (bool_scalar b)"
  "canonicalNumberToken t True = Inr (Some c) \<Longrightarrow> scalar_wf (number_scalar c)"
  by (auto simp: scalar_wf_def string_scalar_def bool_scalar_def number_scalar_def)

lemma direct_value_wf: "scalar_wf sc \<Longrightarrow> value_wf (direct_value sc)"
  by (simp add: value_wf_def direct_value_def maxTypedFilterAlternatives_def)

lemma number_value_scalar_wf:
  "number_value_scalar name tok = Inr sc \<Longrightarrow> scalar_wf sc" "number_value_scalar name tok \<noteq> Inl NoCanonicalForm"
  using request_number [of tok None]
  by (auto simp: number_value_scalar_def split: sum.splits option.splits)

lemma parseTypedScalar_wf:
  "parseTypedScalar name v = Inr sc \<Longrightarrow> scalar_wf sc" "parseTypedScalar name v \<noteq> Inl NoCanonicalForm"
  by (auto simp: parseTypedScalar_def number_value_scalar_wf split: json.splits option.splits if_splits)

lemma parse_alternatives_wf:
  "parse_alternatives name vs acc = Inr scs \<Longrightarrow> list_all scalar_wf acc \<Longrightarrow> length acc \<le> maxTypedFilterAlternatives \<Longrightarrow>
     list_all scalar_wf scs \<and> length scs = length acc + length vs \<and> length scs \<le> maxTypedFilterAlternatives"
proof (induction vs arbitrary: acc)
  case (Cons v vs)
  then obtain s where s: "parseTypedScalar name v = Inr s" "parse_alternatives name vs (acc @ [s]) = Inr scs"
    "length acc \<noteq> maxTypedFilterAlternatives"
    by (auto split: if_splits sum.splits)
  then show ?case using Cons.IH [OF s(2)] Cons.prems(2,3) parseTypedScalar_wf(1) [OF s(1)] by simp
qed simp

lemma parse_alternatives_no_panic: "parse_alternatives name vs acc \<noteq> Inl NoCanonicalForm"
  by (induction vs arbitrary: acc) (auto simp: parseTypedScalar_wf split: sum.splits)

lemma in_value_wf:
  assumes "list_all scalar_wf scs" "scs \<noteq> []" "length scs \<le> maxTypedFilterAlternatives"
  shows "value_wf (in_value scs)" "set (fv_scalars (in_value scs)) = set scs"
proof -
  have d: "set (drop_repeats [] (sort_scalars scs)) = set scs \<and> sorted_wrt (<) (map scalar_key (drop_repeats [] (sort_scalars scs)))
      \<and> length (drop_repeats [] (sort_scalars scs)) \<le> length scs"
    using drop_repeats_spec [of "[]" "sort_scalars scs"] sort_scalars_sorted [of scs] assms(1) by (simp add: list_all_iff)
  then show "set (fv_scalars (in_value scs)) = set scs" by (auto simp: in_value_def Let_def)
  have "drop_repeats [] (sort_scalars scs) \<noteq> []" using d assms(2) by (metis set_empty)
  then show "value_wf (in_value scs)" using d assms by (auto simp: value_wf_def in_value_def Let_def list_all_iff)
qed

lemma alternatives_value_wf: "parse_alternatives name vs [] = Inr scs \<Longrightarrow> scs \<noteq> [] \<Longrightarrow> value_wf (in_value scs)"
  using parse_alternatives_wf [of name vs "[]" scs] by (intro in_value_wf) auto

lemma rawObject_no_panic: "raw_members ms es ds \<noteq> Inl NoCanonicalForm"
  by (induction ms es ds rule: raw_members.induct) (auto split: option.splits)

lemma parseTypedIn_wf:
  "parseTypedIn name v = Inr x \<Longrightarrow> value_wf x" "parseTypedIn name v \<noteq> Inl NoCanonicalForm"
  by (auto simp: parseTypedIn_def rawObject_tree_def rawObject_no_panic parse_alternatives_no_panic
      split: sum.splits if_splits option.splits json.splits intro: alternatives_value_wf)

lemma parseTypedFilterValue_wf:
  "parseTypedFilterValue name v = Inr x \<Longrightarrow> value_wf x" "parseTypedFilterValue name v \<noteq> Inl NoCanonicalForm"
proof -
  have map: "map_sum id direct_value s = Inr x \<longleftrightarrow> (\<exists>sc. s = Inr sc \<and> x = direct_value sc)"
    "map_sum id direct_value s = Inl e \<longleftrightarrow> s = Inl e" for s x and e :: filter_error
    by (cases s; auto)+
  show "parseTypedFilterValue name v = Inr x \<Longrightarrow> value_wf x" "parseTypedFilterValue name v \<noteq> Inl NoCanonicalForm"
    by (auto simp: parseTypedFilterValue_def map number_value_scalar_wf parseTypedIn_wf direct_value_wf
        split: json.splits option.splits if_splits)
qed

lemma parse_terms_Inr:
  "parse_terms entries names = Inr ts \<Longrightarrow> map fst ts = names \<and>
     list_all (\<lambda>(name, v). validateTypedFilterName name = None \<and> value_wf v \<and>
       (\<exists>j. map_of entries name = Some j \<and> parseTypedFilterValue name j = Inr v)) ts"
proof (induction names arbitrary: ts)
  case (Cons name names)
  then show ?case by (auto split: option.splits sum.splits dest: parseTypedFilterValue_wf(1))
qed simp

lemma parse_terms_no_panic: "parse_terms entries names \<noteq> Inl NoCanonicalForm"
  by (induction names) (auto simp: parseTypedFilterValue_wf validateTypedFilterName_def split: option.splits sum.splits)

lemma raw_members_distinct:
  "raw_members ms es ds = Inr (entries, dups) \<Longrightarrow> distinct (map fst es) \<Longrightarrow> distinct (map fst entries)"
  by (induction ms es ds rule: raw_members.induct) (auto split: option.splits if_splits simp: map_of_eq_None_iff image_iff)

lemma rawObject_distinct: "rawObject raw = Inr (entries, dups) \<Longrightarrow> distinct (map fst entries)"
  using raw_members_distinct [of _ "[]"]
  by (fastforce simp: rawObject_def rawObject_tree_def split: option.splits json.splits)

lemma finish_terms: "finishTypedFilter ts = Inr f \<Longrightarrow> tf_terms f = ts \<and> length (tf_canonical f) \<le> maxTypedFilterCanonical"
  by (auto simp: finishTypedFilter_def Let_def split: prod.splits if_splits)

lemma strict_sort: "distinct xs \<Longrightarrow> sorted_wrt (<) (sort xs)"
  by (simp add: strict_sorted_iff)

lemma terms_wfI:
  assumes "map fst ts = sort names" "distinct names" "length names \<le> maxFilterFields"
    "list_all (\<lambda>(name, v). validateTypedFilterName name = None \<and> value_wf v) ts"
  shows "terms_wf ts"
proof -
  have "length ts = length names" using assms(1) by (metis length_map length_sort)
  then show ?thesis using assms strict_sort [of names] by (simp add: terms_wf_def)
qed

lemma no_filter_wf [simp]: "terms_wf (tf_terms no_filter)"
  by (simp add: no_filter_def terms_wf_def)

lemma ParseTypedFilter_wf: "ParseTypedFilter raw = Inr f \<Longrightarrow> terms_wf (tf_terms f)"
  by (auto split: sum.splits if_splits prod.splits simp: ParseTypedFilter_def not_less
      dest!: finish_terms parse_terms_Inr rawObject_distinct intro!: terms_wfI elim!: list.pred_mono_strong)

lemma string_terms_Inr:
  "string_terms values names = Inr ts \<Longrightarrow> map fst ts = names \<and>
     list_all (\<lambda>(name, v). validateTypedFilterName name = None \<and> value_wf v) ts"
proof (induction names arbitrary: ts)
  case (Cons name names)
  then show ?case by (auto simp: Let_def direct_value_wf split: option.splits sum.splits if_splits)
qed simp

lemma StringTypedFilter_wf: "distinct (map fst values) \<Longrightarrow> StringTypedFilter values = Inr f \<Longrightarrow> terms_wf (tf_terms f)"
  by (auto simp: StringTypedFilter_def not_less split: sum.splits if_splits
      dest!: finish_terms string_terms_Inr intro!: terms_wfI)

subsection \<open>Evaluation\<close>

text \<open>What a filter asks of a payload, over the declared paths and the JSON values they reach.\<close>

definition filter_holds :: "filter_field list \<Rightarrow> TypedFilter \<Rightarrow> json \<Rightarrow> bool" where
  "filter_holds fls f v \<longleftrightarrow> (\<forall>(name, fv) \<in> set (tf_terms f). \<exists>path. declared_path fls name = Some path \<and>
     (\<exists>x \<in> set (reach (split_on (CHR ''.'') path) v). \<exists>sc \<in> set (fv_scalars fv). denotes sc x))"

lemma compiled_eval:
  assumes "config_ok cfg" "terms_wf (tf_terms f)" "compileTypedFilter (lc_Filterable cfg) f = Inr (Some cf)"
    "length payload \<le> 999000"
  shows "case parse_payload payload of
      None \<Rightarrow> isl (cf_eval cf payload)
    | Some v \<Rightarrow> cf_eval cf payload = Inr (filter_holds (lc_Filterable cfg) f v)"
proof -
  let ?fls = "lc_Filterable cfg" and ?at = "\<lambda>(name, v). (split_on (CHR ''.'') (the (declared_path (lc_Filterable cfg) name)), v)"
  have srt: "sorted (map ff_Name ?fls)" "distinct (map ff_Name ?fls)" using assms(1) by (simp_all add: config_ok_def)
  obtain fts where c: "compile_terms ?fls (tf_terms f) = Inr fts"
    and cf: "cf_root cf = build_trie (trie_terms fts)" "cf_full cf = full_mask fts"
    using assms(3) by (auto simp: compileTypedFilter_def split: if_splits sum.splits)
  note t = compile_terms_Inr [OF srt c]
  have ok: "list_all (value_ok \<circ> snd) (trie_terms fts)" "length (trie_terms fts) \<le> 8"
    using t assms(2) scalar_wf_ok
    by (auto simp: terms_wf_def maxFilterFields_def value_wf_def value_ok_def list_all_iff trie_terms_def [of fts])
  have "full_mask fts = full_mask (trie_terms fts)" by (simp add: full_mask_def trie_terms_def)
  moreover have "list_all (term_holds v) (trie_terms fts) \<longleftrightarrow> filter_holds ?fls f v" for v
  proof -
    have "list_all (term_holds v) (trie_terms fts) \<longleftrightarrow> (\<forall>t \<in> set (tf_terms f). term_holds v (?at t))"
      using t by (simp add: list_all_iff)
    also have "\<dots> \<longleftrightarrow> filter_holds ?fls f v" unfolding filter_holds_def
    proof (rule ball_cong [OF refl])
      fix x assume "x \<in> set (tf_terms f)"
      moreover obtain name fv where x: "x = (name, fv)" by force
      ultimately obtain p where "declared_path ?fls name = Some p" using t by force
      then show "term_holds v (?at x) \<longleftrightarrow> (case x of (name, fv) \<Rightarrow> \<exists>path. declared_path ?fls name = Some path \<and>
         (\<exists>x \<in> set (reach (split_on (CHR ''.'') path) v). \<exists>sc \<in> set (fv_scalars fv). denotes sc x))"
        by (simp add: x term_holds_def)
    qed
    finally show ?thesis .
  qed
  ultimately show ?thesis
    using eval_trie_spec [OF ok assms(4)] by (simp add: cf_eval_def cf split: option.splits)
qed

subsection \<open>Properties\<close>

text \<open>
  C5: A compiled filter decides exactly what the request means. For a filter parsed from request bytes and
  compiled against the fields of an installed list configuration, evaluating a payload below a megabyte
  is an error exactly when the payload is not JSON; otherwise it answers whether every named field reaches,
  along its declared path through objects and arrays, some value denoted by one of the alternatives, with
  strings compared as decoded text and numbers as numbers. The scan always ends within its fuel.
\<close>

theorem filter_decides_payload:
  assumes "resolve_config cfg0 = Inr (cfg, an)" "ParseTypedFilter raw = Inr f"
    "compileTypedFilter (lc_Filterable cfg) f = Inr (Some cf)" "length payload \<le> 999000"
  shows "(case parse_payload payload of
      None \<Rightarrow> isl (cf_eval cf payload)
    | Some v \<Rightarrow> cf_eval cf payload = Inr (filter_holds (lc_Filterable cfg) f v))
    \<and> cf_eval cf payload \<noteq> Inl OutOfFuel"
  using compiled_eval [OF config_resolved_ok [OF assms(1)] ParseTypedFilter_wf [OF assms(2)] assms(3,4)]
    eval_trie_fuel by (simp add: cf_eval_def)

definition quoted :: "string \<Rightarrow> string" where "quoted s = [quote] @ s @ [quote]"

definition demo_raw :: string where
  "demo_raw = ''{'' @ quoted ''a'' @ '':{'' @ quoted ''in'' @ '':['' @ quoted ''x'' @ '',1.0,10e-1]}}''"

definition demo_payload :: string where
  "demo_payload = ''{'' @ quoted ''q'' @ '':[{},'' @ quoted ''y'' @ '',1e0]}''"

definition demo_filter :: TypedFilter where
  "demo_filter = \<lparr>tf_terms = [(''a'', \<lparr>fv_in = True, fv_scalars = [number_scalar ''1'', string_scalar ''x'']\<rparr>)],
     tf_canonical = ''{'' @ quoted ''a'' @ '':{'' @ quoted ''in'' @ '':[1,'' @ quoted ''x'' @ '']}}'',
     tf_alternatives = 2, tf_scalarBytes = 4\<rparr>"

definition demo_fields :: "filter_field list" where
  "demo_fields = [\<lparr>ff_Name = ''a'', ff_Path = ''q''\<rparr>, \<lparr>ff_Name = ''b'', ff_Path = ''p''\<rparr>]"

lemma demo_parse: "ParseTypedFilter demo_raw = Inr demo_filter"
  by code_simp

lemma demo_compile: "\<exists>cf. compileTypedFilter demo_fields demo_filter = Inr (Some cf)"
proof -
  have "case compileTypedFilter demo_fields demo_filter of Inr (Some cf) \<Rightarrow> True | _ \<Rightarrow> False" by code_simp
  then show ?thesis by (auto split: sum.splits option.splits)
qed

lemma demo_fields_resolved:
  "\<exists>cfg an. resolve_config demo_config = Inr (cfg, an) \<and> lc_Filterable cfg = demo_fields"
proof -
  obtain cfg an where r: "resolve_config demo_config = Inr (cfg, an)" using demo_config_resolves by blast
  have "sort_key ff_Name (lc_Filterable demo_config) = demo_fields" by code_simp
  moreover have "lc_Filterable cfg = sort_key ff_Name (lc_Filterable demo_config)" by (rule resolve_configE [OF r]) simp
  ultimately show ?thesis using r by auto
qed

theorem filter_decides_payload_witness:
  "\<exists>cfg an cf v. resolve_config demo_config = Inr (cfg, an) \<and> ParseTypedFilter demo_raw = Inr demo_filter
    \<and> compileTypedFilter (lc_Filterable cfg) demo_filter = Inr (Some cf) \<and> parse_payload demo_payload = Some v
    \<and> cf_eval cf demo_payload = Inr (filter_holds (lc_Filterable cfg) demo_filter v)"
proof -
  obtain cfg an where r: "resolve_config demo_config = Inr (cfg, an)" "lc_Filterable cfg = demo_fields"
    using demo_fields_resolved by blast
  obtain cf where c: "compileTypedFilter (lc_Filterable cfg) demo_filter = Inr (Some cf)" using demo_compile r(2) by auto
  have p: "parse_payload demo_payload = Some (JObj [(''q'', JArr [JObj [], JStr ''y'', JScalar ''1e0''])])" by code_simp
  have "length demo_payload \<le> 999000" by (simp add: demo_payload_def quoted_def)
  from filter_decides_payload [OF r(1) demo_parse c this] show ?thesis using r(1) demo_parse c p by auto
qed

text \<open>
  C39: A parsed filter is canonical: at most eight terms in strict name order, every name non-empty and within its
  length bound, every term with between one and 64 alternatives in strict canonical order, spelled as an IN set
  exactly when there is more than one, and a canonical text within its bound. The same holds of the
  legacy string form, and the panic on a number without canonical form is never reached.
\<close>

theorem parsed_filter_canonical:
  "(case ParseTypedFilter raw of
      Inr f \<Rightarrow> terms_wf (tf_terms f) \<and> length (tf_canonical f) \<le> maxTypedFilterCanonical
    | Inl e \<Rightarrow> e \<noteq> NoCanonicalForm)
   \<and> (case StringTypedFilter (AList.clearjunk values) of
      Inr f \<Rightarrow> terms_wf (tf_terms f) \<and> length (tf_canonical f) \<le> maxTypedFilterCanonical
    | Inl e \<Rightarrow> e \<noteq> NoCanonicalForm)"
proof
  have fin: "finishTypedFilter ts \<noteq> Inl NoCanonicalForm" for ts
    by (auto simp: finishTypedFilter_def Let_def split: prod.splits)
  have b: "length (tf_canonical f) \<le> maxTypedFilterCanonical" if "ParseTypedFilter raw = Inr f" for f
    using that finish_terms by (auto simp: ParseTypedFilter_def no_filter_def split: sum.splits prod.splits if_splits)
  have "ParseTypedFilter raw \<noteq> Inl NoCanonicalForm"
    using fin parse_terms_no_panic
    by (auto simp: ParseTypedFilter_def rawObject_def rawObject_tree_def rawObject_no_panic
        split: sum.splits prod.splits if_splits option.splits json.splits list.splits)
  then show "case ParseTypedFilter raw of
      Inr f \<Rightarrow> terms_wf (tf_terms f) \<and> length (tf_canonical f) \<le> maxTypedFilterCanonical | Inl e \<Rightarrow> e \<noteq> NoCanonicalForm"
    using ParseTypedFilter_wf b by (auto split: sum.splits)
  let ?vs = "AList.clearjunk values"
  have d: "distinct (map fst ?vs)" by (rule distinct_clearjunk)
  have "string_terms vs names \<noteq> Inl NoCanonicalForm" for vs names
    by (induction names) (auto simp: validateTypedFilterName_def Let_def split: option.splits sum.splits)
  then have "StringTypedFilter ?vs \<noteq> Inl NoCanonicalForm"
    using fin by (auto simp: StringTypedFilter_def split: sum.splits)
  moreover have "length (tf_canonical f) \<le> maxTypedFilterCanonical" if "StringTypedFilter ?vs = Inr f" for f
    using that finish_terms by (auto simp: StringTypedFilter_def no_filter_def split: sum.splits if_splits)
  ultimately show "case StringTypedFilter ?vs of
      Inr f \<Rightarrow> terms_wf (tf_terms f) \<and> length (tf_canonical f) \<le> maxTypedFilterCanonical | Inl e \<Rightarrow> e \<noteq> NoCanonicalForm"
    using StringTypedFilter_wf [OF d] by (auto split: sum.splits)
qed

lemma in_unquoted [simp]: "json_unquote ''in'' = Some ''in''"
  by (simp add: json_unquote.simps(2) backslash_def quote_def)

text \<open>
  C22: An IN set is a set. If two arrays of alternatives spell the same values, in whatever order, with whatever
  repetitions and however their strings and numbers are written, and both are accepted, the parsed
  filter values are the same; a set of one value is the value itself.
\<close>

theorem in_alternatives_are_a_set:
  assumes "parseTypedFilterValue name (JObj [(''in'', JArr us)]) = Inr a"
    "parseTypedFilterValue name (JObj [(''in'', JArr vs)]) = Inr b"
    "set (map (parseTypedScalar name) us) = set (map (parseTypedScalar name) vs)"
  shows "a = b \<and> (\<forall>sc. parseTypedScalar name ` set us = {Inr sc} \<longrightarrow> a = direct_value sc)"
proof -
  have acc: "parse_alternatives name ws acc = Inr scs \<Longrightarrow> scs = acc @ map (projr \<circ> parseTypedScalar name) ws
      \<and> (\<forall>w \<in> set ws. \<not> isl (parseTypedScalar name w))" for ws acc scs
    by (induction ws arbitrary: acc) (fastforce split: if_splits sum.splits)+
  have one: "\<exists>scs. parse_alternatives name ws [] = Inr scs \<and> scs \<noteq> [] \<and> x = in_value scs"
    if "parseTypedFilterValue name (JObj [(''in'', JArr ws)]) = Inr x" for ws x
    using that by (auto simp: parseTypedFilterValue_def parseTypedIn_def rawObject_tree_def in_unquoted
        split: sum.splits if_splits option.splits)
  from one [OF assms(1)] one [OF assms(2)] obtain su sv where
    u: "parse_alternatives name us [] = Inr su" "su \<noteq> []" "a = in_value su" and
    v: "parse_alternatives name vs [] = Inr sv" "sv \<noteq> []" "b = in_value sv" by blast
  have su: "set su = projr ` parseTypedScalar name ` set us" and sv: "set sv = projr ` parseTypedScalar name ` set vs"
    using acc [OF u(1)] acc [OF v(1)] by (auto simp: image_comp)
  have wf: "\<forall>x \<in> set su. scalar_wf x" using parse_alternatives_wf [OF u(1)] by (simp add: list_all_iff)
  have "set su = set sv" using assms(3) su sv by simp
  then have ab: "a = b" using in_value_set [OF wf] u(3) v(3) by blast
  have "a = direct_value sc" if "parseTypedScalar name ` set us = {Inr sc}" for sc
  proof -
    have "set su = {sc}" using su that by simp
    then have "in_value su = in_value [sc]" using in_value_set [OF wf] by simp
    then show ?thesis by (simp add: u(3) in_value_def sort_scalars_def direct_value_def)
  qed
  then show ?thesis using ab by blast
qed

theorem in_alternatives_are_a_set_witness:
  "parseTypedFilterValue ''n'' (JObj [(''in'', JArr [JScalar ''1.0'', JScalar ''10e-1''])]) = Inr (direct_value (number_scalar ''1''))
    \<and> parseTypedFilterValue ''n'' (JObj [(''in'', JArr [JScalar ''1''])]) = Inr (direct_value (number_scalar ''1''))"
proof -
  let ?a = "parseTypedFilterValue ''n'' (JObj [(''in'', JArr [JScalar ''1.0'', JScalar ''10e-1''])])"
  have a: "?a = Inr (direct_value (number_scalar ''1''))" by code_simp
  have b: "parseTypedFilterValue ''n'' (JObj [(''in'', JArr [JScalar ''1''])]) = Inr (direct_value (number_scalar ''1''))" by code_simp
  have s: "set (map (parseTypedScalar ''n'') [JScalar ''1.0'', JScalar ''10e-1'']) = set (map (parseTypedScalar ''n'') [JScalar ''1''])" by code_simp
  show ?thesis using in_alternatives_are_a_set [OF a b s] a b by simp
qed



end
