(* ===== verification/Query_Model.thy ===== *)
theory Query_Model
  imports List_View Typed_Filter
begin

text \<open>
  Queries against a snapshot (the query half of \<open>engine/list.go\<close>, and \<open>engine/rank.go\<close>): preparing (pinning a
  snapshot and pricing it), exact lookups with parent-domain fallback, n-gram lookups over base and
  overlay, exact any-of lookups with their bounded selection, ranking and key attribution.

  A query runs against one snapshot. \<open>ctx.Err()\<close> is a parameter (\<open>ctx\<close>): the answers at the start, at each
  poll of a walk, during the two n-gram scans, and at the end. Charges are mathematical integers (\<open>int64\<close> in the
  source). An index or slice expression that would panic yields \<open>QPanic\<close>; a canceled query returns
  no candidates and no statistics, as in the source.
\<close>

subsection \<open>Data\<close>

record query_opts =
  qo_Threshold :: f64
  qo_TopK :: int

record candidate =
  c_EntryID :: string
  c_Score :: rat
  c_Key :: string
  c_Payload :: string

text \<open>The two segments of a snapshot; a \<open>candMeta\<close> or \<open>segOrd\<close> is a segment and an ordinal.\<close>

datatype seg_id = InBase | InOverlay

type_synonym cand_meta = "seg_id \<times> u32"

record filter_stats =
  fst_Evaluated :: nat
  fst_Rejected :: nat

record ctx =
  cx_start :: bool
  cx_walk :: "nat \<Rightarrow> bool"
  cx_scan :: "seg_id \<Rightarrow> nat \<Rightarrow> bool"
  cx_end :: bool

datatype 'r qresult = QPanic | QFail scan_error | QOk 'r

definition no_stats :: filter_stats where "no_stats = \<lparr>fst_Evaluated = 0, fst_Rejected = 0\<rparr>"

definition snap_seg :: "'b snapshot \<Rightarrow> seg_id \<Rightarrow> 'b segment option" where
  "snap_seg s sid = (case sid of InBase \<Rightarrow> sn_base s | InOverlay \<Rightarrow> sn_overlay s)"

definition seg_entry :: "'b segment \<Rightarrow> u32 \<Rightarrow> entry option" where
  "seg_entry seg ord = (if unat ord < length (sg_entries seg) then Some (sg_entries seg ! unat ord) else None)"

text \<open>The IDs masked in a segment: the tombstones for the base, none for the overlay.\<close>

definition masked_ids :: "'b snapshot \<Rightarrow> seg_id \<Rightarrow> string set" where
  "masked_ids s sid = (case sid of InBase \<Rightarrow> sn_tombstones s | InOverlay \<Rightarrow> {})"

subsection \<open>Options and probe chain\<close>

definition ParentMatchScore :: rat where "ParentMatchScore = 90"

definition MaxExactAnyOfTerms :: nat where "MaxExactAnyOfTerms = 64"

definition effectiveTopK :: "'b klist \<Rightarrow> query_opts \<Rightarrow> int" where
  "effectiveTopK l opts =
     (if qo_TopK opts > 0 then qo_TopK opts else if qo_TopK opts < 0 then 0 else mc_TopK (lc_Match (l_cfg l)))"

definition effectiveThreshold :: "'b klist \<Rightarrow> query_opts \<Rightarrow> f64" where
  "effectiveThreshold l opts =
     (if f_greater (qo_Threshold opts) 0 then qo_Threshold opts
      else if f_less (qo_Threshold opts) 0 then Fin 0
      else mc_Threshold (lc_Match (l_cfg l)))"

function parent_levels :: "string \<Rightarrow> string list" where
  "parent_levels rest = (case index_byte (CHR ''.'') rest of
     None \<Rightarrow> []
   | Some i \<Rightarrow>
       let rest1 = drop (i + 1) rest in
       if index_byte (CHR ''.'') rest1 = None then [] else rest1 # parent_levels rest1)"
  by pat_completeness auto
termination
  by (relation "measure length") (auto dest!: index_byte_Some)

declare parent_levels.simps [simp del]

definition exactLevels :: "string \<Rightarrow> bool \<Rightarrow> string list" where
  "exactLevels aq parentFallback = (if \<not> parentFallback then [aq] else aq # parent_levels aq)"

fun analyze_terms :: "(string \<Rightarrow> string) \<Rightarrow> string list \<Rightarrow> string set \<Rightarrow> string list" where
  "analyze_terms nrm [] seen = []"
| "analyze_terms nrm (t # ts) seen =
     (let a = nrm t in
      if a = '''' \<or> a \<in> seen then analyze_terms nrm ts seen
      else a # analyze_terms nrm ts (insert a seen))"

datatype any_of_error = NoExactIndex | BadTermCount nat

definition anyOfTerms :: "'b klist \<Rightarrow> string list \<Rightarrow> any_of_error + string list" where
  "anyOfTerms l terms =
     (if \<not> HasExactIndex l then Inl NoExactIndex
      else if length terms = 0 \<or> length terms > MaxExactAnyOfTerms then Inl (BadTermCount (length terms))
      else Inr (analyze_terms (l_norm l) terms {}))"

subsection \<open>Charges\<close>

definition scratchPerHitBytes :: int where "scratchPerHitBytes = 192"
definition scratchDefaultQueryRunes :: nat where "scratchDefaultQueryRunes = 512"
definition scratchQueryFixedBytes :: int where "scratchQueryFixedBytes = 16384"
definition scratchQueryPerGramBytes :: int where "scratchQueryPerGramBytes = 200"
definition scratchQueryPerRuneBytes :: int where "scratchQueryPerRuneBytes = 8"
definition anyOfPerHitBytes :: int where "anyOfPerHitBytes = 512"
definition filterScanPerByte :: int where "filterScanPerByte = 1"
definition filterPerPathOrd :: int where "filterPerPathOrd = 192"
definition filterPerAlternative :: int where "filterPerAlternative = 128"
definition filterPerScalarByte :: int where "filterPerScalarByte = 8"
definition filterPerAlternativeOrd :: int where "filterPerAlternativeOrd = 6"
definition filterPerScalarByteOrd :: int where "filterPerScalarByteOrd = 1"
definition maxLine :: int where "maxLine = 2 ^ 20"
definition exactCancelCheckEvery :: nat where "exactCancelCheckEvery = 4096"
definition exactFilteredCancelCheckEvery :: nat where "exactFilteredCancelCheckEvery = 512"

definition scratch_seg :: "int \<Rightarrow> int \<Rightarrow> int \<Rightarrow> 'b segment option \<Rightarrow> int \<Rightarrow> int" where
  "scratch_seg topK queryRunes gramSizes so masked = (case so of
     None \<Rightarrow> 0
   | Some sg \<Rightarrow>
       (case sg_ng sg of
          None \<Rightarrow>
            (case sg_ex sg of
               None \<Rightarrow> 0
             | Some ex \<Rightarrow>
                 let hits = int (unat (exact_num_ords ex))
                 in scratchPerHitBytes * (if topK > 0 \<and> topK < hits then topK else hits))
        | Some ng \<Rightarrow>
            let ords = int (unat (ngram_num_ords ng));
                hits = (if topK > 0 \<and> topK + masked < ords then topK + masked else ords)
            in 8 * ords + (scratchQueryFixedBytes + queryRunes * scratchQueryPerRuneBytes)
               + queryRunes * gramSizes * scratchQueryPerGramBytes + scratchPerHitBytes * hits))"

definition scratchBytesSnap :: "'b snapshot \<Rightarrow> int \<Rightarrow> int \<Rightarrow> int \<Rightarrow> int" where
  "scratchBytesSnap s topK queryRunes gramSizes =
     scratch_seg topK queryRunes gramSizes (sn_base s) (int (card (sn_tombstones s)))
     + scratch_seg topK queryRunes gramSizes (sn_overlay s) 0"

definition ScratchBytesFor :: "'b klist \<Rightarrow> int \<Rightarrow> int" where
  "ScratchBytesFor l topK =
     scratchBytesSnap (l_snap l) topK (int scratchDefaultQueryRunes) (int (length (mc_Grams (lc_Match (l_cfg l)))))"

definition ScratchBytes :: "'b klist \<Rightarrow> int" where
  "ScratchBytes l = ScratchBytesFor l 0"

definition filter_seg :: "int \<Rightarrow> int \<Rightarrow> 'b segment option \<Rightarrow> int" where
  "filter_seg nPaths levels so = (case so of
     None \<Rightarrow> 0
   | Some sg \<Rightarrow>
       (case sg_ng sg of
          Some ng \<Rightarrow> filterScanPerByte * sg_payloadBytes sg + filterPerPathOrd * nPaths * int (unat (ngram_num_ords ng))
        | None \<Rightarrow>
            (case sg_ex sg of
               None \<Rightarrow> 0
             | Some ex \<Rightarrow> filterScanPerByte * sg_payloadBytes sg * levels
                 + filterPerPathOrd * nPaths * int (unat (exact_num_ords ex)) * levels)))"

definition filterChargeSnap :: "'b snapshot \<Rightarrow> int \<Rightarrow> int \<Rightarrow> int" where
  "filterChargeSnap s nPaths levels = filter_seg nPaths levels (sn_base s) + filter_seg nPaths levels (sn_overlay s)"

definition expr_seg :: "int \<Rightarrow> int \<Rightarrow> 'b segment option \<Rightarrow> int" where
  "expr_seg perOrd levels so = (case so of
     None \<Rightarrow> 0
   | Some sg \<Rightarrow>
       (case sg_ng sg of
          Some ng \<Rightarrow> perOrd * int (unat (ngram_num_ords ng))
        | None \<Rightarrow> (case sg_ex sg of None \<Rightarrow> 0 | Some ex \<Rightarrow> perOrd * int (unat (exact_num_ords ex)) * levels)))"

definition filterExprEvalChargeSnap :: "'b snapshot \<Rightarrow> int \<Rightarrow> int \<Rightarrow> int \<Rightarrow> int" where
  "filterExprEvalChargeSnap s alternatives scalarBytes levels =
     (let perOrd = filterPerAlternativeOrd * alternatives + filterPerScalarByteOrd * scalarBytes
      in expr_seg perOrd levels (sn_base s) + expr_seg perOrd levels (sn_overlay s))"

text \<open>\<open>anyOfCostSnap\<close>: the hits of a segment are the run lengths of the terms; \<open>None\<close> is a panicking lookup.\<close>

fun term_hits :: "exact_index \<Rightarrow> string list \<Rightarrow> int option" where
  "term_hits ex [] = Some 0"
| "term_hits ex (t # ts) = (case exact_lookup ex t of
     None \<Rightarrow> None
   | Some run \<Rightarrow> map_option (\<lambda>n. int (length run) + n) (term_hits ex ts))"

definition probe_seg :: "string list \<Rightarrow> 'b segment option \<Rightarrow> (int \<times> int) option" where
  "probe_seg terms so = (case so of
     None \<Rightarrow> Some (0, 0)
   | Some sg \<Rightarrow>
       (case sg_ex sg of
          None \<Rightarrow> Some (0, 0)
        | Some ex \<Rightarrow> map_option (\<lambda>n. (n, if n * maxLine > sg_payloadBytes sg then sg_payloadBytes sg else n * maxLine)) (term_hits ex terms)))"

definition anyOfCostSnap :: "'b snapshot \<Rightarrow> string list \<Rightarrow> int \<Rightarrow> compiledFilter option \<Rightarrow> (int \<times> int) option" where
  "anyOfCostSnap s terms topK cf = (case (probe_seg terms (sn_base s), probe_seg terms (sn_overlay s)) of
     (Some (n1, p1), Some (n2, p2)) \<Rightarrow>
       let hits = n1 + n2; payload = p1 + p2;
           collected = (if topK > 0 \<and> topK < hits then topK else hits);
           cost = scratchQueryFixedBytes + anyOfPerHitBytes * collected
       in Some (case cf of
            None \<Rightarrow> cost
          | Some f \<Rightarrow>
              cost + (filterScanPerByte * payload + filterPerPathOrd * int (length (cf_terms f)) * hits)
              + (filterPerAlternative * int (cf_alternatives f) + filterPerScalarByte * int (cf_scalarBytes f))
              + (filterPerAlternativeOrd * int (cf_alternatives f) + filterPerScalarByteOrd * int (cf_scalarBytes f)) * hits,
          hits)
   | _ \<Rightarrow> None)"

subsection \<open>The bounded any-of selection\<close>

type_synonym any_of_item = "cand_meta \<times> candidate"

record any_of_selection =
  as_k :: nat
  as_in :: "cand_meta set"
  as_items :: "any_of_item list"

definition newAnyOfSelection :: "int \<Rightarrow> any_of_selection" where
  "newAnyOfSelection k = \<lparr>as_k = nat k, as_in = {}, as_items = []\<rparr>"

definition worseItem :: "any_of_item \<Rightarrow> any_of_item \<Rightarrow> bool" where
  "worseItem a b \<longleftrightarrow> c_EntryID (snd a) > c_EntryID (snd b)"

definition admits :: "any_of_selection \<Rightarrow> cand_meta \<Rightarrow> string \<Rightarrow> bool" where
  "admits a key eid \<longleftrightarrow> key \<notin> as_in a \<and> (as_k a = 0 \<or> length (as_items a) < as_k a \<or> eid < c_EntryID (snd (as_items a ! 0)))"

definition push :: "any_of_selection \<Rightarrow> cand_meta \<Rightarrow> candidate \<Rightarrow> any_of_selection" where
  "push a key c =
     (case heap_push worseItem (as_k a) (key, c) (as_items a) of
        (items, None) \<Rightarrow> a\<lparr>as_in := insert key (as_in a), as_items := items\<rparr>
      | (items, Some ev) \<Rightarrow> a\<lparr>as_in := insert key (as_in a) - {fst ev}, as_items := items\<rparr>)"

definition sorted_selection :: "any_of_selection \<Rightarrow> any_of_item list" where
  "sorted_selection a = sort_key (\<lambda>it. c_EntryID (snd it)) (as_items a)"

record any_of_state =
  ao_sel :: any_of_selection
  ao_walked :: nat
  ao_err :: "scan_error option"
  ao_stats :: filter_stats

definition poll_every :: "compiledFilter option \<Rightarrow> nat" where
  "poll_every cf = (if cf = None then exactCancelCheckEvery else exactFilteredCancelCheckEvery)"

text \<open>One reached ordinal: skipped when it cannot enter the selection, when it is masked, or when the filter
  rejects it; a malformed payload records the first error.\<close>

definition any_of_visit ::
  "string set \<Rightarrow> compiledFilter option \<Rightarrow> cand_meta \<Rightarrow> entry \<Rightarrow> any_of_state \<Rightarrow> any_of_state" where
  "any_of_visit masked cf key e st =
     (if \<not> admits (ao_sel st) key (e_ID e) \<or> e_ID e \<in> masked then st
      else
        let c = \<lparr>c_EntryID = e_ID e, c_Score = 100, c_Key = '''', c_Payload = e_Payload e\<rparr> in
        case cf of
          None \<Rightarrow> st\<lparr>ao_sel := push (ao_sel st) key c\<rparr>
        | Some f \<Rightarrow>
            let st1 = st\<lparr>ao_stats := (ao_stats st)\<lparr>fst_Evaluated := Suc (fst_Evaluated (ao_stats st))\<rparr>\<rparr> in
            (case cf_eval f (e_Payload e) of
               Inl er \<Rightarrow> st1\<lparr>ao_err := (case ao_err st1 of None \<Rightarrow> Some er | Some x \<Rightarrow> Some x)\<rparr>
             | Inr False \<Rightarrow> st1\<lparr>ao_stats := (ao_stats st1)\<lparr>fst_Rejected := Suc (fst_Rejected (ao_stats st1))\<rparr>\<rparr>
             | Inr True \<Rightarrow> st1\<lparr>ao_sel := push (ao_sel st1) key c\<rparr>))"

fun any_of_run ::
  "(nat \<Rightarrow> bool) \<Rightarrow> string set \<Rightarrow> compiledFilter option \<Rightarrow> seg_id \<Rightarrow> 'b segment \<Rightarrow> u32 list \<Rightarrow> any_of_state \<Rightarrow> any_of_state scan" where
  "any_of_run cx masked cf sid seg [] st = Scanned st"
| "any_of_run cx masked cf sid seg (ord # ords) st =
     (let w = Suc (ao_walked st); st1 = st\<lparr>ao_walked := w\<rparr> in
      if w mod poll_every cf = 0 \<and> cx w then Canceled
      else case seg_entry seg ord of
        None \<Rightarrow> Panicked
      | Some e \<Rightarrow> any_of_run cx masked cf sid seg ords (any_of_visit masked cf (sid, ord) e st1))"

fun any_of_terms_run ::
  "(nat \<Rightarrow> bool) \<Rightarrow> string set \<Rightarrow> compiledFilter option \<Rightarrow> seg_id \<Rightarrow> 'b segment \<Rightarrow> exact_index \<Rightarrow> string list \<Rightarrow> any_of_state \<Rightarrow> any_of_state scan" where
  "any_of_terms_run cx masked cf sid seg ex [] st = Scanned st"
| "any_of_terms_run cx masked cf sid seg ex (t # ts) st =
     (case exact_lookup ex t of
        None \<Rightarrow> Panicked
      | Some run \<Rightarrow>
          (case any_of_run cx masked cf sid seg run st of
             Scanned st1 \<Rightarrow> any_of_terms_run cx masked cf sid seg ex ts st1
           | r \<Rightarrow> r))"

definition any_of_collect ::
  "(nat \<Rightarrow> bool) \<Rightarrow> 'b snapshot \<Rightarrow> string list \<Rightarrow> compiledFilter option \<Rightarrow> seg_id \<Rightarrow> any_of_state \<Rightarrow> any_of_state scan" where
  "any_of_collect cx s terms cf sid st = (case snap_seg s sid of
     None \<Rightarrow> Scanned st
   | Some seg \<Rightarrow>
       (case sg_ex seg of
          None \<Rightarrow> Scanned st
        | Some ex \<Rightarrow> any_of_terms_run cx (masked_ids s sid) cf sid seg ex terms st))"

text \<open>The entry a candidate is attributed to: the overlay's copy if the overlay has the ID.\<close>

definition attributed_entry :: "'b snapshot \<Rightarrow> cand_meta \<Rightarrow> entry option" where
  "attributed_entry s m = (case snap_seg s (fst m) of
     None \<Rightarrow> None
   | Some seg \<Rightarrow>
       (case seg_entry seg (snd m) of
          None \<Rightarrow> None
        | Some e \<Rightarrow>
            (case sn_overlay s of
               None \<Rightarrow> Some e
             | Some ov \<Rightarrow>
                 if fst m = InOverlay then Some e
                 else (case sg_byID ov (e_ID e) of None \<Rightarrow> Some e | Some ord \<Rightarrow> seg_entry ov ord))))"

fun attributeAnyOf :: "'b klist \<Rightarrow> 'b snapshot \<Rightarrow> string list \<Rightarrow> any_of_item list \<Rightarrow> candidate list option" where
  "attributeAnyOf l s terms [] = Some []"
| "attributeAnyOf l s terms ((m, c) # its) =
     (case attributed_entry s m of
        None \<Rightarrow> None
      | Some e \<Rightarrow>
          map_option ((#) (case find (\<lambda>k. l_norm l k \<in> set terms) (e_Keys e) of None \<Rightarrow> c | Some k \<Rightarrow> c\<lparr>c_Key := k\<rparr>))
            (attributeAnyOf l s terms its))"

definition anyOfSnap ::
  "ctx \<Rightarrow> 'b klist \<Rightarrow> 'b snapshot \<Rightarrow> string list \<Rightarrow> query_opts \<Rightarrow> compiledFilter option \<Rightarrow> (candidate list) qresult \<times> filter_stats" where
  "anyOfSnap cx l s terms opts cf =
     (if cx_start cx then (QOk [], no_stats)
      else
        let st0 = \<lparr>ao_sel = newAnyOfSelection (effectiveTopK l opts), ao_walked = 0, ao_err = None, ao_stats = no_stats\<rparr> in
        case (case any_of_collect (cx_walk cx) s terms cf InBase st0 of
                Scanned st1 \<Rightarrow> any_of_collect (cx_walk cx) s terms cf InOverlay st1
              | r \<Rightarrow> r) of
          Panicked \<Rightarrow> (QPanic, no_stats)
        | Canceled \<Rightarrow> (QOk [], no_stats)
        | Scanned st \<Rightarrow>
            if cx_end cx then (QOk [], no_stats)
            else (case ao_err st of
                Some e \<Rightarrow> (QFail e, ao_stats st)
              | None \<Rightarrow>
                  (case attributeAnyOf l s terms (sorted_selection (ao_sel st)) of
                     None \<Rightarrow> (QPanic, no_stats)
                   | Some cs \<Rightarrow> (QOk cs, ao_stats st))))"

subsection \<open>Ranking and attribution\<close>

definition sortCandidates :: "(candidate \<times> cand_meta) list \<Rightarrow> (candidate \<times> cand_meta) list" where
  "sortCandidates out = sort_key (\<lambda>(c, m). (- c_Score c, c_EntryID c)) out"

text \<open>The argmax over an entry's keys, the first key on ties; scores start below every score.\<close>

fun best_key :: "(string \<Rightarrow> rat) \<Rightarrow> string list \<Rightarrow> string \<Rightarrow> rat \<Rightarrow> string" where
  "best_key score [] best bestScore = best"
| "best_key score (k # ks) best bestScore =
     (if score k > bestScore then best_key score ks k (score k) else best_key score ks best bestScore)"

definition key_score :: "float_model \<Rightarrow> 'b klist \<Rightarrow> string list \<Rightarrow> string \<Rightarrow> string \<Rightarrow> rat" where
  "key_score F l qGrams matchedKey k =
     (let mc = lc_Match (l_cfg l); ak = l_norm l k in
      if mc_Mode mc = ''exact'' then (if ak = matchedKey then 1 else 0)
      else if qGrams \<noteq> [] then
        let ks = (if mc_StripSpaces mc then strip_spaces ak else ak);
            hits = length (filter (\<lambda>g. g \<in> set qGrams) (each_gram ks (map nat (mc_Grams mc)) {}))
        in fl_r64 F (of_nat hits / of_nat (length qGrams))
      else 0)"

definition attribute_key :: "float_model \<Rightarrow> 'b klist \<Rightarrow> string list \<Rightarrow> string \<Rightarrow> entry \<Rightarrow> candidate \<Rightarrow> candidate" where
  "attribute_key F l qGrams matchedKey e c =
     (case e_Keys e of
        [] \<Rightarrow> c
      | [k] \<Rightarrow> c\<lparr>c_Key := k\<rparr>
      | ks \<Rightarrow> c\<lparr>c_Key := best_key (key_score F l qGrams matchedKey) ks '''' (- 1)\<rparr>)"

fun attribute_all :: "float_model \<Rightarrow> 'b klist \<Rightarrow> 'b snapshot \<Rightarrow> string list \<Rightarrow> string \<Rightarrow> (candidate \<times> cand_meta) list \<Rightarrow> candidate list option" where
  "attribute_all F l s qGrams matchedKey [] = Some []"
| "attribute_all F l s qGrams matchedKey ((c, m) # out) =
     (case attributed_entry s m of
        None \<Rightarrow> None
      | Some e \<Rightarrow> map_option ((#) (attribute_key F l qGrams matchedKey e c)) (attribute_all F l s qGrams matchedKey out))"

definition attributeKeys ::
  "float_model \<Rightarrow> 'b klist \<Rightarrow> 'b snapshot \<Rightarrow> string \<Rightarrow> string \<Rightarrow> (candidate \<times> cand_meta) list \<Rightarrow> candidate list option" where
  "attributeKeys F l s analyzedQuery matchedKey out =
     (let mc = lc_Match (l_cfg l);
          qs = (if mc_StripSpaces mc then strip_spaces analyzedQuery else analyzedQuery)
      in attribute_all F l s (each_gram qs (map nat (mc_Grams mc)) {}) matchedKey out)"

subsection \<open>Ordinary queries\<close>

record query_state =
  q_out :: "(candidate \<times> cand_meta) list"
  q_err :: "scan_error option"
  q_stats :: filter_stats
  q_walked :: nat

text \<open>Evaluating the filter on one payload, with the statistics and the first error it leaves behind.\<close>

definition eval_payload :: "compiledFilter \<Rightarrow> string \<Rightarrow> scan_error option \<times> filter_stats \<Rightarrow> bool \<times> scan_error option \<times> filter_stats" where
  "eval_payload f payload es =
     (let (er, fs) = es; fs1 = fs\<lparr>fst_Evaluated := Suc (fst_Evaluated fs)\<rparr> in
      case cf_eval f payload of
        Inl e \<Rightarrow> (False, (case er of None \<Rightarrow> Some e | Some x \<Rightarrow> Some x), fs1)
      | Inr ok \<Rightarrow> (ok, er, if ok then fs1 else fs1\<lparr>fst_Rejected := Suc (fst_Rejected fs1)\<rparr>))"

text \<open>The closure \<open>add\<close> of \<open>querySnap\<close>.\<close>

definition add_hit ::
  "'b snapshot \<Rightarrow> compiledFilter option \<Rightarrow> seg_id \<Rightarrow> 'b segment \<Rightarrow> u32 \<Rightarrow> rat \<Rightarrow> bool \<Rightarrow> query_state \<Rightarrow> query_state option" where
  "add_hit s cf sid seg ord score prechecked st = (case seg_entry seg ord of
     None \<Rightarrow> None
   | Some e \<Rightarrow>
       if e_ID e \<in> masked_ids s sid then Some st
       else
         let (ok, er, fs) = (case cf of
               Some f \<Rightarrow> if prechecked then (True, q_err st, q_stats st) else eval_payload f (e_Payload e) (q_err st, q_stats st)
             | None \<Rightarrow> (True, q_err st, q_stats st));
             st1 = st\<lparr>q_err := er, q_stats := fs\<rparr>
         in Some (if ok
              then st1\<lparr>q_out := q_out st @ [(\<lparr>c_EntryID = e_ID e, c_Score = score, c_Key = '''', c_Payload = e_Payload e\<rparr>, (sid, ord))]\<rparr>
              else st1))"

definition q_full :: "int \<Rightarrow> query_state \<Rightarrow> bool" where
  "q_full topK st \<longleftrightarrow> topK > 0 \<and> int (length (q_out st)) \<ge> topK"

fun exact_run ::
  "(nat \<Rightarrow> bool) \<Rightarrow> 'b snapshot \<Rightarrow> compiledFilter option \<Rightarrow> int \<Rightarrow> seg_id \<Rightarrow> 'b segment \<Rightarrow> rat \<Rightarrow> u32 list \<Rightarrow> query_state \<Rightarrow> query_state scan" where
  "exact_run cx s cf topK sid seg score [] st = Scanned st"
| "exact_run cx s cf topK sid seg score (ord # ords) st =
     (let w = Suc (q_walked st); st1 = st\<lparr>q_walked := w\<rparr> in
      if w mod poll_every cf = 0 \<and> cx w then Canceled
      else case add_hit s cf sid seg ord score False st1 of
        None \<Rightarrow> Panicked
      | Some st2 \<Rightarrow> if q_full topK st2 then Scanned st2 else exact_run cx s cf topK sid seg score ords st2)"

definition exact_seg ::
  "(nat \<Rightarrow> bool) \<Rightarrow> 'b snapshot \<Rightarrow> compiledFilter option \<Rightarrow> int \<Rightarrow> seg_id \<Rightarrow> rat \<Rightarrow> string \<Rightarrow> query_state \<Rightarrow> query_state scan" where
  "exact_seg cx s cf topK sid score level st = (case snap_seg s sid of
     None \<Rightarrow> Scanned st
   | Some seg \<Rightarrow>
       (case sg_ex seg of
          None \<Rightarrow> Scanned st
        | Some ex \<Rightarrow>
            if q_full topK st then Scanned st
            else (case exact_lookup ex level of
                None \<Rightarrow> Panicked
              | Some run \<Rightarrow> exact_run cx s cf topK sid seg score run st)))"

definition level_score :: "string \<Rightarrow> string \<Rightarrow> rat" where
  "level_score aq level = (if level \<noteq> aq then ParentMatchScore else 100)"

fun exact_search ::
  "float_model \<Rightarrow> (nat \<Rightarrow> bool) \<Rightarrow> 'b snapshot \<Rightarrow> compiledFilter option \<Rightarrow> f64 \<Rightarrow> int \<Rightarrow> string \<Rightarrow> string list \<Rightarrow> query_state
    \<Rightarrow> (query_state \<times> string) scan" where
  "exact_search F cx s cf thr topK aq [] st = Scanned (st, aq)"
| "exact_search F cx s cf thr topK aq (level # levels) st =
     (let score = level_score aq level in
      if f_greater (f_scale (fl_r64 F) thr 100) score then exact_search F cx s cf thr topK aq levels st
      else
        case (case exact_seg cx s cf topK InBase score level st of
                Scanned st1 \<Rightarrow> exact_seg cx s cf topK InOverlay score level st1
              | r \<Rightarrow> r) of
          Scanned st2 \<Rightarrow> if q_out st2 \<noteq> [] then Scanned (st2, level) else exact_search F cx s cf thr topK aq levels st2
        | Canceled \<Rightarrow> Canceled
        | Panicked \<Rightarrow> Panicked)"

text \<open>The pre-heap predicate of a filtered n-gram scan. Its state carries a flag for an ordinal without entry,
  where the source would panic.\<close>

definition ngram_keep ::
  "'b snapshot \<Rightarrow> compiledFilter \<Rightarrow> seg_id \<Rightarrow> 'b segment \<Rightarrow> u32 \<Rightarrow> (scan_error option \<times> filter_stats) \<times> bool
    \<Rightarrow> bool \<times> (scan_error option \<times> filter_stats) \<times> bool" where
  "ngram_keep s f sid seg ord st = (case seg_entry seg ord of
     None \<Rightarrow> (False, fst st, True)
   | Some e \<Rightarrow>
       if e_ID e \<in> masked_ids s sid then (False, st)
       else let (ok, es) = eval_payload f (e_Payload e) (fst st) in (ok, es, snd st))"

fun add_hits :: "'b snapshot \<Rightarrow> compiledFilter option \<Rightarrow> seg_id \<Rightarrow> 'b segment \<Rightarrow> hit list \<Rightarrow> query_state \<Rightarrow> query_state option" where
  "add_hits s cf sid seg [] st = Some st"
| "add_hits s cf sid seg (h # hs) st =
     (case add_hit s cf sid seg (h_Ord h) (h_Score h) (cf \<noteq> None) st of
        None \<Rightarrow> None
      | Some st1 \<Rightarrow> add_hits s cf sid seg hs st1)"

definition segment_cut :: "'b snapshot \<Rightarrow> compiledFilter option \<Rightarrow> int \<Rightarrow> seg_id \<Rightarrow> nat" where
  "segment_cut s cf topK sid =
     (if topK > 0 then (if cf \<noteq> None then nat topK else nat topK + card (masked_ids s sid)) else 0)"

definition collect_ngram ::
  "float_model \<Rightarrow> 'b roaring \<Rightarrow> ('b gram_info list \<Rightarrow> 'b gram_info list) \<Rightarrow> ctx \<Rightarrow> 'b snapshot \<Rightarrow> compiledFilter option
    \<Rightarrow> f64 \<Rightarrow> int \<Rightarrow> string \<Rightarrow> seg_id \<Rightarrow> query_state \<Rightarrow> query_state scan" where
  "collect_ngram F R srt cx s cf thr topK aq sid st = (case snap_seg s sid of
     None \<Rightarrow> Scanned st
   | Some seg \<Rightarrow>
       (case sg_ng seg of
          None \<Rightarrow> Scanned st
        | Some ng \<Rightarrow>
            (case ngram_lookup F R srt (cx_scan cx sid) ng aq thr (segment_cut s cf topK sid)
                    (map_option (\<lambda>f. ngram_keep s f sid seg) cf) ((q_err st, q_stats st), False) of
               (r, (er, fs), bad) \<Rightarrow>
                 let st1 = st\<lparr>q_err := er, q_stats := fs\<rparr> in
                 if bad then Panicked
                 else (case r of
                     Panicked \<Rightarrow> Panicked
                   | Canceled \<Rightarrow> Scanned st1
                   | Scanned hs \<Rightarrow>
                       (case add_hits s cf sid seg hs st1 of None \<Rightarrow> Panicked | Some st2 \<Rightarrow> Scanned st2)))))"

definition query_collect ::
  "float_model \<Rightarrow> 'b roaring \<Rightarrow> ('b gram_info list \<Rightarrow> 'b gram_info list) \<Rightarrow> ctx \<Rightarrow> 'b klist \<Rightarrow> 'b snapshot
    \<Rightarrow> compiledFilter option \<Rightarrow> f64 \<Rightarrow> int \<Rightarrow> string \<Rightarrow> (query_state \<times> string) scan" where
  "query_collect F R srt cx l s cf thr topK aq =
     (let st0 = \<lparr>q_out = [], q_err = None, q_stats = no_stats, q_walked = 0\<rparr>; mc = lc_Match (l_cfg l) in
      if mc_Mode mc = ''exact''
      then exact_search F (cx_walk cx) s cf thr topK aq (exactLevels aq (mc_Fallback mc = ''parent_domain'')) st0
      else case (case collect_ngram F R srt cx s cf thr topK aq InBase st0 of
                   Scanned st1 \<Rightarrow> collect_ngram F R srt cx s cf thr topK aq InOverlay st1
                 | r \<Rightarrow> r) of
             Scanned st \<Rightarrow> Scanned (st, aq)
           | Canceled \<Rightarrow> Canceled
           | Panicked \<Rightarrow> Panicked)"

definition querySnap ::
  "float_model \<Rightarrow> 'b roaring \<Rightarrow> ('b gram_info list \<Rightarrow> 'b gram_info list) \<Rightarrow> ctx \<Rightarrow> 'b klist \<Rightarrow> 'b snapshot
    \<Rightarrow> string \<Rightarrow> query_opts \<Rightarrow> compiledFilter option \<Rightarrow> (candidate list) qresult \<times> filter_stats" where
  "querySnap F R srt cx l s q opts cf =
     (let aq = l_norm l q; thr = effectiveThreshold l opts; topK = effectiveTopK l opts in
      if cx_start cx \<or> aq = '''' then (QOk [], no_stats)
      else case query_collect F R srt cx l s cf thr topK aq of
        Panicked \<Rightarrow> (QPanic, no_stats)
      | Canceled \<Rightarrow> (QOk [], no_stats)
      | Scanned (st, matchedKey) \<Rightarrow>
          (case q_err st of
             Some e \<Rightarrow> (QFail e, q_stats st)
           | None \<Rightarrow>
               if cx_end cx then (QOk [], no_stats)
               else
                 let out = sortCandidates (q_out st);
                     out1 = (if topK > 0 \<and> int (length out) > topK then take (nat topK) out else out)
                 in case attributeKeys F l s aq matchedKey out1 of
                      None \<Rightarrow> (QPanic, no_stats)
                    | Some cs \<Rightarrow> (QOk cs, q_stats st)))"

subsection \<open>Prepare and execute\<close>

text \<open>A prepared query: the pinned snapshot, what to run on it, and its charge. The unfiltered forms have no
  compiled filter.\<close>

record 'b prepared_query =
  pq_l :: "'b klist"
  pq_s :: "'b snapshot"
  pq_q :: string
  pq_opts :: query_opts
  pq_cf :: "compiledFilter option"
  pq_cost :: int
  pq_anyOf :: bool
  pq_terms :: "string list"
  pq_anyOfHits :: int

definition query_runes :: "string \<Rightarrow> int" where
  "query_runes q = int (if rune_count q < scratchDefaultQueryRunes then scratchDefaultQueryRunes else rune_count q)"

definition prepareFilteredQuery :: "'b klist \<Rightarrow> string \<Rightarrow> query_opts \<Rightarrow> compiledFilter option \<Rightarrow> 'b prepared_query" where
  "prepareFilteredQuery l q opts cf =
     (let s = l_snap l; mc = lc_Match (l_cfg l);
          cost = scratchBytesSnap s (effectiveTopK l opts) (query_runes q) (int (length (mc_Grams mc)));
          levels = (if mc_Mode mc = ''exact''
            then (let n = length (exactLevels (l_norm l q) (mc_Fallback mc = ''parent_domain'')) in if n = 0 then 1 else int n)
            else 1);
          cost1 = (case cf of
              None \<Rightarrow> cost
            | Some f \<Rightarrow>
                cost + filterChargeSnap s (int (length (cf_terms f))) levels
                + (filterPerAlternative * int (cf_alternatives f) + filterPerScalarByte * int (cf_scalarBytes f))
                + filterExprEvalChargeSnap s (int (cf_alternatives f)) (int (cf_scalarBytes f)) levels)
      in \<lparr>pq_l = l, pq_s = s, pq_q = q, pq_opts = opts, pq_cf = cf, pq_cost = cost1, pq_anyOf = False, pq_terms = [], pq_anyOfHits = 0\<rparr>)"

definition PrepareQuery :: "'b klist \<Rightarrow> string \<Rightarrow> query_opts \<Rightarrow> 'b prepared_query" where
  "PrepareQuery l q opts =
     (let s = l_snap l in
      \<lparr>pq_l = l, pq_s = s, pq_q = q, pq_opts = opts, pq_cf = None,
        pq_cost = scratchBytesSnap s (effectiveTopK l opts) (query_runes q) (int (length (mc_Grams (lc_Match (l_cfg l))))),
        pq_anyOf = False, pq_terms = [], pq_anyOfHits = 0\<rparr>)"

definition PrepareFilteredQuery :: "'b klist \<Rightarrow> string \<Rightarrow> query_opts \<Rightarrow> (string \<times> string) list \<Rightarrow> filter_error + 'b prepared_query" where
  "PrepareFilteredQuery l q opts values =
     (case compileFilter (lc_Filterable (l_cfg l)) values of
        Inl e \<Rightarrow> Inl e
      | Inr cf \<Rightarrow> Inr (prepareFilteredQuery l q opts cf))"

definition PrepareTypedFilteredQuery :: "'b klist \<Rightarrow> string \<Rightarrow> query_opts \<Rightarrow> TypedFilter \<Rightarrow> filter_error + 'b prepared_query" where
  "PrepareTypedFilteredQuery l q opts f =
     (case compileTypedFilter (lc_Filterable (l_cfg l)) f of
        Inl e \<Rightarrow> Inl e
      | Inr cf \<Rightarrow> Inr (prepareFilteredQuery l q opts cf))"

datatype any_of_prepare_error = TermsError any_of_error | FilterError filter_error | LookupPanic

definition prepare_any_of ::
  "'b klist \<Rightarrow> string list \<Rightarrow> query_opts \<Rightarrow> compiledFilter option \<Rightarrow> any_of_prepare_error + 'b prepared_query" where
  "prepare_any_of l ats opts cf =
     (let s = l_snap l in
      case anyOfCostSnap s ats (effectiveTopK l opts) cf of
        None \<Rightarrow> Inl LookupPanic
      | Some (cost, hits) \<Rightarrow>
          Inr \<lparr>pq_l = l, pq_s = s, pq_q = '''', pq_opts = opts, pq_cf = cf, pq_cost = cost, pq_anyOf = True,
            pq_terms = ats, pq_anyOfHits = hits\<rparr>)"

definition PrepareExactAnyOf :: "'b klist \<Rightarrow> string list \<Rightarrow> query_opts \<Rightarrow> any_of_prepare_error + 'b prepared_query" where
  "PrepareExactAnyOf l terms opts = (case anyOfTerms l terms of
     Inl e \<Rightarrow> Inl (TermsError e)
   | Inr ats \<Rightarrow> prepare_any_of l ats opts None)"

definition PrepareTypedFilteredExactAnyOf ::
  "'b klist \<Rightarrow> string list \<Rightarrow> query_opts \<Rightarrow> TypedFilter \<Rightarrow> any_of_prepare_error + 'b prepared_query" where
  "PrepareTypedFilteredExactAnyOf l terms opts f = (case anyOfTerms l terms of
     Inl e \<Rightarrow> Inl (TermsError e)
   | Inr ats \<Rightarrow>
       (case compileTypedFilter (lc_Filterable (l_cfg l)) f of
          Inl e \<Rightarrow> Inl (FilterError e)
        | Inr cf \<Rightarrow> prepare_any_of l ats opts cf))"

definition run_prepared ::
  "float_model \<Rightarrow> 'b roaring \<Rightarrow> ('b gram_info list \<Rightarrow> 'b gram_info list) \<Rightarrow> ctx \<Rightarrow> 'b prepared_query
    \<Rightarrow> (candidate list) qresult \<times> filter_stats" where
  "run_prepared F R srt cx p =
     (if pq_anyOf p then anyOfSnap cx (pq_l p) (pq_s p) (pq_terms p) (pq_opts p) (pq_cf p)
      else querySnap F R srt cx (pq_l p) (pq_s p) (pq_q p) (pq_opts p) (pq_cf p))"

text \<open>\<open>ExecuteStats\<close>, of which \<open>Execute\<close> is the part without statistics.\<close>

definition ExecuteStats ::
  "float_model \<Rightarrow> 'b roaring \<Rightarrow> ('b gram_info list \<Rightarrow> 'b gram_info list) \<Rightarrow> ctx \<Rightarrow> 'b prepared_query
    \<Rightarrow> (candidate list) qresult \<times> string \<times> filter_stats" where
  "ExecuteStats F R srt cx p = (case run_prepared F R srt cx p of
     (QFail e, _) \<Rightarrow> (QFail e, sn_version (pq_s p), no_stats)
   | (r, fs) \<Rightarrow> (r, sn_version (pq_s p), fs))"

definition Execute ::
  "float_model \<Rightarrow> 'b roaring \<Rightarrow> ('b gram_info list \<Rightarrow> 'b gram_info list) \<Rightarrow> ctx \<Rightarrow> 'b prepared_query
    \<Rightarrow> (candidate list) qresult \<times> string" where
  "Execute F R srt cx p = (fst (run_prepared F R srt cx p), sn_version (pq_s p))"

definition QueryVersioned ::
  "float_model \<Rightarrow> 'b roaring \<Rightarrow> ('b gram_info list \<Rightarrow> 'b gram_info list) \<Rightarrow> ctx \<Rightarrow> 'b klist \<Rightarrow> string \<Rightarrow> query_opts
    \<Rightarrow> (candidate list) qresult \<times> string" where
  "QueryVersioned F R srt cx l q opts = Execute F R srt cx (PrepareQuery l q opts)"

definition QueryTypedFilteredCtx ::
  "float_model \<Rightarrow> 'b roaring \<Rightarrow> ('b gram_info list \<Rightarrow> 'b gram_info list) \<Rightarrow> ctx \<Rightarrow> 'b klist \<Rightarrow> string \<Rightarrow> query_opts \<Rightarrow> TypedFilter
    \<Rightarrow> filter_error + (candidate list) qresult \<times> string" where
  "QueryTypedFilteredCtx F R srt cx l q opts f =
     map_sum id (Execute F R srt cx) (PrepareTypedFilteredQuery l q opts f)"

definition QueryFilteredCtx ::
  "float_model \<Rightarrow> 'b roaring \<Rightarrow> ('b gram_info list \<Rightarrow> 'b gram_info list) \<Rightarrow> ctx \<Rightarrow> 'b klist \<Rightarrow> string \<Rightarrow> query_opts \<Rightarrow> (string \<times> string) list
    \<Rightarrow> filter_error + (candidate list) qresult \<times> string" where
  "QueryFilteredCtx F R srt cx l q opts values =
     map_sum id (Execute F R srt cx) (PrepareFilteredQuery l q opts values)"

end
