(* ===== verification/Query_Live.thy ===== *)
theory Query_Live
  imports Query_Model
begin

text \<open>
  What queries read from a snapshot. A position (segment and ordinal) is live when its entry is not masked; on a
  list in its invariant the live positions are in bijection with the entries of the visible map, and
  a live position is attributed to its own entry. An exact index is true when it finds exactly the
  positions whose entry has the analyzed key; every index the list builds itself is.
\<close>

subsection \<open>Live positions\<close>

definition live_at :: "'b snapshot \<Rightarrow> cand_meta \<Rightarrow> entry \<Rightarrow> bool" where
  "live_at s m e \<longleftrightarrow> (\<exists>seg. snap_seg s (fst m) = Some seg \<and> seg_entry seg (snd m) = Some e \<and> e_ID e \<notin> masked_ids s (fst m))"

definition snap_small :: "'b snapshot \<Rightarrow> bool" where
  "snap_small s \<longleftrightarrow> (\<forall>sid seg. snap_seg s sid = Some seg \<longrightarrow> length (sg_entries seg) < 2 ^ 32)"

lemma seg_entry_set:
  assumes "length (sg_entries seg) < 2 ^ 32"
  shows "(\<exists>ord. seg_entry seg ord = Some e) \<longleftrightarrow> e \<in> set (sg_entries seg)"
proof
  assume "e \<in> set (sg_entries seg)"
  then obtain j where j: "j < length (sg_entries seg)" "sg_entries seg ! j = e" by (auto simp: in_set_conv_nth)
  then have "unat (of_nat j :: u32) = j" using assms by (simp add: unat_of_nat)
  then show "\<exists>ord. seg_entry seg ord = Some e" using j by (intro exI [of _ "of_nat j"]) (simp add: seg_entry_def)
qed (auto simp: seg_entry_def split: if_splits)

lemma seg_entry_inj:
  assumes "distinct (map e_ID (sg_entries seg))" "seg_entry seg o1 = Some e1" "seg_entry seg o2 = Some e2" "e_ID e1 = e_ID e2"
  shows "o1 = o2 \<and> e1 = e2"
proof -
  have n: "unat o1 < length (sg_entries seg)" "unat o2 < length (sg_entries seg)"
    "map e_ID (sg_entries seg) ! unat o1 = map e_ID (sg_entries seg) ! unat o2"
    using assms(2-4) by (auto simp: seg_entry_def split: if_splits)
  then have "unat o1 = unat o2" using nth_eq_iff_index_eq [OF assms(1), of "unat o1" "unat o2"] by simp
  then have "o1 = o2" by (simp add: word_unat_eq_iff)
  then show ?thesis using assms(2,3) by simp
qed

lemma snap_seg_inv: "list_inv l \<Longrightarrow> snap_seg (l_snap l) sid = Some seg \<Longrightarrow> seg_inv seg"
  by (cases sid) (auto simp: list_inv_def snap_seg_def)

lemma overlay_masks_base:
  assumes "list_inv l" "sn_overlay (l_snap l) = Some ov" "sn_base (l_snap l) = Some seg"
    "e \<in> set (sg_entries seg)" "e_ID e \<in> e_ID ` set (sg_entries ov)"
  shows "e_ID e \<in> sn_tombstones (l_snap l)"
proof -
  have "idmap (sg_entries ov) = map_of (l_overlaySrc l)"
    using assms(1,2) src_ok_idmap(1) [of "l_overlaySrc l"] by (auto simp: list_inv_def)
  then have "e_ID e \<in> dom (map_of (l_overlaySrc l))" using assms(5) by (simp add: dom_idmap [symmetric])
  moreover have "in_base (Some seg) (e_ID e)"
    using assms(1,3,4) by_id_dom [of 0 "sg_entries seg" Map.empty] by (auto simp: list_inv_def seg_inv_def in_base_def)
  ultimately show ?thesis using assms(1,3) by (auto simp: list_inv_def tomb_ok_def)
qed

lemma live_unique:
  assumes l: "list_inv l" and 1: "live_at (l_snap l) m1 e1" and 2: "live_at (l_snap l) m2 e2" and eq: "e_ID e1 = e_ID e2"
  shows "m1 = m2 \<and> e1 = e2"
proof -
  obtain s1 s2 where s: "snap_seg (l_snap l) (fst m1) = Some s1" "seg_entry s1 (snd m1) = Some e1" "e_ID e1 \<notin> masked_ids (l_snap l) (fst m1)"
    "snap_seg (l_snap l) (fst m2) = Some s2" "seg_entry s2 (snd m2) = Some e2" "e_ID e2 \<notin> masked_ids (l_snap l) (fst m2)"
    using 1 2 by (auto simp: live_at_def)
  have in_s: "e1 \<in> set (sg_entries s1)" "e2 \<in> set (sg_entries s2)" using s(2,5) by (auto simp: seg_entry_def split: if_splits)
  have "fst m1 = fst m2"
  proof (cases "fst m1"; cases "fst m2")
    assume "fst m1 = InBase" "fst m2 = InOverlay"
    then show ?thesis using overlay_masks_base [OF l, of s2 s1 e1] s in_s eq by (auto simp: snap_seg_def masked_ids_def)
  next
    assume "fst m1 = InOverlay" "fst m2 = InBase"
    then show ?thesis using overlay_masks_base [OF l, of s1 s2 e2] s in_s eq [symmetric] by (auto simp: snap_seg_def masked_ids_def)
  qed simp_all
  then have "s1 = s2" using s(1,4) by simp
  then have "snd m1 = snd m2 \<and> e1 = e2"
    using seg_entry_inj [of s1 "snd m1" e1 "snd m2" e2] snap_seg_inv [OF l s(1)] s(2,5) eq by (simp add: seg_inv_def)
  then show ?thesis using \<open>fst m1 = fst m2\<close> by (simp add: prod_eq_iff)
qed

lemma live_view_iff:
  assumes l: "list_inv l" and sm: "snap_small (l_snap l)"
  shows "view l i = Some e \<longleftrightarrow> e_ID e = i \<and> (\<exists>m. live_at (l_snap l) m e)"
proof -
  let ?s = "l_snap l"
  have at: "(\<exists>m. live_at ?s m e) \<longleftrightarrow> (\<exists>seg. sn_overlay ?s = Some seg \<and> e \<in> set (sg_entries seg))
      \<or> (\<exists>seg. sn_base ?s = Some seg \<and> e \<in> set (sg_entries seg) \<and> e_ID e \<notin> sn_tombstones ?s)" (is "?L \<longleftrightarrow> ?R")
  proof
    assume ?L
    then obtain sid ord seg where "snap_seg ?s sid = Some seg" "seg_entry seg ord = Some e" "e_ID e \<notin> masked_ids ?s sid"
      by (auto simp: live_at_def)
    then show ?R by (cases sid) (auto simp: snap_seg_def masked_ids_def seg_entry_def split: if_splits)
  next
    assume ?R
    then consider seg where "snap_seg ?s InOverlay = Some seg" "e \<in> set (sg_entries seg)"
      | seg where "snap_seg ?s InBase = Some seg" "e \<in> set (sg_entries seg)" "e_ID e \<notin> sn_tombstones ?s"
      by (auto simp: snap_seg_def)
    then show ?L
    proof cases
      case 1
      then obtain ord where "seg_entry seg ord = Some e" using seg_entry_set [of seg e] sm by (auto simp: snap_small_def)
      then show ?thesis using 1 by (auto simp: live_at_def masked_ids_def intro!: exI [of _ InOverlay])
    next
      case 2
      then obtain ord where "seg_entry seg ord = Some e" using seg_entry_set [of seg e] sm by (auto simp: snap_small_def)
      then show ?thesis using 2 by (auto simp: live_at_def masked_ids_def intro!: exI [of _ InBase])
    qed
  qed
  have sm_map: "seg_map so i = Some e \<longleftrightarrow> (\<exists>seg. so = Some seg \<and> e \<in> set (sg_entries seg) \<and> e_ID e = i)"
    if "\<And>seg. so = Some seg \<Longrightarrow> seg_inv seg" for so :: "'a segment option" and i e
    using that by (cases so) (auto simp: seg_map_def seg_inv_def idmap_distinct)
  have b: "\<And>seg. sn_base ?s = Some seg \<Longrightarrow> seg_inv seg" and o: "\<And>seg. sn_overlay ?s = Some seg \<Longrightarrow> seg_inv seg"
    using l by (auto simp: list_inv_def)
  have none: "seg_map (sn_overlay ?s) i = None" if "sn_base ?s = Some seg" "e \<in> set (sg_entries seg)" "e_ID e = i" "i \<notin> sn_tombstones ?s" for seg
    using overlay_masks_base [OF l _ that(1,2)] that(3,4) dom_idmap by (fastforce simp: seg_map_def split: option.splits)
  note Mb = sm_map [of "sn_base ?s" i e, OF b] and Mo = sm_map [of "sn_overlay ?s" i e, OF o]
  have "view l i = Some e \<longleftrightarrow> seg_map (sn_overlay ?s) i = Some e
      \<or> seg_map (sn_overlay ?s) i = None \<and> i \<notin> sn_tombstones ?s \<and> seg_map (sn_base ?s) i = Some e"
    by (auto simp: view_def snap_view_def map_add_Some_iff restrict_map_def)
  then show ?thesis unfolding at using Mb Mo none by blast
qed

lemma attributed_live:
  assumes l: "list_inv l" and m: "live_at (l_snap l) m e"
  shows "attributed_entry (l_snap l) m = Some e"
proof -
  obtain seg where s: "snap_seg (l_snap l) (fst m) = Some seg" "seg_entry seg (snd m) = Some e" "e_ID e \<notin> masked_ids (l_snap l) (fst m)"
    using m by (auto simp: live_at_def)
  have "sg_byID ov (e_ID e) = None" if "sn_overlay (l_snap l) = Some ov" "fst m = InBase" for ov
  proof -
    have "e \<in> set (sg_entries seg)" using s(2) by (auto simp: seg_entry_def split: if_splits)
    then have "e_ID e \<notin> e_ID ` set (sg_entries ov)"
      using overlay_masks_base [OF l that(1), of seg e] s that(2) by (auto simp: snap_seg_def masked_ids_def)
    then show ?thesis
      using l that(1) by_id_dom [of 0 "sg_entries ov" Map.empty] by (auto simp: list_inv_def seg_inv_def domIff)
  qed
  then show ?thesis using s by (cases "fst m") (auto simp: attributed_entry_def split: option.splits)
qed

subsection \<open>True indexes\<close>

definition holds :: "'b klist \<Rightarrow> string \<Rightarrow> entry \<Rightarrow> bool" where
  "holds l t e \<longleftrightarrow> t \<in> set (analyzed_keys l e)"

definition ex_true :: "'b klist \<Rightarrow> 'b segment \<Rightarrow> exact_index \<Rightarrow> bool" where
  "ex_true l seg ex \<longleftrightarrow> (\<forall>k. exact_lookup ex k = Some (map of_nat (holders (map (analyzed_keys l) (sg_entries seg)) k)))"

definition index_true :: "'b klist \<Rightarrow> bool" where
  "index_true l \<longleftrightarrow> snap_small (l_snap l) \<and> (\<forall>sid seg. snap_seg (l_snap l) sid = Some seg \<longrightarrow>
     (HasExactIndex l \<longleftrightarrow> sg_ex seg \<noteq> None) \<and> (\<forall>ex. sg_ex seg = Some ex \<longrightarrow> ex_true l seg ex))"

lemma holds_not_empty: "holds l t e \<Longrightarrow> t \<noteq> ''''"
  by (auto simp: holds_def analyzed_keys_def)

lemma ex_true_lookup:
  assumes t: "ex_true l seg ex" and n: "length (sg_entries seg) < 2 ^ 32"
  obtains run where "exact_lookup ex t = Some run" "distinct run" "\<And>ord. ord \<in> set run \<longleftrightarrow> (\<exists>e. seg_entry seg ord = Some e \<and> holds l t e)"
proof
  let ?h = "holders (map (analyzed_keys l) (sg_entries seg)) t"
  show "exact_lookup ex t = Some (map of_nat ?h)" using t by (simp add: ex_true_def)
  have less: "j < length (sg_entries seg)" if "j \<in> set ?h" for j using holders_less [OF that] by simp
  have un: "unat (of_nat j :: u32) = j" if "j < length (sg_entries seg)" for j using that n by (simp add: unat_of_nat)
  have "inj_on (of_nat :: nat \<Rightarrow> u32) (set ?h)" using un less by (metis inj_onI)
  then show "distinct (map of_nat ?h :: u32 list)" by (simp add: distinct_map holders_def)
  show "ord \<in> set (map of_nat ?h) \<longleftrightarrow> (\<exists>e. seg_entry seg ord = Some e \<and> holds l t e)" for ord
  proof
    assume "ord \<in> set (map of_nat ?h)"
    then obtain j where j: "ord = of_nat j" "j \<in> set ?h" by auto
    then have "seg_entry seg ord = Some (sg_entries seg ! j)" using less [OF j(2)] un [of j] by (simp add: seg_entry_def)
    moreover have "holds l t (sg_entries seg ! j)" using j(2) less [OF j(2)] by (auto simp: holders_def holds_def split: if_splits)
    ultimately show "\<exists>e. seg_entry seg ord = Some e \<and> holds l t e" by blast
  next
    assume "\<exists>e. seg_entry seg ord = Some e \<and> holds l t e"
    then obtain e where e: "seg_entry seg ord = Some e" "holds l t e" by blast
    then have u: "unat ord < length (sg_entries seg)" "sg_entries seg ! unat ord = e" by (auto simp: seg_entry_def split: if_splits)
    then have "t \<in> set (map (analyzed_keys l) (sg_entries seg) ! unat ord)" "t \<noteq> ''''"
      using holds_not_empty [OF e(2)] e(2) by (simp_all add: holds_def)
    then have "unat ord \<in> set ?h" using u(1) by (simp add: holders_def)
    then show "ord \<in> set (map of_nat ?h)" unfolding set_map by (intro image_eqI [of _ _ "unat ord"]) simp_all
  qed
qed

subsection \<open>Lists that build their own indexes\<close>

text \<open>Every operation except the three prebuilt-index replacements installs only segments the list built.\<close>

definition own_built :: "'b env \<Rightarrow> 'b klist \<Rightarrow> bool" where
  "own_built E l \<longleftrightarrow> (\<forall>sid seg. snap_seg (l_snap l) sid = Some seg \<longrightarrow> buildSegment E l (sg_entries seg) = Inr seg)"

fun own_op :: "'b list_op \<Rightarrow> bool" where
  "own_op (OpReplaceWithIndex es ix bi) = False"
| "own_op (OpReplaceWithIndexes es ix c bi) = False"
| "own_op (OpReplaceWithExactIndex es ix bi) = False"
| "own_op _ = True"

lemma buildSegment_self: "buildSegment E l es = Inr seg \<Longrightarrow> buildSegment E l (sg_entries seg) = Inr seg"
  by (subgoal_tac "sg_entries seg = es") (auto simp: buildSegment_def Let_def split: option.splits if_splits sum.splits)

lemma own_builtI:
  assumes "l_cfg l1 = l_cfg l" "l_norm l1 = l_norm l"
    and "\<And>seg. sn_base (l_snap l1) = Some seg \<Longrightarrow> buildSegment E l (sg_entries seg) = Inr seg"
    and "\<And>seg. sn_overlay (l_snap l1) = Some seg \<Longrightarrow> buildSegment E l (sg_entries seg) = Inr seg"
  shows "own_built E l1"
  using assms(3,4) buildSegment_keys [OF assms(1,2)] by (auto simp: own_built_def snap_seg_def split: seg_id.splits)

lemma own_builtD:
  assumes "own_built E l"
  shows "sn_base (l_snap l) = Some seg \<Longrightarrow> buildSegment E l (sg_entries seg) = Inr seg"
    "sn_overlay (l_snap l) = Some seg \<Longrightarrow> buildSegment E l (sg_entries seg) = Inr seg"
  using assms spec [of _ InBase] spec [of _ InOverlay] unfolding own_built_def
  by (simp_all add: snap_seg_def split: seg_id.splits)

lemma own_refused: "own_built E l \<Longrightarrow> guarded nm f l = (r, l1) \<Longrightarrow> l_readOnly l \<Longrightarrow> own_built E l1 \<and> l_norm l1 = l_norm l"
proof -
  assume l: "own_built E l" "guarded nm f l = (r, l1)" "l_readOnly l"
  then have k: "l_snap l1 = l_snap l" "l_cfg l1 = l_cfg l" "l_norm l1 = l_norm l"
    by (auto simp: guarded_def refuseReadOnly_def ignoreReadOnly_def)
  show ?thesis using own_builtI [OF k(2,3), of E] own_builtD [OF l(1)] by (simp add: k)
qed

lemma own_overlay:
  assumes "own_built E l" "prepareOverlay E l mut = Inr b"
  shows "own_built E (commitOverlayAt b j l) \<and> l_norm (commitOverlayAt b j l) = l_norm l"
proof -
  obtain src tomb where m: "mut (l_overlaySrc l) (sn_tombstones (l_snap l)) (sn_base (l_snap l)) = (src, tomb)" by force
  have "own_built E (commitOverlayAt b j l)"
  proof (rule own_builtI)
    show "buildSegment E l (sg_entries seg) = Inr seg" if "sn_base (l_snap (commitOverlayAt b j l)) = Some seg" for seg
      using that own_builtD(1) [OF assms(1)] by (simp add: commitOverlayAt_def Let_def)
    show "buildSegment E l (sg_entries seg) = Inr seg" if "sn_overlay (l_snap (commitOverlayAt b j l)) = Some seg" for seg
      using that prepareOverlay_Inr(3) [OF assms(2) m] buildSegment_self by (auto simp: commitOverlayAt_def Let_def)
  qed (simp_all add: commitOverlayAt_def Let_def)
  then show ?thesis by (simp add: commitOverlayAt_def Let_def)
qed

lemma own_base:
  assumes "buildSegment E l es = Inr seg" "l_cfg l1 = l_cfg l" "l_norm l1 = l_norm l" "sn_base (l_snap l1) = Some seg" "sn_overlay (l_snap l1) = None"
  shows "own_built E l1"
  using assms buildSegment_self [OF assms(1)] by (intro own_builtI [where l = l]) auto

lemma own_step:
  assumes "own_built E l" "apply_op E x l = (r, l1)" "own_op x"
  shows "own_built E l1 \<and> l_norm l1 = l_norm l"
proof (cases "l_readOnly l")
  case ro: True
  note R = own_refused [OF assms(1) _ ro]
  show ?thesis
  proof (cases x)
    case (OpJournal ops j)
    then show ?thesis using assms own_overlay [OF assms(1), of "journal_mutate ops"] by (auto simp: applyJournal_def split: if_splits sum.splits)
  next
    case (OpSetBaseID b)
    then have "l_snap l1 = l_snap l \<and> l_cfg l1 = l_cfg l \<and> l_norm l1 = l_norm l" using assms(2) by (auto simp: SetBaseID_def ignoreReadOnly_def)
    then show ?thesis using own_builtI [of l1 l E] own_builtD [OF assms(1)] by simp
  next
    case (OpReplace es)
    show ?thesis by (rule R [OF assms(2) [unfolded OpReplace apply_op.simps Replace_def]])
  next
    case (OpUpsert es)
    show ?thesis by (rule R [OF assms(2) [unfolded OpUpsert apply_op.simps Upsert_def]])
  next
    case (OpDelete i)
    show ?thesis by (rule R [OF assms(2) [unfolded OpDelete apply_op.simps Delete_def]])
  next
    case OpCompact
    show ?thesis by (rule R [OF assms(2) [unfolded OpCompact apply_op.simps Compact_def]])
  qed (use assms(3) in simp_all)
next
  case w: False
  show ?thesis
  proof (cases x)
    case (OpReplace es)
    have f: "Replace E es l = (r, l1)" using assms(2) OpReplace by simp
    show ?thesis
    proof (cases "buildSegment E l (dedupeLastWins es)")
      case (Inr seg)
      then have l1: "l1 = installBase seg l" using f by (simp add: Replace_def guarded_passes [OF w] prepareBase_def Let_def)
      have "own_built E l1" by (rule own_base [OF Inr]) (simp_all add: l1 installBase_def Let_def)
      then show ?thesis by (simp add: l1 installBase_def Let_def)
    next
      case (Inl e)
      then have "l1 = l" using f by (simp add: Replace_def guarded_passes [OF w] prepareBase_def Let_def)
      then show ?thesis using assms(1) by simp
    qed
  next
    case (OpUpsert es)
    then show ?thesis using assms own_overlay [OF assms(1), of "upsert_mutate es" _ "- 1"] w
      by (auto simp: Upsert_def guarded_passes prepareUpsert_def commitOverlay_def split: sum.splits)
  next
    case (OpDelete i)
    then show ?thesis using assms own_overlay [OF assms(1), of "delete_mutate i" _ "- 1"] w
      by (auto simp: Delete_def guarded_passes prepareDelete_def commitOverlay_def split: sum.splits)
  next
    case OpCompact
    have f: "Compact E l = (r, l1)" using assms(2) OpCompact by simp
    show ?thesis
    proof (cases "buildSegment E l (liveEntries l)")
      case (Inr seg)
      then have l1: "l_cfg l1 = l_cfg l" "l_norm l1 = l_norm l" "sn_base (l_snap l1) = Some seg" "sn_overlay (l_snap l1) = None"
        using f by (auto simp: Compact_def guarded_passes [OF w] Let_def)
      show ?thesis using own_base [OF Inr l1] l1(2) by simp
    next
      case (Inl e)
      then have "l1 = l" using f by (simp add: Compact_def guarded_passes [OF w] Let_def)
      then show ?thesis using assms(1) by simp
    qed
  next
    case (OpJournal ops j)
    then show ?thesis using assms own_overlay [OF assms(1), of "journal_mutate ops"] by (auto simp: applyJournal_def split: if_splits sum.splits)
  next
    case (OpSetBaseID b)
    then have "l_snap l1 = l_snap l \<and> l_cfg l1 = l_cfg l \<and> l_norm l1 = l_norm l" using assms(2) by (auto simp: SetBaseID_def ignoreReadOnly_def)
    then show ?thesis using own_builtI [of l1 l E] own_builtD [OF assms(1)] by simp
  qed (use assms(3) in simp_all)
qed

lemma own_run:
  assumes "own_built E l" "run_ops (apply_op E) xs l = (tr, l1)" "list_all own_op xs"
  shows "own_built E l1 \<and> l_norm l1 = l_norm l"
  using assms
proof (induction xs arbitrary: l tr)
  case (Cons x xs)
  obtain r l2 where x: "apply_op E x l = (r, l2)" by force
  obtain tr1 where "run_ops (apply_op E) xs l2 = (tr1, l1)" using Cons.prems(2) x by (auto split: prod.splits)
  then show ?case using Cons.IH [of l2 tr1] own_step [OF Cons.prems(1) x] Cons.prems(3) by simp
qed simp

text \<open>A list as a client gets it: created, and operated on without importing indexes.\<close>

definition grown :: "'b env \<Rightarrow> 'b list_op list \<Rightarrow> 'b klist \<Rightarrow> bool" where
  "grown E ops l \<longleftrightarrow> list_all own_op ops \<and> (\<exists>T sha256hex marshal name cfg l0 tr.
     new_list T sha256hex marshal name cfg = Inr l0 \<and> run_ops (apply_op E) ops l0 = (tr, l))"

lemma grown_inv:
  assumes "grown E ops l"
  shows "list_inv l" "own_built E l" "grams_ok l"
proof -
  obtain T sha256hex marshal name cfg l0 tr where n: "new_list T sha256hex marshal name cfg = Inr l0"
    and r: "run_ops (apply_op E) ops l0 = (tr, l)" and o: "list_all own_op ops"
    using assms by (auto simp: grown_def)
  have "own_built E l0" using n by (auto simp: new_list_def own_built_def snap_seg_def split: sum.splits seg_id.splits)
  then show "own_built E l" using own_run [OF _ r o] by simp
  show "list_inv l" using list_view.run_refines [OF new_list_inv(1) [OF n] r] by simp
  show "grams_ok l" by (rule run_grams [OF new_list_grams [OF n] r])
qed

lemma own_built_true:
  assumes "env_ok E" "own_built E l" "snap_small (l_snap l)"
  shows "index_true l" "snap_seg (l_snap l) sid = Some seg \<Longrightarrow> seg_idx (en_R E) seg"
proof -
  have b: "buildSegment E l (sg_entries seg) = Inr seg" "length (sg_entries seg) < 2 ^ 32" if "snap_seg (l_snap l) sid = Some seg" for sid seg
    using that assms(2,3) by (auto simp: own_built_def snap_small_def)
  show "seg_idx (en_R E) seg" if "snap_seg (l_snap l) sid = Some seg"
    by (rule buildSegment_idx(1) [OF assms(1) b(2,1) [OF that]])
  show "index_true l" unfolding index_true_def
  proof (intro conjI allI impI assms(3))
    fix sid seg assume s: "snap_seg (l_snap l) sid = Some seg"
    note i = buildSegment_idx [OF assms(1) b(2,1) [OF s]]
    show "HasExactIndex l \<longleftrightarrow> sg_ex seg \<noteq> None" using i(4) by (simp add: HasExactIndex_def)
    show "ex_true l seg ex" if "sg_ex seg = Some ex" for ex
      using build_exact_Inr(2) [OF assms(1) _ i(2) [OF that]] b(2) [OF s] by (simp add: ex_true_def)
  qed
qed

end
