(* ===== verification/Any_Of.thy ===== *)
theory Any_Of
  imports Query_Live
begin

text \<open>
  Exact any-of lookups. The bounded heap with its membership set keeps, of the entries offered to it, the \<open>k\<close> with
  the smallest IDs, whatever the order of the offers and however often an entry is offered again. On a list
  whose indexes were built from its entries, a lookup therefore returns the smallest IDs among exactly
  the visible entries that hold a term and pass the filter.
\<close>

subsection \<open>The selection\<close>

abbreviation item_id :: "any_of_item \<Rightarrow> string" where "item_id it \<equiv> c_EntryID (snd it)"

interpretation any_heap: worst_first worseItem item_id
  by unfold_locales (simp add: worseItem_def)

definition sel_inv :: "nat \<Rightarrow> any_of_item set \<Rightarrow> any_of_selection \<Rightarrow> bool" where
  "sel_inv k S a \<longleftrightarrow> as_k a = k \<and> inj_on fst S \<and> as_in a = fst ` set (as_items a) \<and> any_heap.heap_from (as_items a) 0
     \<and> (\<exists>hs. distinct hs \<and> set hs = S \<and> any_heap.best_of k (mset hs) (as_items a))"

lemma sel_inv_new: "sel_inv (nat k) {} (newAnyOfSelection k)"
  by (auto simp: sel_inv_def newAnyOfSelection_def any_heap.heap_from_def any_heap.heap_at_def intro: any_heap.best_of_Nil)

lemma sel_inv_items:
  assumes "sel_inv k S a"
  shows "set (as_items a) \<subseteq> S" "distinct (as_items a)"
    "x \<in> S \<Longrightarrow> x \<notin> set (as_items a) \<Longrightarrow> 0 < k \<and> length (as_items a) = k \<and> (\<forall>y \<in> set (as_items a). item_id y \<le> item_id x)"
proof -
  obtain hs D where h: "distinct hs" "set hs = S" "mset hs = mset (as_items a) + D" "k = 0 \<longrightarrow> D = {#}"
    "D \<noteq> {#} \<longrightarrow> length (as_items a) = k" "\<forall>y \<in> set (as_items a). \<forall>b \<in># D. item_id y \<le> item_id b"
    using assms unfolding sel_inv_def any_heap.best_of_def by (elim conjE exE) (rule that; assumption)
  have "S = set (as_items a) \<union> set_mset D" using h(2,3) by (metis set_mset_mset set_mset_union)
  then show "set (as_items a) \<subseteq> S"
    "x \<in> S \<Longrightarrow> x \<notin> set (as_items a) \<Longrightarrow> 0 < k \<and> length (as_items a) = k \<and> (\<forall>y \<in> set (as_items a). item_id y \<le> item_id x)"
    using h(4-6) by (auto simp: neq0_conv [symmetric] simp del: neq0_conv)
  obtain ds where "mset ds = D" using ex_mset by blast
  then have "mset hs = mset (as_items a @ ds)" using h(3) by simp
  then show "distinct (as_items a)" using h(1) by (metis distinct_append mset_eq_imp_distinct_iff)
qed

lemma as_k_push [simp]: "as_k (push a key c) = as_k a"
  by (simp add: push_def split: prod.splits option.splits)

text \<open>An entry offered again is refused: it is selected, or it was beaten by a full selection.\<close>

lemma admits_again: "sel_inv k S a \<Longrightarrow> (key, c) \<in> S \<Longrightarrow> \<not> admits a key (c_EntryID c)"
proof -
  assume s: "sel_inv k S a" "(key, c) \<in> S"
  show ?thesis
  proof (cases "(key, c) \<in> set (as_items a)")
    case True
    then show ?thesis using s(1) by (auto simp: admits_def sel_inv_def image_iff intro: bexI [of _ "(key, c)"])
  next
    case False
    from sel_inv_items(3) [OF s False] have k: "0 < k" "length (as_items a) = k"
      and le: "\<forall>y \<in> set (as_items a). item_id y \<le> c_EntryID c" by simp_all
    have "as_items a ! 0 \<in> set (as_items a)" using k by (intro nth_mem) simp
    then have "\<not> c_EntryID c < item_id (as_items a ! 0)" using le by (simp add: not_less)
    then show ?thesis using k s(1) by (auto simp: admits_def sel_inv_def)
  qed
qed

lemma image_diff_single: "inj_on f A \<Longrightarrow> x \<in> A \<Longrightarrow> f ` (A - {x}) = f ` A - {f x}"
  using inj_on_image_set_diff [of f A A "{x}"] by simp

lemma push_inv:
  assumes s: "sel_inv k S a" and n: "(key, c) \<notin> S" and i: "inj_on fst (insert (key, c) S)"
  shows "sel_inv k (insert (key, c) S) (push a key c)"
proof -
  let ?x = "(key, c)"
  obtain items' ev where p: "heap_push worseItem k ?x (as_items a) = (items', ev)" by force
  obtain hs where h: "distinct hs" "set hs = S" "any_heap.best_of k (mset hs) (as_items a)"
    using s by (auto simp: sel_inv_def)
  have hp: "any_heap.heap_from (as_items a) 0" and ak: "as_k a = k" and inn: "as_in a = fst ` set (as_items a)"
    using s by (auto simp: sel_inv_def)
  from any_heap.heap_push_best [OF h(3) hp p] have
    b: "any_heap.best_of k (add_mset ?x (mset hs)) items'" "any_heap.heap_from items' 0"
    and m: "mset items' + (case ev of None \<Rightarrow> {#} | Some e \<Rightarrow> {#e#}) = add_mset ?x (mset (as_items a))" by simp_all
  note it = sel_inv_items(1,2) [OF s]
  have dist: "distinct (?x # as_items a)" using it n by auto
  have inj: "inj_on fst (set (?x # as_items a))" using i it(1) by (auto intro: inj_on_subset)
  have "as_in (push a key c) = fst ` set items' \<and> as_items (push a key c) = items'"
  proof (cases ev)
    case None
    then have "set items' = insert ?x (set (as_items a))" using m by (metis (no_types, lifting) add.right_neutral option.case(1) set_mset_add_mset_insert set_mset_mset)
    then show ?thesis using None p ak inn by (simp add: push_def)
  next
    case (Some e)
    have me: "mset (e # items') = mset (?x # as_items a)" using m Some by simp
    then have "distinct (e # items')" "set (e # items') = set (?x # as_items a)"
      using dist by (metis mset_eq_imp_distinct_iff, metis set_mset_mset)
    then have e: "set items' = set (?x # as_items a) - {e}" "e \<in> set (?x # as_items a)" by auto
    then have "fst ` set items' = fst ` set (?x # as_items a) - {fst e}"
      using image_diff_single [OF inj e(2)] by simp
    then show ?thesis using Some p ak inn by (simp add: push_def)
  qed
  moreover have "any_heap.best_of k (mset (?x # hs)) items'" using b(1) by simp
  ultimately show ?thesis using b(2) h n i ak unfolding sel_inv_def as_k_push
    by (intro conjI exI [of _ "?x # hs"]) simp_all
qed

lemma refuse_inv:
  assumes s: "sel_inv k S a" and n: "(key, c) \<notin> S" and i: "inj_on fst (insert (key, c) S)"
    and r: "\<not> admits a key (c_EntryID c)"
  shows "sel_inv k (insert (key, c) S) a"
proof -
  obtain hs where h: "distinct hs" "set hs = S" "any_heap.best_of k (mset hs) (as_items a)"
    using s by (auto simp: sel_inv_def)
  have inn: "as_in a = fst ` set (as_items a)" and hp: "any_heap.heap_from (as_items a) 0" and ak: "as_k a = k" using s by (auto simp: sel_inv_def)
  have "key \<notin> as_in a" using sel_inv_items(1) [OF s] i n unfolding inn by (auto simp: inj_on_def)
  then have f: "0 < k" "k \<le> length (as_items a)" "item_id (as_items a ! 0) \<le> c_EntryID c"
    using r ak by (auto simp: admits_def not_less)
  then have l: "length (as_items a) = k" using h(3) by (auto simp: any_heap.best_of_def)
  have "as_items a \<noteq> []" using l f(1) by auto
  from any_heap.nth0_max [OF hp this] f(3) have le: "\<forall>y \<in> set (as_items a). item_id y \<le> item_id (key, c)" by auto
  have "any_heap.best_of k (mset ((key, c) # hs)) (as_items a)"
    using any_heap.best_of_drop [OF h(3) f(1) l le refl] by simp
  then show ?thesis using inn hp ak h n i unfolding sel_inv_def by (intro conjI exI [of _ "(key, c) # hs"]) simp_all
qed

text \<open>One offer, whatever \<open>admits\<close> says.\<close>

lemma offer_inv:
  assumes "sel_inv k S a" "inj_on fst (insert (key, c) S)"
  shows "sel_inv k (insert (key, c) S) (if admits a key (c_EntryID c) then push a key c else a)"
proof (cases "(key, c) \<in> S")
  case True
  then show ?thesis using admits_again [OF assms(1) True] assms(1) by (simp add: insert_absorb)
next
  case False
  then show ?thesis using push_inv [OF assms(1) False assms(2)] refuse_inv [OF assms(1) False assms(2)] by simp
qed

lemma sel_inv_sorted:
  assumes "sel_inv k S a" "inj_on item_id S"
  shows "map item_id (sorted_selection a) =
    (let ids = sorted_list_of_set (item_id ` S) in if k = 0 then ids else take k ids)"
proof -
  obtain hs where h: "distinct hs" "set hs = S" "any_heap.best_of k (mset hs) (as_items a)"
    using assms(1) by (auto simp: sel_inv_def)
  have "map item_id (sort_key item_id hs) = sorted_list_of_set (item_id ` S)"
  proof (rule sorted_distinct_set_unique)
    show "distinct (map item_id (sort_key item_id hs))" using h(1,2) assms(2) by (simp add: distinct_map)
    show "distinct (sorted_list_of_set (item_id ` S))" by simp
    show "set (map item_id (sort_key item_id hs)) = set (sorted_list_of_set (item_id ` S))" by (simp flip: h(2))
  qed simp_all
  moreover have "sort_key item_id (as_items a) = (if k = 0 then sort_key item_id hs else take k (sort_key item_id hs))"
    using any_heap.best_of_sorted [OF h(3)] h(1,2) assms(2) by simp
  ultimately show ?thesis by (simp add: sorted_selection_def Let_def flip: take_map)
qed

subsection \<open>The walk\<close>

definition passes :: "compiledFilter option \<Rightarrow> entry \<Rightarrow> bool" where
  "passes cf e \<longleftrightarrow> (case cf of None \<Rightarrow> True | Some f \<Rightarrow> cf_eval f (e_Payload e) = Inr True)"

definition malformed :: "compiledFilter option \<Rightarrow> entry \<Rightarrow> scan_error \<Rightarrow> bool" where
  "malformed cf e er \<longleftrightarrow> (\<exists>f. cf = Some f \<and> cf_eval f (e_Payload e) = Inl er)"

definition item :: "cand_meta \<Rightarrow> entry \<Rightarrow> any_of_item" where
  "item key e = (key, \<lparr>c_EntryID = e_ID e, c_Score = 100, c_Key = '''', c_Payload = e_Payload e\<rparr>)"

lemma item_simps [simp]: "fst (item key e) = key" "item_id (item key e) = e_ID e" "c_Score (snd (item key e)) = 100"
  "c_Payload (snd (item key e)) = e_Payload e"
  by (simp_all add: item_def)

text \<open>The passing items of the given ordinals of a segment, and the entries at them.\<close>

definition offered :: "string set \<Rightarrow> compiledFilter option \<Rightarrow> seg_id \<Rightarrow> 'b segment \<Rightarrow> u32 set \<Rightarrow> any_of_item set" where
  "offered masked cf sid seg A = {item (sid, ord) e | ord e. ord \<in> A \<and> seg_entry seg ord = Some e \<and> e_ID e \<notin> masked \<and> passes cf e}"

lemma offered_empty [simp]: "offered masked cf sid seg {} = {}"
  by (simp add: offered_def)

lemma offered_insert:
  "seg_entry seg ord = Some e \<Longrightarrow> offered masked cf sid seg (insert ord A) =
     (if e_ID e \<notin> masked \<and> passes cf e then insert (item (sid, ord) e) (offered masked cf sid seg A) else offered masked cf sid seg A)"
  by (auto simp: offered_def)

lemma offered_union: "offered masked cf sid seg (A \<union> B) = offered masked cf sid seg A \<union> offered masked cf sid seg B"
  by (auto simp: offered_def)

definition walk_inv :: "nat \<Rightarrow> any_of_item set \<Rightarrow> (scan_error \<Rightarrow> bool) \<Rightarrow> any_of_state \<Rightarrow> bool" where
  "walk_inv k S bad st \<longleftrightarrow> sel_inv k S (ao_sel st) \<and> (case ao_err st of None \<Rightarrow> True | Some er \<Rightarrow> bad er)"

lemma visit_inv:
  assumes w: "walk_inv k S bad st" and i: "e_ID e \<notin> masked \<Longrightarrow> passes cf e \<Longrightarrow> inj_on fst (insert (item key e) S)"
    and b: "\<And>er. e_ID e \<notin> masked \<Longrightarrow> malformed cf e er \<Longrightarrow> bad er"
  shows "walk_inv k (if e_ID e \<notin> masked \<and> passes cf e then insert (item key e) S else S) bad (any_of_visit masked cf key e st)
    \<and> ao_walked (any_of_visit masked cf key e st) = ao_walked st"
proof -
  define c where "c = \<lparr>c_EntryID = e_ID e, c_Score = 100, c_Key = '''', c_Payload = e_Payload e\<rparr>"
  have it: "item key e = (key, c)" "c_EntryID c = e_ID e" by (simp_all add: item_def c_def)
  have off: "sel_inv k (insert (item key e) S) (if admits (ao_sel st) key (e_ID e) then push (ao_sel st) key c else ao_sel st)"
    if "e_ID e \<notin> masked" "passes cf e"
    using that offer_inv [of k S "ao_sel st" key c] w i by (simp add: walk_inv_def it)
  have bad: "\<And>er f. e_ID e \<notin> masked \<Longrightarrow> cf = Some f \<Longrightarrow> cf_eval f (e_Payload e) = Inl er \<Longrightarrow> bad er"
    using b by (auto simp: malformed_def)
  show ?thesis
  proof (cases "\<not> admits (ao_sel st) key (e_ID e) \<or> e_ID e \<in> masked")
    case True
    then have v: "any_of_visit masked cf key e st = st" by (simp add: any_of_visit_def)
    show ?thesis unfolding v using True w off by (auto simp: walk_inv_def)
  next
    case False
    then show ?thesis using w off bad
      by (cases cf) (auto simp: any_of_visit_def walk_inv_def passes_def Let_def c_def [symmetric] split: sum.splits bool.splits option.splits)
  qed
qed

lemma run_inv:
  assumes "walk_inv k S bad st" "inj_on fst (S \<union> offered masked cf sid seg (set ords))"
    and "\<And>ord. ord \<in> set ords \<Longrightarrow> seg_entry seg ord \<noteq> None"
    and "\<And>ord e er. ord \<in> set ords \<Longrightarrow> seg_entry seg ord = Some e \<Longrightarrow> e_ID e \<notin> masked \<Longrightarrow> malformed cf e er \<Longrightarrow> bad er"
  shows "case any_of_run cx masked cf sid seg ords st of
      Panicked \<Rightarrow> False
    | Canceled \<Rightarrow> \<exists>w. cx w
    | Scanned st1 \<Rightarrow> walk_inv k (S \<union> offered masked cf sid seg (set ords)) bad st1 \<and> ao_walked st1 = ao_walked st + length ords"
  using assms
proof (induction ords arbitrary: st S)
  case (Cons ord ords)
  obtain e where e: "seg_entry seg ord = Some e" using Cons.prems(3) by auto
  let ?st = "any_of_visit masked cf (sid, ord) e (st\<lparr>ao_walked := Suc (ao_walked st)\<rparr>)"
  let ?S = "if e_ID e \<notin> masked \<and> passes cf e then insert (item (sid, ord) e) S else S"
  have O: "offered masked cf sid seg (set (ord # ords)) =
      (if e_ID e \<notin> masked \<and> passes cf e then insert (item (sid, ord) e) (offered masked cf sid seg (set ords)) else offered masked cf sid seg (set ords))"
    using offered_insert [OF e] by simp
  have U: "S \<union> offered masked cf sid seg (set (ord # ords)) = ?S \<union> offered masked cf sid seg (set ords)"
    unfolding O by auto
  show ?case
  proof (cases "Suc (ao_walked st) mod poll_every cf = 0 \<and> cx (Suc (ao_walked st))")
    case False
    have w0: "walk_inv k S bad (st\<lparr>ao_walked := Suc (ao_walked st)\<rparr>)" using Cons.prems(1) by (simp add: walk_inv_def)
    have v: "walk_inv k ?S bad ?st \<and> ao_walked ?st = Suc (ao_walked st)"
    proof -
      have "inj_on fst (insert (item (sid, ord) e) S)" if "e_ID e \<notin> masked" "passes cf e"
        using Cons.prems(2) that unfolding U by (auto intro: inj_on_subset)
      then show ?thesis using visit_inv [OF w0, of e masked cf "(sid, ord)"] Cons.prems(4) [OF _ e] by simp
    qed
    have step: "any_of_run cx masked cf sid seg (ord # ords) st = any_of_run cx masked cf sid seg ords ?st"
      using False e by (auto simp: Let_def)
    have "case any_of_run cx masked cf sid seg ords ?st of Panicked \<Rightarrow> False | Canceled \<Rightarrow> \<exists>w. cx w
      | Scanned st1 \<Rightarrow> walk_inv k (?S \<union> offered masked cf sid seg (set ords)) bad st1 \<and> ao_walked st1 = ao_walked ?st + length ords"
    proof (rule Cons.IH [OF conjunct1 [OF v]])
      show "inj_on fst (?S \<union> offered masked cf sid seg (set ords))" using Cons.prems(2) unfolding U .
      show "bad er" if "o1 \<in> set ords" "seg_entry seg o1 = Some e1" "e_ID e1 \<notin> masked" "malformed cf e1 er" for o1 e1 er
        by (rule Cons.prems(4) [of o1 e1]) (use that in simp_all)
    qed (use Cons.prems(3) in simp)
    then show ?thesis unfolding step U using v by (auto split: scan.splits)
  qed (auto simp: Let_def)
qed (simp add: walk_inv_def)

definition reached :: "exact_index \<Rightarrow> string list \<Rightarrow> u32 set" where
  "reached ex ts = (\<Union>t \<in> set ts. set (the (exact_lookup ex t)))"

lemma terms_run_inv:
  assumes "walk_inv k S bad st" "inj_on fst (S \<union> offered masked cf sid seg (reached ex ts))"
    and "\<And>t. exact_lookup ex t \<noteq> None"
    and "\<And>ord. ord \<in> reached ex ts \<Longrightarrow> seg_entry seg ord \<noteq> None"
    and "\<And>ord e er. ord \<in> reached ex ts \<Longrightarrow> seg_entry seg ord = Some e \<Longrightarrow> e_ID e \<notin> masked \<Longrightarrow> malformed cf e er \<Longrightarrow> bad er"
  shows "case any_of_terms_run cx masked cf sid seg ex ts st of
      Panicked \<Rightarrow> False
    | Canceled \<Rightarrow> \<exists>w. cx w
    | Scanned st1 \<Rightarrow> walk_inv k (S \<union> offered masked cf sid seg (reached ex ts)) bad st1
        \<and> term_hits ex ts = Some (int (ao_walked st1) - int (ao_walked st))"
  using assms
proof (induction ts arbitrary: st S)
  case (Cons t ts)
  obtain run where run: "exact_lookup ex t = Some run" using Cons.prems(3) by blast
  have R: "reached ex (t # ts) = set run \<union> reached ex ts" by (simp add: reached_def run)
  have U: "S \<union> offered masked cf sid seg (reached ex (t # ts)) =
      S \<union> offered masked cf sid seg (set run) \<union> offered masked cf sid seg (reached ex ts)"
    unfolding R offered_union by blast
  have one: "case any_of_run cx masked cf sid seg run st of Panicked \<Rightarrow> False | Canceled \<Rightarrow> \<exists>w. cx w
      | Scanned st1 \<Rightarrow> walk_inv k (S \<union> offered masked cf sid seg (set run)) bad st1 \<and> ao_walked st1 = ao_walked st + length run"
    using Cons.prems(2) unfolding U
    by (intro run_inv [OF Cons.prems(1)]) (use Cons.prems(4,5) R in \<open>auto intro: inj_on_subset\<close>)
  show ?case
  proof (cases "any_of_run cx masked cf sid seg run st")
    case (Scanned st1)
    have w: "walk_inv k (S \<union> offered masked cf sid seg (set run)) bad st1" "ao_walked st1 = ao_walked st + length run"
      using one Scanned by simp_all
    have "case any_of_terms_run cx masked cf sid seg ex ts st1 of Panicked \<Rightarrow> False | Canceled \<Rightarrow> \<exists>w. cx w
      | Scanned st2 \<Rightarrow> walk_inv k (S \<union> offered masked cf sid seg (set run) \<union> offered masked cf sid seg (reached ex ts)) bad st2
        \<and> term_hits ex ts = Some (int (ao_walked st2) - int (ao_walked st1))"
    proof (rule Cons.IH [OF w(1)])
      show "inj_on fst (S \<union> offered masked cf sid seg (set run) \<union> offered masked cf sid seg (reached ex ts))"
        using Cons.prems(2) unfolding U .
      show "bad er" if "ord \<in> reached ex ts" "seg_entry seg ord = Some e" "e_ID e \<notin> masked" "malformed cf e er" for ord e er
        by (rule Cons.prems(5) [of ord e]) (use that R in simp_all)
    qed (use Cons.prems(3,4) R in auto)
    then show ?thesis using w(2) unfolding U by (auto simp: run Scanned split: scan.splits)
  qed (use one in \<open>simp_all add: run\<close>)
qed (simp_all add: reached_def)

subsection \<open>The whole lookup\<close>

text \<open>The passing items of one segment of a list, for analyzed terms.\<close>

definition seg_items :: "'b klist \<Rightarrow> compiledFilter option \<Rightarrow> string list \<Rightarrow> seg_id \<Rightarrow> any_of_item set" where
  "seg_items l cf ts sid = {item (sid, ord) e | ord e. live_at (l_snap l) (sid, ord) e \<and> (\<exists>t \<in> set ts. holds l t e) \<and> passes cf e}"

definition list_bad :: "'b klist \<Rightarrow> compiledFilter option \<Rightarrow> string list \<Rightarrow> scan_error \<Rightarrow> bool" where
  "list_bad l cf ts er \<longleftrightarrow> (\<exists>m e. live_at (l_snap l) m e \<and> (\<exists>t \<in> set ts. holds l t e) \<and> malformed cf e er)"

lemma items_inj:
  assumes "list_inv l"
  shows "inj_on fst (seg_items l cf ts InBase \<union> seg_items l cf ts InOverlay)"
    "inj_on item_id (seg_items l cf ts InBase \<union> seg_items l cf ts InOverlay)"
proof -
  let ?U = "seg_items l cf ts InBase \<union> seg_items l cf ts InOverlay"
  have live: "\<exists>m e. x = item m e \<and> live_at (l_snap l) m e" if "x \<in> ?U" for x using that by (auto simp: seg_items_def)
  show "inj_on fst ?U"
  proof (rule inj_onI)
    fix x y assume x: "x \<in> ?U" and y: "y \<in> ?U" and eq: "fst x = fst y"
    obtain m1 e1 m2 e2 where "x = item m1 e1" "live_at (l_snap l) m1 e1" "y = item m2 e2" "live_at (l_snap l) m2 e2"
      using live [OF x] live [OF y] by blast
    then show "x = y" using eq by (auto simp: live_at_def)
  qed
  show "inj_on item_id ?U"
  proof (rule inj_onI)
    fix x y assume x: "x \<in> ?U" and y: "y \<in> ?U" and eq: "item_id x = item_id y"
    obtain m1 e1 m2 e2 where "x = item m1 e1" "live_at (l_snap l) m1 e1" "y = item m2 e2" "live_at (l_snap l) m2 e2"
      using live [OF x] live [OF y] by blast
    then show "x = y" using eq live_unique [OF assms, of m1 e1 m2 e2] by simp
  qed
qed

lemma collect_inv:
  assumes l: "list_inv l" "index_true l" "HasExactIndex l" and w: "walk_inv k S (list_bad l cf ts) st"
    and i: "inj_on fst (S \<union> seg_items l cf ts sid)"
  shows "case any_of_collect cx (l_snap l) ts cf sid st of
      Panicked \<Rightarrow> False
    | Canceled \<Rightarrow> \<exists>w. cx w
    | Scanned st1 \<Rightarrow> walk_inv k (S \<union> seg_items l cf ts sid) (list_bad l cf ts) st1
        \<and> map_option fst (probe_seg ts (snap_seg (l_snap l) sid)) = Some (int (ao_walked st1) - int (ao_walked st))"
proof (cases "snap_seg (l_snap l) sid")
  case None
  then show ?thesis using w by (simp add: any_of_collect_def seg_items_def live_at_def probe_seg_def)
next
  case (Some seg)
  have sm: "length (sg_entries seg) < 2 ^ 32" using l(2) Some by (auto simp: index_true_def snap_small_def)
  have "sg_ex seg \<noteq> None" "\<forall>ex. sg_ex seg = Some ex \<longrightarrow> ex_true l seg ex" using l(2,3) Some by (simp_all add: index_true_def)
  then obtain ex where ex: "sg_ex seg = Some ex" "ex_true l seg ex" by auto
  have look: "\<exists>run. exact_lookup ex t = Some run \<and> (\<forall>ord. ord \<in> set run \<longleftrightarrow> (\<exists>e. seg_entry seg ord = Some e \<and> holds l t e))" for t
    by (rule ex_true_lookup [OF ex(2) sm, of t]) blast
  have R: "ord \<in> reached ex ts \<longleftrightarrow> (\<exists>e. seg_entry seg ord = Some e \<and> (\<exists>t \<in> set ts. holds l t e))" for ord
  proof -
    have "ord \<in> set (the (exact_lookup ex t)) \<longleftrightarrow> (\<exists>e. seg_entry seg ord = Some e \<and> holds l t e)" for t
      using look [of t] by auto
    then show ?thesis by (auto simp: reached_def)
  qed
  have O: "offered (masked_ids (l_snap l) sid) cf sid seg (reached ex ts) = seg_items l cf ts sid"
    using R by (auto simp: offered_def seg_items_def live_at_def Some) (metis option.inject)
  have "case any_of_terms_run cx (masked_ids (l_snap l) sid) cf sid seg ex ts st of Panicked \<Rightarrow> False | Canceled \<Rightarrow> \<exists>w. cx w
    | Scanned st1 \<Rightarrow> walk_inv k (S \<union> offered (masked_ids (l_snap l) sid) cf sid seg (reached ex ts)) (list_bad l cf ts) st1
        \<and> term_hits ex ts = Some (int (ao_walked st1) - int (ao_walked st))"
  proof (rule terms_run_inv [OF w])
    show "exact_lookup ex t \<noteq> None" for t using look [of t] by auto
    fix ord e er assume "ord \<in> reached ex ts" "seg_entry seg ord = Some e" "e_ID e \<notin> masked_ids (l_snap l) sid" "malformed cf e er"
    then show "list_bad l cf ts er" unfolding list_bad_def using R [of ord] Some
      by (intro exI [of _ "(sid, ord)"] exI [of _ e]) (auto simp: live_at_def)
  qed (use i O R in auto)
  then show ?thesis unfolding O by (auto simp: any_of_collect_def Some ex probe_seg_def split: scan.splits)
qed

definition uncanceled :: ctx where
  "uncanceled = \<lparr>cx_start = False, cx_walk = (\<lambda>_. False), cx_scan = (\<lambda>_ _. False), cx_end = False\<rparr>"

definition any_of_start :: "int \<Rightarrow> any_of_state" where
  "any_of_start topK = \<lparr>ao_sel = newAnyOfSelection topK, ao_walked = 0, ao_err = None, ao_stats = no_stats\<rparr>"

definition any_of_scan :: "(nat \<Rightarrow> bool) \<Rightarrow> 'b snapshot \<Rightarrow> string list \<Rightarrow> compiledFilter option \<Rightarrow> int \<Rightarrow> any_of_state scan" where
  "any_of_scan cx s ts cf topK = (case any_of_collect cx s ts cf InBase (any_of_start topK) of
     Scanned st1 \<Rightarrow> any_of_collect cx s ts cf InOverlay st1 | r \<Rightarrow> r)"

lemma any_of_scan_inv:
  assumes l: "list_inv l" "index_true l" "HasExactIndex l"
  shows "case any_of_scan cx (l_snap l) ts cf topK of
      Panicked \<Rightarrow> False
    | Canceled \<Rightarrow> \<exists>w. cx w
    | Scanned st \<Rightarrow> walk_inv (nat topK) (seg_items l cf ts InBase \<union> seg_items l cf ts InOverlay) (list_bad l cf ts) st
        \<and> (\<exists>n1 n2 p1 p2. probe_seg ts (sn_base (l_snap l)) = Some (n1, p1) \<and> probe_seg ts (sn_overlay (l_snap l)) = Some (n2, p2)
            \<and> int (ao_walked st) = n1 + n2)"
proof -
  note inj = items_inj(1) [OF l(1), of cf ts]
  have w0: "walk_inv (nat topK) {} (list_bad l cf ts) (any_of_start topK)"
    by (simp add: walk_inv_def any_of_start_def sel_inv_new)
  note b = collect_inv [OF l w0, of InBase cx]
  show ?thesis
  proof (cases "any_of_collect cx (l_snap l) ts cf InBase (any_of_start topK)")
    case (Scanned st1)
    then have w1: "walk_inv (nat topK) (seg_items l cf ts InBase) (list_bad l cf ts) st1"
      and p1: "map_option fst (probe_seg ts (sn_base (l_snap l))) = Some (int (ao_walked st1))"
      using b inj by (auto simp: snap_seg_def any_of_start_def intro: inj_on_subset)
    from collect_inv [OF l w1 inj, of cx] show ?thesis using p1
      by (auto simp: any_of_scan_def Scanned snap_seg_def split: scan.splits)
  next
    case Panicked
    then show ?thesis using b inj by (auto intro: inj_on_subset)
  next
    case Canceled
    then show ?thesis using b inj by (auto simp: any_of_scan_def intro: inj_on_subset)
  qed
qed

lemma attributed_items:
  assumes l: "list_inv l" and its: "set its \<subseteq> seg_items l cf ts InBase \<union> seg_items l cf ts InOverlay" and ts: "\<forall>t \<in> set ts. t \<noteq> ''''"
  shows "\<exists>cs. attributeAnyOf l (l_snap l) ts its = Some cs \<and> map c_EntryID cs = map item_id its
    \<and> (\<forall>c \<in> set cs. c_Score c = 100 \<and> (\<exists>m e. live_at (l_snap l) m e \<and> c_EntryID c = e_ID e \<and> c_Payload c = e_Payload e
          \<and> c_Key c \<in> set (e_Keys e) \<and> l_norm l (c_Key c) \<in> set ts))"
  using its
proof (induction its)
  case (Cons it its)
  then obtain cs where cs: "attributeAnyOf l (l_snap l) ts its = Some cs" "map c_EntryID cs = map item_id its"
    "\<forall>c \<in> set cs. c_Score c = 100 \<and> (\<exists>m e. live_at (l_snap l) m e \<and> c_EntryID c = e_ID e \<and> c_Payload c = e_Payload e
          \<and> c_Key c \<in> set (e_Keys e) \<and> l_norm l (c_Key c) \<in> set ts)" by auto
  obtain m e t where it: "it = item m e" "live_at (l_snap l) m e" "t \<in> set ts" "holds l t e"
    using Cons.prems by (auto simp: seg_items_def)
  obtain k where k: "find (\<lambda>k. l_norm l k \<in> set ts) (e_Keys e) = Some k"
  proof (cases "find (\<lambda>k. l_norm l k \<in> set ts) (e_Keys e)")
    case None
    then show ?thesis using it(3,4) by (auto simp: find_None_iff holds_def analyzed_keys_def)
  qed (use that in blast)
  then have key: "k \<in> set (e_Keys e)" "l_norm l k \<in> set ts" by (auto simp: find_Some_iff)
  have "attributeAnyOf l (l_snap l) ts (it # its) = Some ((snd it)\<lparr>c_Key := k\<rparr> # cs)"
    using attributed_live [OF l it(2)] k cs(1) by (simp add: it(1) item_def)
  moreover have "c_Score ((snd it)\<lparr>c_Key := k\<rparr>) = 100 \<and> (\<exists>m e. live_at (l_snap l) m e \<and> c_EntryID ((snd it)\<lparr>c_Key := k\<rparr>) = e_ID e
      \<and> c_Payload ((snd it)\<lparr>c_Key := k\<rparr>) = e_Payload e \<and> c_Key ((snd it)\<lparr>c_Key := k\<rparr>) \<in> set (e_Keys e) \<and> l_norm l (c_Key ((snd it)\<lparr>c_Key := k\<rparr>)) \<in> set ts)"
    by (intro conjI exI [of _ m] exI [of _ e]) (simp_all add: it(1) item_def key it(2))
  ultimately show ?case using cs(2,3) by (intro exI [of _ "(snd it)\<lparr>c_Key := k\<rparr> # cs"]) simp
qed simp

lemma analyze_terms_set: "set (analyze_terms nrm ts seen) = {a. a \<in> nrm ` set ts \<and> a \<noteq> '''' \<and> a \<notin> seen}"
  by (induction ts arbitrary: seen) (auto simp: Let_def)

text \<open>What an any-of lookup asks for: the visible entries with a key that analyzes like one of the terms.\<close>

definition any_of_matches :: "'b klist \<Rightarrow> string list \<Rightarrow> entry \<Rightarrow> bool" where
  "any_of_matches l terms e \<longleftrightarrow> (\<exists>k \<in> set (e_Keys e). \<exists>t \<in> set terms. l_norm l k = l_norm l t \<and> l_norm l t \<noteq> '''')"

lemma matches_holds: "(\<exists>a \<in> set (analyze_terms (l_norm l) terms {}). holds l a e) \<longleftrightarrow> any_of_matches l terms e"
proof -
  have "(\<exists>a \<in> set (analyze_terms (l_norm l) terms {}). holds l a e) \<longleftrightarrow>
      (\<exists>t \<in> set terms. l_norm l t \<noteq> '''' \<and> (\<exists>k \<in> set (e_Keys e). l_norm l t = l_norm l k))"
    unfolding analyze_terms_set by (force simp: holds_def analyzed_keys_def)
  then show ?thesis unfolding any_of_matches_def by metis
qed

definition smallest :: "int \<Rightarrow> string set \<Rightarrow> string list" where
  "smallest k A = (if k > 0 then take (nat k) (sorted_list_of_set A) else sorted_list_of_set A)"

definition any_of_answer :: "'b klist \<Rightarrow> string list \<Rightarrow> int \<Rightarrow> compiledFilter option \<Rightarrow> (candidate list) qresult \<Rightarrow> bool" where
  "any_of_answer l terms k cf res \<longleftrightarrow> (case res of
      QPanic \<Rightarrow> False
    | QFail er \<Rightarrow> \<exists>i e. view l i = Some e \<and> any_of_matches l terms e \<and> malformed cf e er
    | QOk cs \<Rightarrow> map c_EntryID cs = smallest k {i. \<exists>e. view l i = Some e \<and> any_of_matches l terms e \<and> passes cf e}
        \<and> (\<forall>c \<in> set cs. c_Score c = 100 \<and> (\<exists>e. view l (c_EntryID c) = Some e \<and> c_Payload c = e_Payload e
              \<and> c_Key c \<in> set (e_Keys e) \<and> l_norm l (c_Key c) \<in> l_norm l ` set terms)))"

lemma any_of_result:
  assumes l: "list_inv l" "index_true l" and t: "anyOfTerms l terms = Inr ts"
    and c: "\<not> cx_start cx" "\<not> cx_end cx" "\<And>w. \<not> cx_walk cx w"
  shows "any_of_answer l terms (effectiveTopK l opts) cf (fst (anyOfSnap cx l (l_snap l) ts opts cf))"
proof -
  let ?k = "effectiveTopK l opts" and ?U = "seg_items l cf ts InBase \<union> seg_items l cf ts InOverlay"
  have h: "HasExactIndex l" and ts: "ts = analyze_terms (l_norm l) terms {}"
    using t by (auto simp: anyOfTerms_def split: if_splits)
  have ne: "\<forall>t \<in> set ts. t \<noteq> ''''" and sub: "set ts \<subseteq> l_norm l ` set terms" unfolding ts analyze_terms_set by auto
  have sm: "snap_small (l_snap l)" using l(2) by (simp add: index_true_def)
  note vw = live_view_iff [OF l(1) sm]
  have ids: "item_id ` ?U = {i. \<exists>e. view l i = Some e \<and> any_of_matches l terms e \<and> passes cf e}"
  proof -
    have "x \<in> item_id ` ?U \<longleftrightarrow> (\<exists>m e. live_at (l_snap l) m e \<and> (\<exists>a \<in> set ts. holds l a e) \<and> passes cf e \<and> e_ID e = x)" for x
    proof -
      have "x \<in> item_id ` seg_items l cf ts sid \<longleftrightarrow> (\<exists>ord e. live_at (l_snap l) (sid, ord) e \<and> (\<exists>a \<in> set ts. holds l a e) \<and> passes cf e \<and> e_ID e = x)" for sid
      proof
        assume "x \<in> item_id ` seg_items l cf ts sid"
        then obtain it where "it \<in> seg_items l cf ts sid" "x = item_id it" by blast
        then obtain ord e where "x = item_id (item (sid, ord) e)" "live_at (l_snap l) (sid, ord) e" "\<exists>a \<in> set ts. holds l a e" "passes cf e"
          unfolding seg_items_def by blast
        then show "\<exists>ord e. live_at (l_snap l) (sid, ord) e \<and> (\<exists>a \<in> set ts. holds l a e) \<and> passes cf e \<and> e_ID e = x"
          by (intro exI [of _ ord] exI [of _ e]) simp
      next
        assume "\<exists>ord e. live_at (l_snap l) (sid, ord) e \<and> (\<exists>a \<in> set ts. holds l a e) \<and> passes cf e \<and> e_ID e = x"
        then obtain ord e where e: "live_at (l_snap l) (sid, ord) e" "\<exists>a \<in> set ts. holds l a e" "passes cf e" "e_ID e = x" by blast
        then have "item (sid, ord) e \<in> seg_items l cf ts sid" unfolding seg_items_def by blast
        moreover have "x = item_id (item (sid, ord) e)" using e(4) by simp
        ultimately show "x \<in> item_id ` seg_items l cf ts sid" by (rule image_eqI [rotated])
      qed
      note one = this
      have "(\<exists>m e. P m e) \<longleftrightarrow> (\<exists>ord e. P (InBase, ord) e) \<or> (\<exists>ord e. P (InOverlay, ord) e)" for P :: "cand_meta \<Rightarrow> entry \<Rightarrow> bool"
      proof (intro iffI)
        assume "\<exists>m e. P m e"
        then obtain sid ord e where "P (sid, ord) e" by auto
        then show "(\<exists>ord e. P (InBase, ord) e) \<or> (\<exists>ord e. P (InOverlay, ord) e)" by (cases sid) auto
      qed auto
      from this [of "\<lambda>m e. live_at (l_snap l) m e \<and> (\<exists>a \<in> set ts. holds l a e) \<and> passes cf e \<and> e_ID e = x"]
      show ?thesis unfolding image_Un Un_iff one by blast
    qed
    note mem = this [unfolded ts matches_holds]
    show ?thesis unfolding ts
    proof (rule set_eqI, unfold mem mem_Collect_eq vw)
      fix i
      show "(\<exists>m e. live_at (l_snap l) m e \<and> any_of_matches l terms e \<and> passes cf e \<and> e_ID e = i) \<longleftrightarrow>
          (\<exists>e. (e_ID e = i \<and> (\<exists>m. live_at (l_snap l) m e)) \<and> any_of_matches l terms e \<and> passes cf e)" by iprover
    qed
  qed
  have any: "anyOfSnap cx l (l_snap l) ts opts cf = (case any_of_scan (cx_walk cx) (l_snap l) ts cf ?k of
      Panicked \<Rightarrow> (QPanic, no_stats) | Canceled \<Rightarrow> (QOk [], no_stats)
    | Scanned st \<Rightarrow> (case ao_err st of Some e \<Rightarrow> (QFail e, ao_stats st)
        | None \<Rightarrow> (case attributeAnyOf l (l_snap l) ts (sorted_selection (ao_sel st)) of
            None \<Rightarrow> (QPanic, no_stats) | Some cs \<Rightarrow> (QOk cs, ao_stats st))))"
    using c by (simp add: anyOfSnap_def any_of_scan_def any_of_start_def cong: scan.case_cong)
  note inv = any_of_scan_inv [OF l h, where cx = "cx_walk cx" and ts = ts and cf = cf and topK = "?k"]
  obtain st where st: "any_of_scan (cx_walk cx) (l_snap l) ts cf ?k = Scanned st"
    and w: "walk_inv (nat ?k) ?U (list_bad l cf ts) st"
    using inv c(3) by (cases "any_of_scan (cx_walk cx) (l_snap l) ts cf ?k") auto
  show ?thesis
  proof (cases "ao_err st")
    case (Some er)
    then have "list_bad l cf ts er" using w by (simp add: walk_inv_def)
    then obtain m e where "live_at (l_snap l) m e" "any_of_matches l terms e" "malformed cf e er"
      unfolding list_bad_def ts matches_holds by blast
    then have "\<exists>i e. view l i = Some e \<and> any_of_matches l terms e \<and> malformed cf e er" using vw by blast
    then show ?thesis unfolding any_of_answer_def any st using Some by simp
  next
    case None
    have sel: "sel_inv (nat ?k) ?U (ao_sel st)" using w by (simp add: walk_inv_def)
    have "set (sorted_selection (ao_sel st)) \<subseteq> ?U" using sel_inv_items(1) [OF sel] by (simp add: sorted_selection_def)
    then obtain cs where cs: "attributeAnyOf l (l_snap l) ts (sorted_selection (ao_sel st)) = Some cs"
      "map c_EntryID cs = map item_id (sorted_selection (ao_sel st))"
      "\<forall>c \<in> set cs. c_Score c = 100 \<and> (\<exists>m e. live_at (l_snap l) m e \<and> c_EntryID c = e_ID e \<and> c_Payload c = e_Payload e
          \<and> c_Key c \<in> set (e_Keys e) \<and> l_norm l (c_Key c) \<in> set ts)"
      using attributed_items [OF l(1) _ ne] by blast
    have "map c_EntryID cs = smallest ?k {i. \<exists>e. view l i = Some e \<and> any_of_matches l terms e \<and> passes cf e}"
      unfolding cs(2) sel_inv_sorted [OF sel items_inj(2) [OF l(1)]] ids by (simp add: smallest_def Let_def)
    moreover have "\<forall>c \<in> set cs. c_Score c = 100 \<and> (\<exists>e. view l (c_EntryID c) = Some e \<and> c_Payload c = e_Payload e
        \<and> c_Key c \<in> set (e_Keys e) \<and> l_norm l (c_Key c) \<in> l_norm l ` set terms)"
      using cs(3) vw sub by fastforce
    ultimately show ?thesis unfolding any_of_answer_def any st using None cs(1) by simp
  qed
qed

subsection \<open>What a lookup costs\<close>

text \<open>Retained items and filter evaluations never outnumber the ordinals walked.\<close>

definition metered :: "any_of_state \<Rightarrow> bool" where
  "metered st \<longleftrightarrow> length (as_items (ao_sel st)) \<le> ao_walked st \<and> fst_Evaluated (ao_stats st) \<le> ao_walked st"

lemma push_length: "length (as_items (push a key c)) \<le> Suc (length (as_items a))"
  by (simp add: push_def heap_push_def Let_def split: prod.splits option.splits if_splits)

lemma visit_metered:
  assumes "metered st"
  shows "metered (any_of_visit masked cf key e (st\<lparr>ao_walked := Suc (ao_walked st)\<rparr>))"
proof -
  have "length (as_items (push (ao_sel st) key c)) \<le> Suc (ao_walked st)" for c
    using push_length [of "ao_sel st" key c] assms by (simp add: metered_def)
  then show ?thesis using assms
    by (auto simp: any_of_visit_def metered_def Let_def split: option.splits sum.splits bool.splits)
qed

lemma run_metered: "metered st \<Longrightarrow> any_of_run cx masked cf sid seg ords st = Scanned st1 \<Longrightarrow> metered st1"
proof (induction ords arbitrary: st)
  case (Cons ord ords)
  from Cons.prems(2) obtain e where "any_of_run cx masked cf sid seg ords (any_of_visit masked cf (sid, ord) e (st\<lparr>ao_walked := Suc (ao_walked st)\<rparr>)) = Scanned st1"
    by (auto simp: Let_def split: if_splits option.splits)
  then show ?case by (rule Cons.IH [OF visit_metered [OF Cons.prems(1)]])
qed simp

lemma terms_run_metered: "metered st \<Longrightarrow> any_of_terms_run cx masked cf sid seg ex ts st = Scanned st1 \<Longrightarrow> metered st1"
  by (induction ts arbitrary: st) (auto split: option.splits scan.splits dest: run_metered)

lemma scan_metered: "any_of_scan cx s ts cf topK = Scanned st \<Longrightarrow> metered st"
proof -
  have c: "metered st \<Longrightarrow> any_of_collect cx s ts cf sid st = Scanned st1 \<Longrightarrow> metered st1" for st st1 sid
    by (auto simp: any_of_collect_def split: option.splits dest: terms_run_metered)
  have "metered (any_of_start topK)" by (simp add: metered_def any_of_start_def newAnyOfSelection_def no_stats_def)
  then show "any_of_scan cx s ts cf topK = Scanned st \<Longrightarrow> metered st"
    by (auto simp: any_of_scan_def split: scan.splits dest: c)
qed

lemma probe_payload:
  assumes "list_inv l" "probe_seg ts (snap_seg (l_snap l) sid) = Some (n, p)" "0 \<le> n"
  shows "0 \<le> p"
proof (cases "snap_seg (l_snap l) sid")
  case (Some seg)
  have "0 \<le> (\<Sum>e\<leftarrow>sg_entries seg. int (length (e_Payload e)))" by (rule sum_list_nonneg) auto
  then have "0 \<le> sg_payloadBytes seg" using snap_seg_inv [OF assms(1) Some] by (simp add: seg_inv_def)
  then show ?thesis using assms(2,3) Some by (auto simp: probe_seg_def maxLine_def split: option.splits if_splits)
qed (use assms(2) in \<open>simp add: probe_seg_def\<close>)

text \<open>What one filter evaluation is charged, whatever its payload.\<close>

definition eval_charge :: "compiledFilter option \<Rightarrow> int" where
  "eval_charge cf = (case cf of None \<Rightarrow> 0 | Some f \<Rightarrow>
     filterPerPathOrd * int (length (cf_terms f)) + filterPerAlternativeOrd * int (cf_alternatives f) + filterPerScalarByteOrd * int (cf_scalarBytes f))"

lemma eval_charge_nonneg: "0 \<le> eval_charge cf"
  by (auto simp: eval_charge_def filterPerPathOrd_def filterPerAlternativeOrd_def filterPerScalarByteOrd_def split: option.splits)

lemma probe_hits_nonneg: "term_hits ex ts = Some n \<Longrightarrow> 0 \<le> n"
  by (induction ts arbitrary: n) (auto split: option.splits)

lemma any_of_priced:
  assumes l: "list_inv l" "index_true l" "HasExactIndex l"
  obtains st cost hits where "any_of_scan (\<lambda>_. False) (l_snap l) ts cf topK = Scanned st"
    "anyOfCostSnap (l_snap l) ts topK cf = Some (cost, hits)" "hits = int (ao_walked st)"
    "scratchQueryFixedBytes + anyOfPerHitBytes * int (length (as_items (ao_sel st))) + eval_charge cf * int (fst_Evaluated (ao_stats st)) \<le> cost"
proof -
  obtain st n1 n2 p1 p2 where s: "any_of_scan (\<lambda>_. False) (l_snap l) ts cf topK = Scanned st"
    "probe_seg ts (sn_base (l_snap l)) = Some (n1, p1)" "probe_seg ts (sn_overlay (l_snap l)) = Some (n2, p2)"
    "int (ao_walked st) = n1 + n2" and w: "walk_inv (nat topK) (seg_items l cf ts InBase \<union> seg_items l cf ts InOverlay) (list_bad l cf ts) st"
    using any_of_scan_inv [OF l, where cx = "\<lambda>_. False" and ts = ts and cf = cf and topK = topK]
    by (cases "any_of_scan (\<lambda>_. False) (l_snap l) ts cf topK") auto
  have n: "0 \<le> n1" "0 \<le> n2" using s(2,3) by (auto simp: probe_seg_def dest: probe_hits_nonneg split: option.splits)
  have p: "0 \<le> p1" "0 \<le> p2"
    using probe_payload [OF l(1), of ts InBase n1 p1] probe_payload [OF l(1), of ts InOverlay n2 p2] s(2,3) n by (simp_all add: snap_seg_def)
  let ?m = "int (length (as_items (ao_sel st)))" and ?ev = "int (fst_Evaluated (ao_stats st))" and ?h = "n1 + n2"
  have m: "?m \<le> ?h" "?ev \<le> ?h" using scan_metered [OF s(1)] s(4) by (simp_all add: metered_def)
  have "topK > 0 \<longrightarrow> ?m \<le> topK" using w by (auto simp: walk_inv_def sel_inv_def any_heap.best_of_def)
  then have c: "?m \<le> (if topK > 0 \<and> topK < ?h then topK else ?h)" using m by simp
  have "0 \<le> eval_charge cf" by (rule eval_charge_nonneg)
  then have e: "eval_charge cf * ?ev \<le> eval_charge cf * ?h" using m(2) by (rule mult_left_mono [rotated])
  show ?thesis
  proof (rule that [OF s(1)])
    let ?cost = "fst (the (anyOfCostSnap (l_snap l) ts topK cf))"
    show "anyOfCostSnap (l_snap l) ts topK cf = Some (?cost, ?h)" "?h = int (ao_walked st)"
      by (simp_all add: anyOfCostSnap_def s(2,3) Let_def) (simp add: s(4))
    show "scratchQueryFixedBytes + anyOfPerHitBytes * ?m + eval_charge cf * ?ev \<le> ?cost"
    proof (cases cf)
      case None
      then show ?thesis using c by (simp add: anyOfCostSnap_def s(2,3) Let_def eval_charge_def anyOfPerHitBytes_def)
    next
      case (Some f)
      have "eval_charge cf * ?h = filterPerPathOrd * int (length (cf_terms f)) * ?h
          + (filterPerAlternativeOrd * int (cf_alternatives f) + filterPerScalarByteOrd * int (cf_scalarBytes f)) * ?h"
        by (simp add: eval_charge_def Some algebra_simps)
      then show ?thesis using c e p
        by (simp add: Some anyOfCostSnap_def s(2,3) Let_def anyOfPerHitBytes_def filterScanPerByte_def filterPerAlternative_def filterPerScalarByte_def)
    qed
  qed
qed

subsection \<open>Properties\<close>

definition live_ctx :: "ctx \<Rightarrow> bool" where
  "live_ctx cx \<longleftrightarrow> \<not> cx_start cx \<and> \<not> cx_end cx \<and> cx_walk cx = (\<lambda>_. False) \<and> cx_scan cx = (\<lambda>_ _. False)"

definition returned :: "(candidate list) qresult \<Rightarrow> nat" where
  "returned res = (case res of QOk cs \<Rightarrow> length cs | _ \<Rightarrow> 0)"

lemma prepared_any_of:
  assumes l: "list_inv l" "index_true l" and t: "anyOfTerms l terms = Inr ts" and c: "live_ctx cx"
  obtains p where "prepare_any_of l ts opts cf = Inr p" "pq_cf p = cf"
    "run_prepared F R srt cx p = anyOfSnap cx l (l_snap l) ts opts cf"
    "\<And>res fs. run_prepared F R srt cx p = (res, fs) \<Longrightarrow>
       scratchQueryFixedBytes + anyOfPerHitBytes * int (returned res) + eval_charge cf * int (fst_Evaluated fs) \<le> pq_cost p"
proof -
  have h: "HasExactIndex l" using t by (auto simp: anyOfTerms_def split: if_splits)
  obtain st cost hits where s: "any_of_scan (\<lambda>_. False) (l_snap l) ts cf (effectiveTopK l opts) = Scanned st"
    "anyOfCostSnap (l_snap l) ts (effectiveTopK l opts) cf = Some (cost, hits)"
    "scratchQueryFixedBytes + anyOfPerHitBytes * int (length (as_items (ao_sel st))) + eval_charge cf * int (fst_Evaluated (ao_stats st)) \<le> cost"
    using any_of_priced [OF l h] by metis
  define p where "p = \<lparr>pq_l = l, pq_s = l_snap l, pq_q = '''', pq_opts = opts, pq_cf = cf, pq_cost = cost, pq_anyOf = True,
            pq_terms = ts, pq_anyOfHits = hits\<rparr>"
  have len: "length cs = length its" if "attributeAnyOf l (l_snap l) ts its = Some cs" for its cs
    using that by (induction its arbitrary: cs) (auto split: option.splits)
  have run: "run_prepared F R srt cx p = anyOfSnap cx l (l_snap l) ts opts cf" by (simp add: run_prepared_def p_def)
  show ?thesis
  proof (rule that)
    show "prepare_any_of l ts opts cf = Inr p" by (simp add: prepare_any_of_def s(2) p_def Let_def)
    fix res fs assume "run_prepared F R srt cx p = (res, fs)"
    then have a: "anyOfSnap cx l (l_snap l) ts opts cf = (res, fs)" by (simp add: run)
    have cx: "cx_start cx = False" "cx_end cx = False" "cx_walk cx = (\<lambda>_. False)" using c by (simp_all add: live_ctx_def)
    have "anyOfSnap cx l (l_snap l) ts opts cf = (case any_of_scan (\<lambda>_. False) (l_snap l) ts cf (effectiveTopK l opts) of
        Panicked \<Rightarrow> (QPanic, no_stats) | Canceled \<Rightarrow> (QOk [], no_stats)
      | Scanned st \<Rightarrow> (case ao_err st of Some e \<Rightarrow> (QFail e, ao_stats st)
        | None \<Rightarrow> (case attributeAnyOf l (l_snap l) ts (sorted_selection (ao_sel st)) of
            None \<Rightarrow> (QPanic, no_stats) | Some cs \<Rightarrow> (QOk cs, ao_stats st))))"
      unfolding anyOfSnap_def cx any_of_scan_def any_of_start_def if_False Let_def ..
    then have "returned res \<le> length (as_items (ao_sel st)) \<and> fst_Evaluated fs \<le> fst_Evaluated (ao_stats st)"
      using a len by (auto simp: s(1) sorted_selection_def returned_def no_stats_def split: option.splits)
    moreover have "0 \<le> eval_charge cf" by (rule eval_charge_nonneg)
    ultimately have "anyOfPerHitBytes * int (returned res) \<le> anyOfPerHitBytes * int (length (as_items (ao_sel st)))"
      "eval_charge cf * int (fst_Evaluated fs) \<le> eval_charge cf * int (fst_Evaluated (ao_stats st))"
      by (auto simp: anyOfPerHitBytes_def intro: mult_left_mono)
    then show "scratchQueryFixedBytes + anyOfPerHitBytes * int (returned res) + eval_charge cf * int (fst_Evaluated fs) \<le> pq_cost p"
      using s(3) by (simp add: p_def)
  qed (simp_all add: p_def run_prepared_def)
qed

definition demo_ops :: "u32 set list_op list" where
  "demo_ops = [OpUpsert [demo_entry ''a'' ''x'']]"

lemma demo_grown_config:
  assumes r: "resolve_config cfg = Inr (cfg', an)"
  obtains l where "grown demo_env demo_ops l" "snap_small (l_snap l)" "l_cfg l = cfg'" "l_norm l = normalize ascii_tables an"
proof -
  let ?es = "[demo_entry ''a'' ''x'']"
  obtain l0 :: "u32 set klist" where l0: "new_list ascii_tables (\<lambda>s. s) (\<lambda>_. '''') ''d'' cfg = Inr l0" "l_cfg l0 = cfg'"
    "l_snap l0 = \<lparr>sn_base = None, sn_overlay = None, sn_tombstones = {}, sn_version = ''empty@0''\<rparr>" "l_overlaySrc l0 = []" "\<not> l_readOnly l0"
    "l_norm l0 = normalize ascii_tables an"
    using r by (simp add: new_list_def)
  obtain res l where u: "Upsert demo_env ?es l0 = (res, l)" by force
  have "run_ops (apply_op demo_env) demo_ops l0 = ([(OpUpsert ?es, res)], l)" by (simp add: demo_ops_def u)
  then have "grown demo_env demo_ops l" using l0(1) unfolding grown_def by (intro conjI exI) (assumption | simp add: demo_ops_def)+
  moreover have "snap_small (l_snap l) \<and> l_cfg l = cfg' \<and> l_norm l = normalize ascii_tables an"
  proof (cases "prepareUpsert demo_env l0 ?es")
    case (Inl e)
    then have "l = l0" using u by (simp add: Upsert_def guarded_passes [OF l0(5)])
    then show ?thesis by (simp add: l0 snap_small_def snap_seg_def split: seg_id.splits)
  next
    case (Inr b)
    then have l: "l = commitOverlayAt b (- 1) l0" using u by (simp add: Upsert_def guarded_passes [OF l0(5)] commitOverlay_def)
    have m: "upsert_mutate ?es (l_overlaySrc l0) (sn_tombstones (l_snap l0)) (sn_base (l_snap l0)) = ([(e_ID (demo_entry ''a'' ''x''), demo_entry ''a'' ''x'')], {})"
      by (simp add: l0 in_base_def)
    have "length (sg_entries seg) = 1" if "ob_seg b = Some seg" for seg
      using prepareOverlay_Inr(3) [OF Inr [unfolded prepareUpsert_def] m] that buildSegment_inv(2) [of demo_env l0 "sorted_by_id [demo_entry ''a'' ''x'']" seg]
      by (simp add: sorted_by_id_def)
    then show ?thesis by (auto simp: l l0 commitOverlayAt_def Let_def snap_small_def snap_seg_def split: seg_id.splits)
  qed
  ultimately show ?thesis using that by blast
qed

lemma demo_grown:
  obtains l where "grown demo_env demo_ops l" "snap_small (l_snap l)" "HasExactIndex l" "lc_Filterable (l_cfg l) = demo_fields"
proof -
  obtain cfg' an where r: "resolve_config demo_config = Inr (cfg', an)" and fls: "lc_Filterable cfg' = demo_fields"
    using demo_fields_resolved by blast
  obtain l where "grown demo_env demo_ops l" "snap_small (l_snap l)" "l_cfg l = cfg'" by (rule demo_grown_config [OF r])
  moreover have "mc_ExactCompanion (lc_Match cfg')"
    using r by (auto simp: resolve_config_def demo_config_def resolve_match_def Let_def split: sum.splits option.splits if_splits)
  ultimately show ?thesis using that fls by (simp add: HasExactIndex_def)
qed

text \<open>
  C3: An any-of lookup answers exactly. Take a list created by \<open>NewList\<close> and grown by any operations that do not
  import an index. Preparing a lookup of 1 to 64 terms succeeds (with a filter, when the filter compiles against the
  list's declarations), and executing it uncancelled returns, in ID order, the \<open>topK\<close> smallest IDs (all, when unlimited)
  among precisely the visible entries that have a key analyzing like one of the terms and pass the
  filter, each once, with score 100, its payload, and a key that analyzes like a term; or it reports the error of
  a matching visible entry with a malformed payload. It does not panic.
\<close>

theorem any_of_complete:
  assumes "env_ok E" "grown E ops l" "snap_small (l_snap l)" "HasExactIndex l"
    and "0 < length terms" "length terms \<le> MaxExactAnyOfTerms" "live_ctx cx"
  shows "(\<exists>p. PrepareExactAnyOf l terms opts = Inr p
        \<and> any_of_answer l terms (effectiveTopK l opts) None (fst (run_prepared F R srt cx p)))
    \<and> (\<forall>f cf. compileTypedFilter (lc_Filterable (l_cfg l)) f = Inr cf \<longrightarrow>
        (\<exists>p. PrepareTypedFilteredExactAnyOf l terms opts f = Inr p
          \<and> any_of_answer l terms (effectiveTopK l opts) cf (fst (run_prepared F R srt cx p))))"
proof -
  note l = grown_inv(1) [OF assms(2)] own_built_true(1) [OF assms(1) grown_inv(2) [OF assms(2)] assms(3)]
  obtain ts where ts: "anyOfTerms l terms = Inr ts" using assms(4-6) by (simp add: anyOfTerms_def)
  have "\<exists>p. prepare_any_of l ts opts cf = Inr p
      \<and> any_of_answer l terms (effectiveTopK l opts) cf (fst (run_prepared F R srt cx p))" for cf
  proof -
    obtain p where "prepare_any_of l ts opts cf = Inr p" "run_prepared F R srt cx p = anyOfSnap cx l (l_snap l) ts opts cf"
      by (rule prepared_any_of [OF l ts assms(7)])
    then show ?thesis using any_of_result [OF l ts] assms(7) by (auto simp: live_ctx_def)
  qed
  then show ?thesis by (simp add: PrepareExactAnyOf_def PrepareTypedFilteredExactAnyOf_def ts)
qed

theorem any_of_complete_witness:
  "\<exists>l p. grown demo_env demo_ops l \<and> PrepareExactAnyOf l [''x'', ''y''] \<lparr>qo_Threshold = Fin 0, qo_TopK = 1\<rparr> = Inr p
    \<and> any_of_answer l [''x'', ''y''] 1 None (fst (run_prepared (exact_arith (\<lambda>x. x)) set_bitmap (sort_key gi_card) uncanceled p))"
proof -
  obtain l where l: "grown demo_env demo_ops l" "snap_small (l_snap l)" "HasExactIndex l" by (rule demo_grown) blast
  show ?thesis
    using any_of_complete [OF demo_env_ok l, of "[''x'', ''y'']" uncanceled "\<lparr>qo_Threshold = Fin 0, qo_TopK = 1\<rparr>" "exact_arith (\<lambda>x. x)" set_bitmap "sort_key gi_card"] l(1)
    by (auto simp: MaxExactAnyOfTerms_def live_ctx_def uncanceled_def effectiveTopK_def)
qed

text \<open>
  C19: The admission charge of an any-of lookup covers it. For such a list, the charge computed when the lookup is
  prepared is at least the fixed part, plus 512 bytes for every candidate returned, plus the per-ordinal filter
  charge (paths, alternatives, scalar bytes) for every payload the execution evaluated.
\<close>

theorem any_of_charge_covers:
  assumes "env_ok E" "grown E ops l" "snap_small (l_snap l)" "live_ctx cx"
    and "PrepareTypedFilteredExactAnyOf l terms opts f = Inr p" "run_prepared F R srt cx p = (res, fs)"
  shows "scratchQueryFixedBytes + anyOfPerHitBytes * int (returned res) + eval_charge (pq_cf p) * int (fst_Evaluated fs) \<le> pq_cost p"
proof -
  note l = grown_inv(1) [OF assms(2)] own_built_true(1) [OF assms(1) grown_inv(2) [OF assms(2)] assms(3)]
  obtain ts cf where ts: "anyOfTerms l terms = Inr ts" "prepare_any_of l ts opts cf = Inr p"
    using assms(5) by (auto simp: PrepareTypedFilteredExactAnyOf_def split: sum.splits)
  show ?thesis
    by (rule prepared_any_of [OF l ts(1) assms(4), where opts = opts and cf = cf and F = F and R = R and srt = srt]) (use ts(2) assms(6) in auto)
qed

theorem any_of_charge_covers_witness:
  "\<exists>l p res fs. grown demo_env demo_ops l \<and> PrepareTypedFilteredExactAnyOf l [''x''] \<lparr>qo_Threshold = Fin 0, qo_TopK = 1\<rparr> demo_filter = Inr p
    \<and> run_prepared (exact_arith (\<lambda>x. x)) set_bitmap (sort_key gi_card) uncanceled p = (res, fs) \<and> pq_cf p \<noteq> None
    \<and> scratchQueryFixedBytes + anyOfPerHitBytes * int (returned res) + eval_charge (pq_cf p) * int (fst_Evaluated fs) \<le> pq_cost p"
proof -
  let ?o = "\<lparr>qo_Threshold = Fin 0, qo_TopK = 1\<rparr>"
  obtain l where g: "grown demo_env demo_ops l" "snap_small (l_snap l)" "HasExactIndex l" "lc_Filterable (l_cfg l) = demo_fields" by (rule demo_grown)
  note l = grown_inv(1) [OF g(1)] own_built_true(1) [OF demo_env_ok grown_inv(2) [OF g(1)] g(2)]
  have cx: "live_ctx uncanceled" by (simp add: live_ctx_def uncanceled_def)
  obtain ts where ts: "anyOfTerms l [''x''] = Inr ts" using g(3) by (simp add: anyOfTerms_def MaxExactAnyOfTerms_def)
  obtain cf where cf: "compileTypedFilter (lc_Filterable (l_cfg l)) demo_filter = Inr (Some cf)" using demo_compile g(4) by auto
  obtain p where p: "prepare_any_of l ts ?o (Some cf) = Inr p" "pq_cf p = Some cf"
    by (rule prepared_any_of [OF l ts cx, where opts = ?o and cf = "Some cf"])
  have P: "PrepareTypedFilteredExactAnyOf l [''x''] ?o demo_filter = Inr p" by (simp add: PrepareTypedFilteredExactAnyOf_def ts cf p(1))
  obtain res fs where r: "run_prepared (exact_arith (\<lambda>x. x)) set_bitmap (sort_key gi_card) uncanceled p = (res, fs)" by force
  show ?thesis using any_of_charge_covers [OF demo_env_ok g(1,2) cx P r] g(1) P r p(2) by auto
qed

end
