(* ===== verification/Exact_Query.thy ===== *)
theory Exact_Query
  imports Any_Of
begin

text \<open>
  Exact-mode queries. A query walks the runs of its level (the analyzed query, then, under parent-domain
  fallback, its parent suffixes) in base and overlay, stops as soon as \<open>topK\<close> survivors are
  collected, and descends only when a level has none. On a list whose indexes were built from its entries
  the answer is the first admissible level with visible passing holders, and exactly as many of these as the
  limit allows.
\<close>

subsection \<open>Walking one run\<close>

definition out_of :: "rat \<Rightarrow> cand_meta \<Rightarrow> entry \<Rightarrow> candidate \<times> cand_meta" where
  "out_of score m e = (\<lparr>c_EntryID = e_ID e, c_Score = score, c_Key = '''', c_Payload = e_Payload e\<rparr>, m)"

definition err_ok :: "(scan_error \<Rightarrow> bool) \<Rightarrow> query_state \<Rightarrow> bool" where
  "err_ok bad st \<longleftrightarrow> (case q_err st of None \<Rightarrow> True | Some er \<Rightarrow> bad er)"

text \<open>The survivors of a run, in order, and the part of them a limit lets through.\<close>

definition survivors :: "string set \<Rightarrow> compiledFilter option \<Rightarrow> seg_id \<Rightarrow> 'b segment \<Rightarrow> rat \<Rightarrow> u32 list \<Rightarrow> (candidate \<times> cand_meta) list" where
  "survivors masked cf sid seg score ords = concat (map (\<lambda>ord. case seg_entry seg ord of
     None \<Rightarrow> [] | Some e \<Rightarrow> if e_ID e \<notin> masked \<and> passes cf e then [out_of score (sid, ord) e] else []) ords)"

definition room :: "int \<Rightarrow> 'a list \<Rightarrow> 'a list \<Rightarrow> 'a list" where
  "room topK out xs = (if topK > 0 then take (nat topK - length out) xs else xs)"

lemma room_append: "room topK (out @ room topK out xs) ys = drop (length (room topK out xs)) (room topK out (xs @ ys))"
  by (simp add: room_def min_def)

lemma room_room: "out @ room topK out xs @ room topK (out @ room topK out xs) ys = out @ room topK out (xs @ ys)"
  by (simp add: room_def min_def)

lemma add_hit_spec:
  assumes "seg_entry seg ord = Some e" "err_ok bad st"
    and "\<And>er. e_ID e \<notin> masked_ids s sid \<Longrightarrow> malformed cf e er \<Longrightarrow> bad er"
  obtains st1 where "add_hit s cf sid seg ord score False st = Some st1" "err_ok bad st1" "q_walked st1 = q_walked st"
    "q_out st1 = q_out st @ survivors (masked_ids s sid) cf sid seg score [ord]"
proof (cases "e_ID e \<in> masked_ids s sid")
  case True
  show ?thesis by (rule that [of st]) (use assms True in \<open>simp_all add: add_hit_def survivors_def\<close>)
next
  case False
  show ?thesis
  proof (cases cf)
    case None
    then show ?thesis using assms False
      by (intro that [of "st\<lparr>q_out := q_out st @ [out_of score (sid, ord) e]\<rparr>"])
        (simp_all add: add_hit_def survivors_def out_of_def passes_def err_ok_def)
  next
    case (Some f)
    show ?thesis
    proof (cases "cf_eval f (e_Payload e)")
      case (Inl er)
      then have "bad er" using assms(3) False Some by (simp add: malformed_def)
      then show ?thesis using assms False Some Inl that
        by (auto simp: add_hit_def survivors_def passes_def err_ok_def eval_payload_def Let_def split: option.splits)
    next
      case (Inr ok)
      then show ?thesis using assms False Some that
        by (auto simp: add_hit_def survivors_def passes_def err_ok_def eval_payload_def Let_def out_of_def)
    qed
  qed
qed

lemma survivors_Cons: "survivors masked cf sid seg score (ord # ords) =
    survivors masked cf sid seg score [ord] @ survivors masked cf sid seg score ords"
  by (simp add: survivors_def)

lemma survivors_single: "length (survivors masked cf sid seg score [ord]) \<le> 1"
  by (simp add: survivors_def split: option.splits)

lemma exact_run_spec:
  assumes "err_ok bad st" "\<not> q_full topK st"
    and "\<And>ord. ord \<in> set ords \<Longrightarrow> seg_entry seg ord \<noteq> None"
    and "\<And>ord e er. ord \<in> set ords \<Longrightarrow> seg_entry seg ord = Some e \<Longrightarrow> e_ID e \<notin> masked_ids s sid \<Longrightarrow> malformed cf e er \<Longrightarrow> bad er"
  shows "\<exists>st1. exact_run (\<lambda>_. False) s cf topK sid seg score ords st = Scanned st1 \<and> err_ok bad st1
    \<and> q_out st1 = q_out st @ room topK (q_out st) (survivors (masked_ids s sid) cf sid seg score ords)"
  using assms
proof (induction ords arbitrary: st)
  case Nil
  then show ?case by (simp add: survivors_def room_def)
next
  case (Cons ord ords)
  obtain e where e: "seg_entry seg ord = Some e" using Cons.prems(3) by auto
  let ?S = "survivors (masked_ids s sid) cf sid seg score"
  have w: "err_ok bad (st\<lparr>q_walked := Suc (q_walked st)\<rparr>)" using Cons.prems(1) by (simp add: err_ok_def)
  obtain st2 where st2: "add_hit s cf sid seg ord score False (st\<lparr>q_walked := Suc (q_walked st)\<rparr>) = Some st2" "err_ok bad st2"
    "q_out st2 = q_out st @ ?S [ord]"
  proof (rule add_hit_spec [OF e w, where score = score])
    show "bad er" if "e_ID e \<notin> masked_ids s sid" "malformed cf e er" for er using Cons.prems(4) [of ord e er] e that by simp
  qed (use that in simp)
  have r1: "room topK (q_out st) (?S [ord]) = ?S [ord]"
    using survivors_single [of "masked_ids s sid" cf sid seg score ord] Cons.prems(2) by (auto simp: room_def q_full_def)
  show ?case
  proof (cases "q_full topK st2")
    case True
    then have "room topK (q_out st @ ?S [ord]) (?S ords) = []" by (simp add: room_def q_full_def st2(3) nat_le_iff)
    then have "room topK (q_out st) (?S (ord # ords)) = ?S [ord]"
      using room_room [of "q_out st" topK "?S [ord]" "?S ords"] by (simp add: r1 survivors_Cons [of _ _ _ _ _ ord ords])
    then show ?thesis using True st2 by (auto simp: Let_def)
  next
    case False
    have "\<exists>st1. exact_run (\<lambda>_. False) s cf topK sid seg score ords st2 = Scanned st1 \<and> err_ok bad st1
        \<and> q_out st1 = q_out st2 @ room topK (q_out st2) (?S ords)"
    proof (rule Cons.IH [OF st2(2) False])
      show "bad er" if "o1 \<in> set ords" "seg_entry seg o1 = Some e1" "e_ID e1 \<notin> masked_ids s sid" "malformed cf e1 er" for o1 e1 er
        by (rule Cons.prems(4) [of o1 e1]) (use that in simp_all)
    qed (use Cons.prems(3) in simp)
    then obtain st1 where st1: "exact_run (\<lambda>_. False) s cf topK sid seg score ords st2 = Scanned st1" "err_ok bad st1"
      "q_out st1 = q_out st2 @ room topK (q_out st2) (?S ords)" by blast
    have "q_out st1 = q_out st @ room topK (q_out st) (?S (ord # ords))"
      using room_room [of "q_out st" topK "?S [ord]" "?S ords"] by (simp add: st1(3) st2(3) r1 survivors_Cons [of _ _ _ _ _ ord ords])
    then show ?thesis using False st2(1) st1 by (auto simp: Let_def)
  qed
qed

subsection \<open>One level\<close>

definition level_hits :: "'b klist \<Rightarrow> compiledFilter option \<Rightarrow> rat \<Rightarrow> string \<Rightarrow> (candidate \<times> cand_meta) list" where
  "level_hits l cf score lev = concat (map (\<lambda>sid. case snap_seg (l_snap l) sid of
     None \<Rightarrow> []
   | Some seg \<Rightarrow> (case sg_ex seg of
       None \<Rightarrow> []
     | Some ex \<Rightarrow> survivors (masked_ids (l_snap l) sid) cf sid seg score (the (exact_lookup ex lev)))) [InBase, InOverlay])"

definition level_bad :: "'b klist \<Rightarrow> compiledFilter option \<Rightarrow> string list \<Rightarrow> scan_error \<Rightarrow> bool" where
  "level_bad l cf levels er \<longleftrightarrow> (\<exists>lev \<in> set levels. \<exists>m e. live_at (l_snap l) m e \<and> holds l lev e \<and> malformed cf e er)"

lemma exact_seg_spec:
  assumes l: "list_inv l" "index_true l" "HasExactIndex l" and st: "err_ok bad st"
    and b: "\<forall>m e er. live_at (l_snap l) m e \<longrightarrow> holds l lev e \<longrightarrow> malformed cf e er \<longrightarrow> bad er"
  shows "\<exists>st1. exact_seg (\<lambda>_. False) (l_snap l) cf topK sid score lev st = Scanned st1 \<and> err_ok bad st1
    \<and> q_out st1 = q_out st @ room topK (q_out st) (case snap_seg (l_snap l) sid of None \<Rightarrow> []
      | Some seg \<Rightarrow> (case sg_ex seg of None \<Rightarrow> []
          | Some ex \<Rightarrow> survivors (masked_ids (l_snap l) sid) cf sid seg score (the (exact_lookup ex lev))))"
proof (cases "snap_seg (l_snap l) sid")
  case None
  then show ?thesis using st by (simp add: exact_seg_def room_def)
next
  case (Some seg)
  have sm: "length (sg_entries seg) < 2 ^ 32" using l(2) Some by (auto simp: index_true_def snap_small_def)
  have "sg_ex seg \<noteq> None" "\<forall>ex. sg_ex seg = Some ex \<longrightarrow> ex_true l seg ex" using l(2,3) Some by (simp_all add: index_true_def)
  then obtain ex where ex: "sg_ex seg = Some ex" "ex_true l seg ex" by auto
  obtain run where run: "exact_lookup ex lev = Some run" "\<And>ord. ord \<in> set run \<longleftrightarrow> (\<exists>e. seg_entry seg ord = Some e \<and> holds l lev e)"
    by (rule ex_true_lookup [OF ex(2) sm, of lev], rule that, assumption+)
  show ?thesis
  proof (cases "q_full topK st")
    case True
    then show ?thesis using st by (auto simp: exact_seg_def Some ex(1) room_def q_full_def)
  next
    case False
    have "\<exists>st1. exact_run (\<lambda>_. False) (l_snap l) cf topK sid seg score run st = Scanned st1 \<and> err_ok bad st1
        \<and> q_out st1 = q_out st @ room topK (q_out st) (survivors (masked_ids (l_snap l) sid) cf sid seg score run)"
    proof (rule exact_run_spec [OF st False])
      show "seg_entry seg ord \<noteq> None" if "ord \<in> set run" for ord using run(2) that by auto
      show "bad er" if "ord \<in> set run" "seg_entry seg ord = Some e" "e_ID e \<notin> masked_ids (l_snap l) sid" "malformed cf e er" for ord e er
        using that run(2) [of ord] Some by (intro b [rule_format, of "(sid, ord)" e]) (auto simp: live_at_def)
    qed
    then show ?thesis using False by (simp add: exact_seg_def Some ex(1) run(1))
  qed
qed

lemma level_spec:
  assumes l: "list_inv l" "index_true l" "HasExactIndex l" and st: "err_ok bad st"
    and b: "\<forall>m e er. live_at (l_snap l) m e \<longrightarrow> holds l lev e \<longrightarrow> malformed cf e er \<longrightarrow> bad er"
  shows "\<exists>st1 st2. exact_seg (\<lambda>_. False) (l_snap l) cf topK InBase score lev st = Scanned st1
    \<and> exact_seg (\<lambda>_. False) (l_snap l) cf topK InOverlay score lev st1 = Scanned st2 \<and> err_ok bad st2
    \<and> q_out st2 = q_out st @ room topK (q_out st) (level_hits l cf score lev)"
proof -
  obtain st1 where 1: "exact_seg (\<lambda>_. False) (l_snap l) cf topK InBase score lev st = Scanned st1" "err_ok bad st1"
    "q_out st1 = q_out st @ room topK (q_out st) (case snap_seg (l_snap l) InBase of None \<Rightarrow> []
      | Some seg \<Rightarrow> (case sg_ex seg of None \<Rightarrow> []
          | Some ex \<Rightarrow> survivors (masked_ids (l_snap l) InBase) cf InBase seg score (the (exact_lookup ex lev))))"
    using exact_seg_spec [OF l st b, where topK = topK and sid = InBase and score = score] by blast
  obtain st2 where 2: "exact_seg (\<lambda>_. False) (l_snap l) cf topK InOverlay score lev st1 = Scanned st2" "err_ok bad st2"
    "q_out st2 = q_out st1 @ room topK (q_out st1) (case snap_seg (l_snap l) InOverlay of None \<Rightarrow> []
      | Some seg \<Rightarrow> (case sg_ex seg of None \<Rightarrow> []
          | Some ex \<Rightarrow> survivors (masked_ids (l_snap l) InOverlay) cf InOverlay seg score (the (exact_lookup ex lev))))"
    using exact_seg_spec [OF l 1(2) b, where topK = topK and sid = InOverlay and score = score] by blast
  have "q_out st2 = q_out st @ room topK (q_out st) (level_hits l cf score lev)"
    unfolding level_hits_def 2(3) 1(3) append_assoc room_room by simp
  then show ?thesis using 1(1) 2(1,2) by blast
qed

lemma survivors_mem:
  "x \<in> set (survivors masked cf sid seg score ords) \<longleftrightarrow>
     (\<exists>ord e. ord \<in> set ords \<and> seg_entry seg ord = Some e \<and> e_ID e \<notin> masked \<and> passes cf e \<and> x = out_of score (sid, ord) e)"
proof
  assume "x \<in> set (survivors masked cf sid seg score ords)"
  then obtain ord where o: "ord \<in> set ords" "x \<in> set (case seg_entry seg ord of None \<Rightarrow> []
      | Some e \<Rightarrow> if e_ID e \<notin> masked \<and> passes cf e then [out_of score (sid, ord) e] else [])" by (auto simp: survivors_def)
  then show "\<exists>ord e. ord \<in> set ords \<and> seg_entry seg ord = Some e \<and> e_ID e \<notin> masked \<and> passes cf e \<and> x = out_of score (sid, ord) e"
    by (cases "seg_entry seg ord") (auto split: if_splits intro: exI [of _ ord])
next
  assume "\<exists>ord e. ord \<in> set ords \<and> seg_entry seg ord = Some e \<and> e_ID e \<notin> masked \<and> passes cf e \<and> x = out_of score (sid, ord) e"
  then obtain ord e where o: "ord \<in> set ords" "seg_entry seg ord = Some e" "e_ID e \<notin> masked" "passes cf e" "x = out_of score (sid, ord) e" by blast
  then show "x \<in> set (survivors masked cf sid seg score ords)"
    unfolding survivors_def set_concat set_map image_image by (intro UN_I [where a = ord]) simp_all
qed

lemma survivors_distinct:
  "distinct ords \<Longrightarrow> distinct (map snd (survivors masked cf sid seg score ords)) \<and> snd ` set (survivors masked cf sid seg score ords) \<subseteq> Pair sid ` set ords"
proof (induction ords)
  case (Cons ord ords)
  have "snd ` set (survivors masked cf sid seg score [ord]) \<subseteq> {(sid, ord)}"
    "distinct (map snd (survivors masked cf sid seg score [ord]))"
    by (auto simp: survivors_def out_of_def split: option.splits)
  then show ?case using Cons unfolding survivors_Cons [of _ _ _ _ _ ord ords] by auto
qed (simp add: survivors_def)

text \<open>The hits of a level are its visible passing holders, each once.\<close>

lemma level_hits_mem:
  assumes l: "list_inv l" "index_true l" "HasExactIndex l"
  shows "x \<in> set (level_hits l cf score lev) \<longleftrightarrow> (\<exists>m e. live_at (l_snap l) m e \<and> holds l lev e \<and> passes cf e \<and> x = out_of score m e)"
    "distinct (map snd (level_hits l cf score lev))"
proof -
  let ?H = "\<lambda>sid. case snap_seg (l_snap l) sid of None \<Rightarrow> [] | Some seg \<Rightarrow> (case sg_ex seg of None \<Rightarrow> []
     | Some ex \<Rightarrow> survivors (masked_ids (l_snap l) sid) cf sid seg score (the (exact_lookup ex lev)))"
  have H: "(x \<in> set (?H sid) \<longleftrightarrow> (\<exists>ord e. live_at (l_snap l) (sid, ord) e \<and> holds l lev e \<and> passes cf e \<and> x = out_of score (sid, ord) e))
    \<and> distinct (map snd (?H sid)) \<and> fst ` snd ` set (?H sid) \<subseteq> {sid}" for sid x
  proof (cases "snap_seg (l_snap l) sid")
    case None
    then show ?thesis by (simp add: live_at_def)
  next
    case (Some seg)
    have sm: "length (sg_entries seg) < 2 ^ 32" using l(2) Some by (auto simp: index_true_def snap_small_def)
    have "sg_ex seg \<noteq> None" "\<forall>ex. sg_ex seg = Some ex \<longrightarrow> ex_true l seg ex" using l(2,3) Some by (simp_all add: index_true_def)
    then obtain ex where ex: "sg_ex seg = Some ex" "ex_true l seg ex" by auto
    obtain run where run: "exact_lookup ex lev = Some run" "distinct run" "\<And>ord. ord \<in> set run \<longleftrightarrow> (\<exists>e. seg_entry seg ord = Some e \<and> holds l lev e)"
      by (rule ex_true_lookup [OF ex(2) sm, of lev], rule that, assumption+)
    have e: "?H sid = survivors (masked_ids (l_snap l) sid) cf sid seg score run" by (simp add: Some ex run)
    have "x \<in> set (?H sid) \<longleftrightarrow> (\<exists>ord e. live_at (l_snap l) (sid, ord) e \<and> holds l lev e \<and> passes cf e \<and> x = out_of score (sid, ord) e)"
      unfolding e survivors_mem run(3) live_at_def by (simp add: Some) (metis option.inject)
    moreover have "distinct (map snd (?H sid))" "fst ` snd ` set (?H sid) \<subseteq> {sid}"
      unfolding e using survivors_distinct [OF run(2), of "masked_ids (l_snap l) sid" cf sid seg score] by auto
    ultimately show ?thesis by blast
  qed
  have s: "level_hits l cf score lev = ?H InBase @ ?H InOverlay" by (simp add: level_hits_def)
  have "x \<in> set (level_hits l cf score lev) \<longleftrightarrow> x \<in> set (?H InBase) \<or> x \<in> set (?H InOverlay)" unfolding s by simp
  also have "\<dots> \<longleftrightarrow> (\<exists>sid ord e. live_at (l_snap l) (sid, ord) e \<and> holds l lev e \<and> passes cf e \<and> x = out_of score (sid, ord) e)"
  proof -
    have "(\<exists>sid. P sid) \<longleftrightarrow> P InBase \<or> P InOverlay" for P by (metis (full_types) seg_id.exhaust)
    then show ?thesis using H [of x InBase] H [of x InOverlay] by simp
  qed
  finally show "x \<in> set (level_hits l cf score lev) \<longleftrightarrow> (\<exists>m e. live_at (l_snap l) m e \<and> holds l lev e \<and> passes cf e \<and> x = out_of score m e)"
    by simp
  have f: "fst p = sid" if "p \<in> snd ` set (?H sid)" for sid p
    using H [of undefined sid] that by blast
  have d: "distinct (map snd (?H sid))" for sid using H [of undefined sid] by blast
  have "snd ` set (?H InBase) \<inter> snd ` set (?H InOverlay) = {}"
  proof (rule ccontr)
    assume "snd ` set (?H InBase) \<inter> snd ` set (?H InOverlay) \<noteq> {}"
    then obtain p where "p \<in> snd ` set (?H InBase)" "p \<in> snd ` set (?H InOverlay)" by blast
    from f [OF this(1)] f [OF this(2)] show False by simp
  qed
  then show "distinct (map snd (level_hits l cf score lev))"
    unfolding s map_append distinct_append set_map using d by blast
qed

subsection \<open>The descent\<close>

text \<open>The levels a threshold admits, and the IDs that answer at a level.\<close>

definition admissible :: "float_model \<Rightarrow> f64 \<Rightarrow> string \<Rightarrow> string \<Rightarrow> bool" where
  "admissible F thr aq lev \<longleftrightarrow> \<not> f_greater (f_scale (fl_r64 F) thr 100) (level_score aq lev)"

definition level_ids :: "'b klist \<Rightarrow> compiledFilter option \<Rightarrow> string \<Rightarrow> string set" where
  "level_ids l cf lev = {i. \<exists>e. view l i = Some e \<and> holds l lev e \<and> passes cf e}"

lemma level_hits_ids:
  assumes l: "list_inv l" "index_true l" "HasExactIndex l"
  shows "(\<lambda>x. c_EntryID (fst x)) ` set (level_hits l cf score lev) = level_ids l cf lev"
    "distinct (map (\<lambda>x. c_EntryID (fst x)) (level_hits l cf score lev))"
proof -
  note mem = level_hits_mem [OF l, where cf = cf and score = score and lev = lev]
  have sm: "snap_small (l_snap l)" using l(2) by (simp add: index_true_def)
  show "(\<lambda>x. c_EntryID (fst x)) ` set (level_hits l cf score lev) = level_ids l cf lev"
  proof (intro set_eqI iffI)
    fix i assume "i \<in> (\<lambda>x. c_EntryID (fst x)) ` set (level_hits l cf score lev)"
    then obtain m e where "live_at (l_snap l) m e" "holds l lev e" "passes cf e" "i = e_ID e"
      unfolding image_iff Bex_def mem(1) by (auto simp: out_of_def)
    then show "i \<in> level_ids l cf lev" unfolding level_ids_def mem_Collect_eq live_view_iff [OF l(1) sm] by blast
  next
    fix i assume "i \<in> level_ids l cf lev"
    then obtain m e where "live_at (l_snap l) m e" "holds l lev e" "passes cf e" "i = e_ID e"
      unfolding level_ids_def mem_Collect_eq live_view_iff [OF l(1) sm] by blast
    then have "out_of score m e \<in> set (level_hits l cf score lev)" "i = c_EntryID (fst (out_of score m e))"
      unfolding mem(1) by (blast, simp add: out_of_def)
    then show "i \<in> (\<lambda>x. c_EntryID (fst x)) ` set (level_hits l cf score lev)" by blast
  qed
  have "inj_on (\<lambda>x. c_EntryID (fst x)) (set (level_hits l cf score lev))"
  proof (rule inj_onI)
    fix x y assume "x \<in> set (level_hits l cf score lev)" "y \<in> set (level_hits l cf score lev)" and eq: "c_EntryID (fst x) = c_EntryID (fst y)"
    then obtain m1 e1 m2 e2 where "live_at (l_snap l) m1 e1" "x = out_of score m1 e1" "live_at (l_snap l) m2 e2" "y = out_of score m2 e2"
      unfolding mem(1) by blast
    then show "x = y" using eq live_unique [OF l(1), of m1 e1 m2 e2] by (simp add: out_of_def)
  qed
  moreover have "distinct (level_hits l cf score lev)" using mem(2) by (simp add: distinct_map)
  ultimately show "distinct (map (\<lambda>x. c_EntryID (fst x)) (level_hits l cf score lev))" by (simp add: distinct_map)
qed

lemma exact_search_spec:
  assumes l: "list_inv l" "index_true l" "HasExactIndex l" and st: "err_ok bad st" "q_out st = []"
    and b: "\<forall>lev \<in> set levels. \<forall>m e er. live_at (l_snap l) m e \<longrightarrow> holds l lev e \<longrightarrow> malformed cf e er \<longrightarrow> bad er"
  shows "\<exists>st1 lev. exact_search F (\<lambda>_. False) (l_snap l) cf thr topK aq levels st = Scanned (st1, lev) \<and> err_ok bad st1
    \<and> (case find (\<lambda>lev. admissible F thr aq lev \<and> level_ids l cf lev \<noteq> {}) levels of
         None \<Rightarrow> q_out st1 = []
       | Some lv \<Rightarrow> lev = lv \<and> q_out st1 = room topK [] (level_hits l cf (level_score aq lv) lv))"
  using st b
proof (induction levels arbitrary: st)
  case (Cons lev levels)
  let ?sc = "level_score aq lev"
  have ids: "level_ids l cf lev = {} \<longleftrightarrow> level_hits l cf ?sc lev = []"
    using level_hits_ids(1) [OF l, of cf ?sc lev] by (metis image_is_empty set_empty)
  show ?case
  proof (cases "admissible F thr aq lev")
    case False
    then show ?thesis using Cons.IH [OF Cons.prems(1,2)] Cons.prems(3) by (auto simp: admissible_def Let_def)
  next
    case True
    obtain st1 st2 where s: "exact_seg (\<lambda>_. False) (l_snap l) cf topK InBase ?sc lev st = Scanned st1"
      "exact_seg (\<lambda>_. False) (l_snap l) cf topK InOverlay ?sc lev st1 = Scanned st2" "err_ok bad st2"
      "q_out st2 = room topK [] (level_hits l cf ?sc lev)"
    proof -
      have "\<forall>m e er. live_at (l_snap l) m e \<longrightarrow> holds l lev e \<longrightarrow> malformed cf e er \<longrightarrow> bad er" using Cons.prems(3) by simp
      from level_spec [OF l Cons.prems(1) this, of topK ?sc] obtain s1 s2 where
        "exact_seg (\<lambda>_. False) (l_snap l) cf topK InBase ?sc lev st = Scanned s1"
        "exact_seg (\<lambda>_. False) (l_snap l) cf topK InOverlay ?sc lev s1 = Scanned s2" "err_ok bad s2"
        "q_out s2 = q_out st @ room topK (q_out st) (level_hits l cf ?sc lev)" by blast
      then show ?thesis by (intro that [of s1 s2]) (simp_all add: Cons.prems(2))
    qed
    have out: "q_out st2 = [] \<longleftrightarrow> level_ids l cf lev = {}" unfolding s(4) ids by (simp add: room_def)
    have step: "exact_search F (\<lambda>_. False) (l_snap l) cf thr topK aq (lev # levels) st =
        (if q_out st2 \<noteq> [] then Scanned (st2, lev) else exact_search F (\<lambda>_. False) (l_snap l) cf thr topK aq levels st2)"
      using True s(1,2) by (simp add: admissible_def Let_def)
    show ?thesis
    proof (cases "q_out st2 = []")
      case e: True
      have "\<exists>st1 lev. exact_search F (\<lambda>_. False) (l_snap l) cf thr topK aq levels st2 = Scanned (st1, lev) \<and> err_ok bad st1
        \<and> (case find (\<lambda>lev. admissible F thr aq lev \<and> level_ids l cf lev \<noteq> {}) levels of
             None \<Rightarrow> q_out st1 = []
           | Some lv \<Rightarrow> lev = lv \<and> q_out st1 = room topK [] (level_hits l cf (level_score aq lv) lv))"
        by (rule Cons.IH [OF s(3) e]) (use Cons.prems(3) in simp)
      then show ?thesis unfolding step using e out by simp
    next
      case False
      then show ?thesis unfolding step using out s(3,4) True by auto
    qed
  qed
qed simp

subsection \<open>Attribution and the whole query\<close>

lemma best_key_max:
  "best_key score ks best bs = best \<and> (\<forall>k \<in> set ks. score k \<le> bs)
   \<or> best_key score ks best bs \<in> set ks \<and> bs < score (best_key score ks best bs) \<and> (\<forall>k \<in> set ks. score k \<le> score (best_key score ks best bs))"
proof (induction ks arbitrary: best bs)
  case (Cons k ks)
  show ?case
  proof (cases "bs < score k")
    case True
    with Cons.IH [of k "score k"] show ?thesis by (elim disjE conjE) auto
  next
    case False
    with Cons.IH [of best bs] show ?thesis by (elim disjE conjE) (auto simp: not_less)
  qed
qed simp

lemma exact_attributed:
  assumes m: "mc_Mode (lc_Match (l_cfg l)) = ''exact''" and h: "holds l lev e"
  obtains k where "attribute_key F l qg lev e c = c\<lparr>c_Key := k\<rparr>" "k \<in> set (e_Keys e)" "l_norm l k = lev"
proof (cases "e_Keys e")
  case Nil
  then show ?thesis using h by (simp add: holds_def analyzed_keys_def)
next
  case k: (Cons k ks)
  obtain k0 where k0: "k0 \<in> set (e_Keys e)" "l_norm l k0 = lev" using h by (auto simp: holds_def analyzed_keys_def)
  show ?thesis
  proof (cases ks)
    case Nil
    then show ?thesis using that [of k] k k0 by (simp add: attribute_key_def)
  next
    case (Cons k1 ks1)
    let ?b = "best_key (key_score F l qg lev) (e_Keys e) '''' (- 1)"
    have sc: "key_score F l qg lev x = (if l_norm l x = lev then 1 else 0)" for x using m by (simp add: key_score_def Let_def)
    have "\<not> (\<forall>k \<in> set (e_Keys e). key_score F l qg lev k \<le> - 1)" using k0(1) by (auto simp: sc intro!: bexI [of _ k0])
    then have "?b \<in> set (e_Keys e)" "\<forall>k \<in> set (e_Keys e). key_score F l qg lev k \<le> key_score F l qg lev ?b"
      using best_key_max [of "key_score F l qg lev" "e_Keys e" "''''" "- 1"] by blast+
    moreover from this(2) have "l_norm l ?b = lev" using k0 by (auto simp: sc split: if_splits)
    ultimately show ?thesis using that [of ?b] by (simp add: attribute_key_def k Cons)
  qed
qed

lemma exact_attribute_all:
  assumes m: "mc_Mode (lc_Match (l_cfg l)) = ''exact''" and l: "list_inv l" "snap_small (l_snap l)"
    and o: "\<forall>x \<in> set out. \<exists>m e. live_at (l_snap l) m e \<and> holds l lev e \<and> x = out_of score m e"
  shows "\<exists>cs. attribute_all F l (l_snap l) qg lev out = Some cs \<and> map c_EntryID cs = map (\<lambda>x. c_EntryID (fst x)) out
    \<and> (\<forall>c \<in> set cs. c_Score c = score \<and> (\<exists>e. view l (c_EntryID c) = Some e \<and> c_Payload c = e_Payload e
        \<and> c_Key c \<in> set (e_Keys e) \<and> l_norm l (c_Key c) = lev))"
  using o
proof (induction out)
  case (Cons x out)
  obtain cs where cs: "attribute_all F l (l_snap l) qg lev out = Some cs" "map c_EntryID cs = map (\<lambda>x. c_EntryID (fst x)) out"
    "\<forall>c \<in> set cs. c_Score c = score \<and> (\<exists>e. view l (c_EntryID c) = Some e \<and> c_Payload c = e_Payload e
        \<and> c_Key c \<in> set (e_Keys e) \<and> l_norm l (c_Key c) = lev)"
    using Cons.IH Cons.prems by (meson list.set_intros(2))
  obtain m e where e: "live_at (l_snap l) m e" "holds l lev e" "x = out_of score m e" using Cons.prems by (meson list.set_intros(1))
  obtain k where k: "attribute_key F l qg lev e (fst x) = (fst x)\<lparr>c_Key := k\<rparr>" "k \<in> set (e_Keys e)" "l_norm l k = lev"
    by (rule exact_attributed [OF assms(1) e(2)])
  have v: "view l (e_ID e) = Some e" using live_view_iff [OF l, of "e_ID e" e] e(1) by blast
  have "attribute_all F l (l_snap l) qg lev (x # out) = Some ((fst x)\<lparr>c_Key := k\<rparr> # cs)"
    using attributed_live [OF l(1) e(1)] cs(1) k(1) by (simp add: e(3) out_of_def)
  then show ?case using cs(2,3) k(2,3) v by (intro exI [of _ "(fst x)\<lparr>c_Key := k\<rparr> # cs"]) (simp add: e(3) out_of_def)
qed simp

text \<open>What an exact query answers, for the levels it may probe.\<close>

definition exact_answer :: "float_model \<Rightarrow> 'b klist \<Rightarrow> f64 \<Rightarrow> int \<Rightarrow> compiledFilter option \<Rightarrow> string \<Rightarrow> string list \<Rightarrow> (candidate list) qresult \<Rightarrow> bool" where
  "exact_answer F l thr topK cf aq levels res \<longleftrightarrow> (case res of
      QPanic \<Rightarrow> False
    | QFail er \<Rightarrow> \<exists>lev \<in> set levels. \<exists>i e. view l i = Some e \<and> holds l lev e \<and> malformed cf e er
    | QOk cs \<Rightarrow> (case find (\<lambda>lev. admissible F thr aq lev \<and> level_ids l cf lev \<noteq> {}) levels of
        None \<Rightarrow> cs = []
      | Some lev \<Rightarrow>
          sorted_wrt (<) (map c_EntryID cs) \<and> set (map c_EntryID cs) \<subseteq> level_ids l cf lev
          \<and> length cs = (if topK > 0 then min (nat topK) (card (level_ids l cf lev)) else card (level_ids l cf lev))
          \<and> (\<forall>c \<in> set cs. c_Score c = level_score aq lev \<and> (\<exists>e. view l (c_EntryID c) = Some e \<and> c_Payload c = e_Payload e
                \<and> c_Key c \<in> set (e_Keys e) \<and> l_norm l (c_Key c) = lev))))"

lemma sortCandidates_same:
  assumes "\<forall>x \<in> set out. c_Score (fst x) = score" "distinct (map (\<lambda>x. c_EntryID (fst x)) out)"
  shows "sorted_wrt (<) (map (\<lambda>x. c_EntryID (fst x)) (sortCandidates out))" "mset (sortCandidates out) = mset out"
proof -
  show m: "mset (sortCandidates out) = mset out" by (simp add: sortCandidates_def)
  have "sorted (map (\<lambda>(c, m). (- c_Score c, c_EntryID c)) (sortCandidates out))" unfolding sortCandidates_def by (rule sorted_sort_key)
  moreover have "map (\<lambda>(c, m). (- c_Score c, c_EntryID c)) (sortCandidates out) = map (Pair (- score)) (map (\<lambda>x. c_EntryID (fst x)) (sortCandidates out))"
    using assms(1) by (auto simp: sortCandidates_def)
  ultimately have "sorted (map (\<lambda>x. c_EntryID (fst x)) (sortCandidates out))" by (simp add: sorted_map)
  moreover have "distinct (map (\<lambda>x. c_EntryID (fst x)) (sortCandidates out))"
    using assms(2) m by (metis mset_eq_imp_distinct_iff mset_map)
  ultimately show "sorted_wrt (<) (map (\<lambda>x. c_EntryID (fst x)) (sortCandidates out))" by (simp add: strict_sorted_iff)
qed

lemma exact_result:
  assumes l: "list_inv l" "index_true l" and m: "mc_Mode (lc_Match (l_cfg l)) = ''exact''"
    and c: "live_ctx cx" and q: "l_norm l q \<noteq> ''''"
  shows "exact_answer F l (effectiveThreshold l opts) (effectiveTopK l opts) cf (l_norm l q)
    (exactLevels (l_norm l q) (mc_Fallback (lc_Match (l_cfg l)) = ''parent_domain'')) (fst (querySnap F R srt cx l (l_snap l) q opts cf))"
proof -
  let ?aq = "l_norm l q" and ?k = "effectiveTopK l opts" and ?thr = "effectiveThreshold l opts"
  let ?L = "exactLevels ?aq (mc_Fallback (lc_Match (l_cfg l)) = ''parent_domain'')"
  have h: "HasExactIndex l" using m by (simp add: HasExactIndex_def)
  have sm: "snap_small (l_snap l)" using l(2) by (simp add: index_true_def)
  let ?st0 = "\<lparr>q_out = [], q_err = None, q_stats = no_stats, q_walked = 0\<rparr>"
  let ?F = "find (\<lambda>lev. admissible F ?thr ?aq lev \<and> level_ids l cf lev \<noteq> {}) ?L"
  obtain st lev where s: "exact_search F (\<lambda>_. False) (l_snap l) cf ?thr ?k ?aq ?L ?st0 = Scanned (st, lev)" "err_ok (level_bad l cf ?L) st"
    "case ?F of None \<Rightarrow> q_out st = [] | Some lv \<Rightarrow> lev = lv \<and> q_out st = room ?k [] (level_hits l cf (level_score ?aq lv) lv)"
    using exact_search_spec [OF l h, of "level_bad l cf ?L" ?st0 ?L cf F ?thr ?k ?aq] by (auto simp: err_ok_def level_bad_def)
  have cx: "cx_start cx = False" "cx_end cx = False" "cx_walk cx = (\<lambda>_. False)" using c by (simp_all add: live_ctx_def)
  define out where "out = sortCandidates (q_out st)"
  have fit: "\<not> (?k > 0 \<and> int (length out) > ?k)"
    using s(3) by (auto simp: out_def sortCandidates_def room_def split: option.splits)
  have run: "querySnap F R srt cx l (l_snap l) q opts cf = (case q_err st of Some e \<Rightarrow> (QFail e, q_stats st)
      | None \<Rightarrow> (case attributeKeys F l (l_snap l) ?aq lev out of None \<Rightarrow> (QPanic, no_stats) | Some cs \<Rightarrow> (QOk cs, q_stats st)))"
    using q fit by (cases "q_err st") (auto simp: querySnap_def query_collect_def m cx s(1) Let_def out_def)
  show ?thesis
  proof (cases "q_err st")
    case (Some er)
    then have "level_bad l cf ?L er" using s(2) by (simp add: err_ok_def)
    then have "\<exists>lev \<in> set ?L. \<exists>i e. view l i = Some e \<and> holds l lev e \<and> malformed cf e er"
      unfolding level_bad_def live_view_iff [OF l(1) sm] by blast
    then show ?thesis unfolding exact_answer_def run using Some by simp
  next
    case err: None
    show ?thesis
    proof (cases ?F)
      case None
      then have "out = []" using s(3) by (simp add: out_def sortCandidates_def)
      then show ?thesis unfolding exact_answer_def run using None err by (simp add: attributeKeys_def Let_def)
    next
      case (Some lv)
      define H where "H = level_hits l cf (level_score ?aq lv) lv"
      have lev: "lev = lv" "q_out st = room ?k [] H" using s(3) Some by (simp_all add: H_def)
      have sub: "set (q_out st) \<subseteq> set H" "\<exists>n. q_out st = take n H" by (auto simp: lev(2) room_def dest: in_set_takeD intro: exI [of _ "length H"])
      note ids = level_hits_ids [OF l h, of cf "level_score ?aq lv" lv, folded H_def]
      have H: "\<exists>m e. live_at (l_snap l) m e \<and> holds l lv e \<and> passes cf e \<and> x = out_of (level_score ?aq lv) m e" if "x \<in> set H" for x
        using that unfolding H_def level_hits_mem(1) [OF l h] .
      have sc: "\<forall>x \<in> set (q_out st). c_Score (fst x) = level_score ?aq lv" using sub(1) H by (fastforce simp: out_of_def)
      have d: "distinct (map (\<lambda>x. c_EntryID (fst x)) (q_out st))" using ids(2) sub(2) by (metis distinct_take take_map)
      note srt = sortCandidates_same [OF sc d, folded out_def]
      have so: "set out = set (q_out st)" using srt(2) by (metis set_mset_mset)
      obtain cs where cs: "attributeKeys F l (l_snap l) ?aq lv out = Some cs" "map c_EntryID cs = map (\<lambda>x. c_EntryID (fst x)) out"
        "\<forall>c \<in> set cs. c_Score c = level_score ?aq lv \<and> (\<exists>e. view l (c_EntryID c) = Some e \<and> c_Payload c = e_Payload e
          \<and> c_Key c \<in> set (e_Keys e) \<and> l_norm l (c_Key c) = lv)"
      proof -
        have "\<forall>x \<in> set out. \<exists>m e. live_at (l_snap l) m e \<and> holds l lv e \<and> x = out_of (level_score ?aq lv) m e" using H sub(1) unfolding so by blast
        from exact_attribute_all [OF m l(1) sm this] show ?thesis using that unfolding attributeKeys_def Let_def by blast
      qed
      have card: "card (level_ids l cf lv) = length H" using ids distinct_card [OF ids(2)] by simp
      have "length cs = length (q_out st)" using cs(2) srt(2) by (metis length_map mset_eq_length)
      also have "\<dots> = (if ?k > 0 then min (nat ?k) (card (level_ids l cf lv)) else card (level_ids l cf lv))"
        unfolding card lev(2) by (simp add: room_def min.commute)
      finally have n: "length cs = (if ?k > 0 then min (nat ?k) (card (level_ids l cf lv)) else card (level_ids l cf lv))" .
      have "set (map c_EntryID cs) \<subseteq> level_ids l cf lv" unfolding cs(2) using ids(1) sub(1) so by auto
      then show ?thesis unfolding exact_answer_def run using Some err cs(1,3) srt(1) n by (simp add: lev(1) cs(2) [symmetric] del: set_map)
    qed
  qed
qed

subsection \<open>Properties\<close>


definition demo_exact_config :: list_config where
  "demo_exact_config = demo_config\<lparr>lc_Match := (lc_Match demo_config)\<lparr>mc_Mode := ''exact'', mc_ExactCompanion := False\<rparr>\<rparr>"

lemma demo_exact_resolves:
  obtains cfg' an where "resolve_config demo_exact_config = Inr (cfg', an)" "mc_Mode (lc_Match cfg') = ''exact''"
    "normalize ascii_tables an ''x'' = ''x''"
proof -
  obtain cfg an where r: "resolve_config demo_config = Inr (cfg, an)" using demo_config_resolves by blast
  have "\<exists>cfg'. resolve_config demo_exact_config = Inr (cfg', an) \<and> mc_Mode (lc_Match cfg') = ''exact''"
    using r by (auto simp: resolve_config_def demo_exact_config_def demo_config_def resolve_match_def check_fallback_def Let_def
        split: sum.splits option.splits if_splits)
  moreover have "preset ''identifier'' = Inr an"
    using r by (auto simp: resolve_config_def demo_config_def ResolveAnalyzer_def Let_def split: sum.splits option.splits if_splits)
  moreover have "case preset ''identifier'' of Inl _ \<Rightarrow> False | Inr a \<Rightarrow> normalize ascii_tables a ''x'' = ''x''"
    by (simp add: preset_def presets_def new_analyzer_def parse_step_def Analyzer.normalize_def Let_def)
      (simp add: ascii_tables_def ascii_eval collapseSpaces_def Let_def del: chunks.simps(2))
  ultimately show ?thesis using that by auto
qed


end
