(* ===== verification/Store_Model.thy ===== *)
theory Store_Model
  imports Query_Live Ngram_Artifact
begin

text \<open>
  The durable half of a list (\<open>engine/store.go\<close>): the files of one list directory, what the mutators of \<open>Store\<close> do to
  them and to the served list, and \<open>openList\<close>. Every file operation can fail: an operation takes a record that says which
  of its calls fail and how much of a failed write reached the file. The list lock makes an operation one step.

  Arguments stand for what is outside the repository: \<open>encoding/json\<close> on records, entries, headers and
  configurations (\<open>None\<close> is an error), SHA-256 in hex, the bitmap serialization, and the iteration order of a
  map. Of a running hash only the bytes fed to it matter; they are kept beside the list.
\<close>

subsection \<open>Data\<close>

datatype damage_kind = damageNone | damageContent | damageCreate

datatype fsync_mode = FsyncNone | FsyncEvery | FsyncInterval

record disk =
  d_marker :: bool
  d_config :: "string option"
  d_base :: "string option"
  d_idx :: "string option"
  d_journal :: "string option"
  d_quarantined :: "string option"

record 'b list_state =
  ls_name :: string
  ls_l :: "'b klist option"
  ls_damage :: damage_kind
  ls_disk :: disk
  ls_hashed :: string

record 'b store_env =
  sv_E :: "'b env"
  sv_T :: text_tables
  sv_sha :: "string \<Rightarrow> string"
  sv_fsync :: fsync_mode
  sv_cfgjson :: "list_config \<Rightarrow> string"
  sv_uncfg :: "string \<Rightarrow> list_config option"
  sv_rec :: "journal_rec \<Rightarrow> string option"
  sv_unrec :: "string \<Rightarrow> journal_rec option"
  sv_entry :: "entry \<Rightarrow> string option"
  sv_unentry :: "string \<Rightarrow> entry option"
  sv_exjson :: "exact_meta \<Rightarrow> string"
  sv_unexjson :: "string \<Rightarrow> exact_meta option"
  sv_ngjson :: "ngram_meta \<Rightarrow> string"
  sv_unngjson :: "string \<Rightarrow> ngram_meta option"
  sv_write :: "'b \<Rightarrow> string"
  sv_read :: "string \<Rightarrow> ('b \<times> string) option"
  sv_keys :: "exact_index \<Rightarrow> string list"

datatype store_error =
    UnknownList
  | InvalidName
  | ListDamaged damage_kind
  | ListReplaced
  | ListFailed list_error
  | ConfigRefused config_error
  | MarshalFailed
  | EntryTooLarge string nat
  | IOFailed
  | NonEmptyJournal
  | MarkerPresent
  | ConfigUnreadable
  | BaseUnreadable

abbreviation nl :: char where "nl \<equiv> CHR 0x0A"

definition journalPrefix :: string where "journalPrefix = ''kurn journal v1'' @ [CHR 0x00]"

definition journal_digest :: "'b store_env \<Rightarrow> string \<Rightarrow> string" where
  "journal_digest V bs = sv_sha V (journalPrefix @ bs)"

definition AnalyzerSpecDigest :: "'b store_env \<Rightarrow> string list \<Rightarrow> string" where
  "AnalyzerSpecDigest V steps = sv_sha V (concat (map digest_frame steps))"

definition list_steps :: "'b klist \<Rightarrow> string list" where
  "list_steps l = ac_Steps (lc_Analyzer (l_cfg l))"

subsection \<open>Lines\<close>

text \<open>One line of a file: what precedes the first newline, and what follows it (\<open>None\<close> without a newline).\<close>

definition cut_line :: "string \<Rightarrow> string \<times> string option" where
  "cut_line bs = (case dropWhile (\<lambda>c. c \<noteq> nl) bs of [] \<Rightarrow> (bs, None) | _ # rest \<Rightarrow> (takeWhile (\<lambda>c. c \<noteq> nl) bs, Some rest))"

lemma cut_line_shrinks: "cut_line bs = (line, Some rest) \<Longrightarrow> length rest < length bs"
  using length_dropWhile_le [of "\<lambda>c. c \<noteq> nl" bs] by (auto simp: cut_line_def split: list.splits)

definition drop_cr :: "string \<Rightarrow> string" where
  "drop_cr s = (if s \<noteq> [] \<and> last s = CHR 0x0D then butlast s else s)"

text \<open>\<open>bufio.Scanner\<close> with a \<open>maxLine\<close> buffer: a line and its newline must fit in \<open>scanLine\<close> bytes.\<close>

definition scanLine :: nat where "scanLine = 2 ^ 20"

fun add_line :: "'b store_env \<Rightarrow> string \<Rightarrow> entry list \<Rightarrow> store_error + entry list" where
  "add_line V line es =
     (if length line + 1 > scanLine then Inl BaseUnreadable
      else if drop_cr line = [] then Inr es
      else case sv_unentry V (drop_cr line) of None \<Rightarrow> Inl BaseUnreadable | Some e \<Rightarrow> Inr (es @ [e]))"

function base_lines :: "'b store_env \<Rightarrow> string \<Rightarrow> entry list \<Rightarrow> store_error + entry list" where
  "base_lines V bs es =
     (if bs = [] then Inr es
      else case cut_line bs of
        (line, None) \<Rightarrow> add_line V line es
      | (line, Some rest) \<Rightarrow>
          (case add_line V line es of Inl e \<Rightarrow> Inl e | Inr es1 \<Rightarrow> base_lines V rest es1))"
  by pat_completeness auto
termination
  by (relation "measure (\<lambda>(V, bs, es). length bs)") (auto dest: cut_line_shrinks [OF sym] simp del: add_line.simps)

declare base_lines.simps [simp del]

definition readBase :: "'b store_env \<Rightarrow> string option \<Rightarrow> store_error + (entry list \<times> string) option" where
  "readBase V bs = (case bs of
     None \<Rightarrow> Inr None
   | Some b \<Rightarrow> (case base_lines V b [] of Inl e \<Rightarrow> Inl e | Inr es \<Rightarrow> Inr (Some (es, sv_sha V b))))"

text \<open>The loop of \<open>readJournal\<close>; \<open>None\<close> is \<open>tornAt = -1\<close>.\<close>

function journal_lines :: "'b store_env \<Rightarrow> string \<Rightarrow> journal_rec list \<Rightarrow> nat \<Rightarrow> journal_rec list \<times> nat option" where
  "journal_lines V bs ops off =
     (case cut_line bs of
        (line, None) \<Rightarrow> if line = [] then (ops, None) else (ops, Some off)
      | (line, Some rest) \<Rightarrow>
          if length line + 1 > scanLine then (ops, Some off)
          else if line = [] then journal_lines V rest ops (off + 1)
          else (case sv_unrec V line of
              None \<Rightarrow> (ops, Some off)
            | Some r \<Rightarrow> journal_lines V rest (ops @ [r]) (off + length line + 1)))"
  by pat_completeness auto
termination
  by (relation "measure (\<lambda>(V, bs, ops, off). length bs)") (auto dest: cut_line_shrinks [OF sym])

declare journal_lines.simps [simp del]

definition readJournal :: "'b store_env \<Rightarrow> string option \<Rightarrow> journal_rec list \<times> nat option" where
  "readJournal V bs = (case bs of None \<Rightarrow> ([], None) | Some b \<Rightarrow> journal_lines V b [] 0)"

subsection \<open>Appending to the journal\<close>

fun rec_id :: "journal_rec \<Rightarrow> string" where
  "rec_id (JUpsert (Some e)) = e_ID e"
| "rec_id (JUpsert None) = ''''"
| "rec_id (JDelete i) = i"
| "rec_id (JOther op) = ''''"

fun journal_buf :: "'b store_env \<Rightarrow> journal_rec list \<Rightarrow> store_error + string" where
  "journal_buf V [] = Inr []"
| "journal_buf V (r # rs) = (case sv_rec V r of
     None \<Rightarrow> Inl MarshalFailed
   | Some line \<Rightarrow>
       if length line + 1 > scanLine then Inl (EntryTooLarge (rec_id r) (length line + 1))
       else (case journal_buf V rs of Inl e \<Rightarrow> Inl e | Inr b \<Rightarrow> Inr (line @ [nl] @ b)))"

text \<open>The calls of one append that fail; of a failed write \<open>ai_write\<close> bytes reached the file, of a failed close
  \<open>ai_kept\<close>.\<close>

record append_io =
  ai_open :: bool
  ai_seek :: bool
  ai_write :: "nat option"
  ai_sync :: bool
  ai_close :: bool
  ai_kept :: nat
  ai_commit :: bool
  ai_trunc :: bool

definition file_of :: "string option \<Rightarrow> string" where
  "file_of f = (case f of None \<Rightarrow> [] | Some b \<Rightarrow> b)"

definition set_journal :: "string \<Rightarrow> 'b list_state \<Rightarrow> 'b list_state" where
  "set_journal bs ls = ls\<lparr>ls_disk := (ls_disk ls)\<lparr>d_journal := Some bs\<rparr>\<rparr>"

text \<open>Rolling the file back to \<open>start\<close> bytes; where that fails the fragment stays and the list is damaged.\<close>

definition roll_back :: "append_io \<Rightarrow> string \<Rightarrow> string \<Rightarrow> 'b list_state \<Rightarrow> 'b list_state" where
  "roll_back io old fragment ls =
     (if ai_trunc io then (set_journal (old @ fragment) ls)\<lparr>ls_damage := damageContent\<rparr> else set_journal old ls)"

definition appendJournal ::
  "'b store_env \<Rightarrow> append_io \<Rightarrow> journal_rec list \<Rightarrow> 'b list_state \<Rightarrow> (store_error + nat) \<times> 'b list_state" where
  "appendJournal V io recs ls =
     (if ls_damage ls \<noteq> damageNone then (Inl (ListDamaged (ls_damage ls)), ls)
      else case journal_buf V recs of
        Inl e \<Rightarrow> (Inl e, ls)
      | Inr buf \<Rightarrow>
          if ai_open io then (Inl IOFailed, ls)
          else
            let old = file_of (d_journal (ls_disk ls)); ls0 = set_journal old ls in
            if ai_seek io then (Inl IOFailed, ls0)
            else (case ai_write io of
                Some n \<Rightarrow> (Inl IOFailed, roll_back io old (take n buf) ls0)
              | None \<Rightarrow>
                  if sv_fsync V = FsyncEvery \<and> ai_sync io then (Inl IOFailed, roll_back io old buf ls0)
                  else if ai_close io then (Inl IOFailed, roll_back io old (take (ai_kept io) buf) ls0)
                  else if sv_fsync V = FsyncInterval \<and> ai_commit io then (Inl IOFailed, roll_back io old buf ls0)
                  else (Inr (length old + length buf),
                    (set_journal (old @ buf) ls0)\<lparr>ls_hashed := ls_hashed ls @ buf\<rparr>)))"

subsection \<open>Appending mutations\<close>

text \<open>\<open>journalled\<close> is what \<open>upsertLocked\<close> and \<open>DeleteVersioned\<close> share: prepare, append, commit at the new position.\<close>

definition with_hash :: "'b store_env \<Rightarrow> string \<Rightarrow> 'b klist \<Rightarrow> 'b klist" where
  "with_hash V bs l = (if l_jhash l = None then l else setJournalHash (Some (journal_digest V bs)) l)"

definition journalled ::
  "'b store_env \<Rightarrow> append_io \<Rightarrow> ('b klist \<Rightarrow> list_error + 'b overlay_build) \<Rightarrow> journal_rec list
    \<Rightarrow> 'b list_state \<Rightarrow> store_error option \<times> 'b list_state" where
  "journalled V io prep recs ls = (case ls_l ls of
     None \<Rightarrow> (Some UnknownList, ls)
   | Some l \<Rightarrow>
       (case prep l of
          Inl e \<Rightarrow> (Some (ListFailed e), ls)
        | Inr b \<Rightarrow>
            (case appendJournal V io recs ls of
               (Inl e, ls1) \<Rightarrow> (Some e, ls1)
             | (Inr jpos, ls1) \<Rightarrow>
                 (None, ls1\<lparr>ls_l := Some (commitOverlayAt b (int jpos) (with_hash V (ls_hashed ls1) l))\<rparr>))))"

definition UpsertVersioned ::
  "'b store_env \<Rightarrow> append_io \<Rightarrow> entry list \<Rightarrow> 'b list_state \<Rightarrow> store_error option \<times> 'b list_state" where
  "UpsertVersioned V io entries =
     journalled V io (\<lambda>l. prepareUpsert (sv_E V) l entries) (map (\<lambda>e. JUpsert (Some e)) entries)"

text \<open>\<open>gen\<close> is the outcome of the pointer comparison with the served list, \<open>None\<close> for a nil generation.\<close>

definition UpsertGenVersioned ::
  "'b store_env \<Rightarrow> append_io \<Rightarrow> bool option \<Rightarrow> entry list \<Rightarrow> 'b list_state \<Rightarrow> store_error option \<times> 'b list_state" where
  "UpsertGenVersioned V io gen entries ls =
     (if ls_l ls = None then (Some UnknownList, ls)
      else if gen = Some False then (Some ListReplaced, ls)
      else UpsertVersioned V io entries ls)"

definition DeleteVersioned ::
  "'b store_env \<Rightarrow> append_io \<Rightarrow> string \<Rightarrow> 'b list_state \<Rightarrow> store_error option \<times> 'b list_state" where
  "DeleteVersioned V io eid = journalled V io (\<lambda>l. prepareDelete (sv_E V) l eid) [JDelete eid]"

text \<open>The condition under which \<open>maybeAutoCompact\<close> schedules a background \<open>Compact\<close>, a step of its own.\<close>

definition autoCompactDue :: "'b klist \<Rightarrow> bool" where
  "autoCompactDue l \<longleftrightarrow> lc_OverlayAutoCompact (l_cfg l) > 0 \<and> fst (snd (Stats l)) \<ge> lc_OverlayAutoCompact (l_cfg l)"

subsection \<open>Rewriting the base\<close>

fun base_buf :: "'b store_env \<Rightarrow> entry list \<Rightarrow> store_error + string" where
  "base_buf V [] = Inr []"
| "base_buf V (e # es) = (case sv_entry V e of
     None \<Rightarrow> Inl MarshalFailed
   | Some line \<Rightarrow>
       if length line + 1 > scanLine then Inl (EntryTooLarge (e_ID e) (length line + 1))
       else (case base_buf V es of Inl er \<Rightarrow> Inl er | Inr b \<Rightarrow> Inr (line @ [nl] @ b)))"

record rebuild_io =
  ri_temp :: bool
  ri_rmidx :: bool
  ri_rename :: bool
  ri_syncdir :: bool
  ri_trunc :: bool
  ri_truncsync :: bool
  ri_save :: bool

text \<open>\<open>persistBase\<close>: the identity of the new base or an error, whether the rename published it, and the files.\<close>

definition persistBase ::
  "'b store_env \<Rightarrow> rebuild_io \<Rightarrow> entry list \<Rightarrow> disk \<Rightarrow> (store_error + string) \<times> bool \<times> disk" where
  "persistBase V io es d = (case base_buf V es of
     Inl e \<Rightarrow> (Inl e, False, d)
   | Inr buf \<Rightarrow>
       if ri_temp io then (Inl IOFailed, False, d)
       else if ri_rmidx io then (Inl IOFailed, False, d)
       else
         let d1 = d\<lparr>d_idx := None\<rparr> in
         if ri_rename io then (Inl IOFailed, False, d1)
         else
           let d2 = d1\<lparr>d_base := Some buf\<rparr> in
           (if ri_syncdir io then Inl IOFailed else Inr (sv_sha V buf), True, d2))"

text \<open>The truncation of the journal and its sync; a missing journal is already empty.\<close>

definition truncate_journal :: "rebuild_io \<Rightarrow> disk \<Rightarrow> bool \<times> disk" where
  "truncate_journal io d = (case d_journal d of
     None \<Rightarrow> (True, d)
   | Some _ \<Rightarrow> if ri_trunc io then (False, d) else (\<not> ri_truncsync io, d\<lparr>d_journal := Some []\<rparr>))"

definition artifact_build :: "'b klist \<Rightarrow> build_info" where
  "artifact_build l = \<lparr>bi_BaseID = l_baseID l, bi_Entries = fst (Stats l),
     bi_DroppedKeys = fst (BuildStats l), bi_KeylessEntries = snd (BuildStats l)\<rparr>"

definition saveArtifact :: "'b store_env \<Rightarrow> bool \<Rightarrow> 'b klist \<Rightarrow> 'b segment \<Rightarrow> disk \<Rightarrow> disk" where
  "saveArtifact V fails l seg d =
     (let digest = AnalyzerSpecDigest V (list_steps l) in
      case sg_ng seg of
        Some ng \<Rightarrow> if fails then d else d\<lparr>d_idx := Some (save_ngram (sv_ngjson V) (sv_write V) ng digest (artifact_build l))\<rparr>
      | None \<Rightarrow>
          (case sg_ex seg of
             Some ex \<Rightarrow>
               (case save_exact (sv_exjson V) (sv_keys V ex) ex digest (artifact_build l) of
                  None \<Rightarrow> d
                | Some bs \<Rightarrow> if fails then d else d\<lparr>d_idx := Some bs\<rparr>)
           | None \<Rightarrow> d))"

text \<open>What \<open>ReplaceVersioned\<close> and \<open>CompactVersioned\<close> share after building: persist, truncate, install, cache.\<close>

definition rebuilt ::
  "'b store_env \<Rightarrow> rebuild_io \<Rightarrow> entry list \<Rightarrow> 'b segment \<Rightarrow> (string \<Rightarrow> 'b klist \<Rightarrow> 'b klist) \<Rightarrow> 'b klist
    \<Rightarrow> 'b list_state \<Rightarrow> store_error option \<times> 'b list_state" where
  "rebuilt V io es seg install l ls = (case persistBase V io es (ls_disk ls) of
     (Inl e, published, d) \<Rightarrow>
       (Some e, ls\<lparr>ls_disk := d, ls_damage := (if published then damageContent else ls_damage ls)\<rparr>)
   | (Inr bid, _, d) \<Rightarrow>
       (case truncate_journal io d of
          (False, d1) \<Rightarrow> (Some IOFailed, ls\<lparr>ls_disk := d1, ls_damage := damageContent\<rparr>)
        | (True, d1) \<Rightarrow>
            let l1 = install bid (setJournalHash (Some (journal_digest V [])) l) in
            (None, ls\<lparr>ls_l := Some l1, ls_damage := damageNone, ls_hashed := [],
              ls_disk := saveArtifact V (ri_save io) l1 seg d1\<rparr>)))"

definition ReplaceVersioned ::
  "'b store_env \<Rightarrow> rebuild_io \<Rightarrow> entry list \<Rightarrow> 'b list_state \<Rightarrow> store_error option \<times> 'b list_state" where
  "ReplaceVersioned V io entries ls = (case ls_l ls of
     None \<Rightarrow> (Some UnknownList, ls)
   | Some l \<Rightarrow>
       if ls_damage ls = damageCreate then (Some (ListDamaged damageCreate), ls)
       else (case prepareBase (sv_E V) l entries of
           Inl e \<Rightarrow> (Some (ListFailed e), ls)
         | Inr (es, seg) \<Rightarrow> rebuilt V io es seg (\<lambda>bid l. installBase seg (SetBaseID bid l)) l ls))"

definition CompactVersioned :: "'b store_env \<Rightarrow> rebuild_io \<Rightarrow> 'b list_state \<Rightarrow> store_error option \<times> 'b list_state" where
  "CompactVersioned V io ls = (case ls_l ls of
     None \<Rightarrow> (Some UnknownList, ls)
   | Some l \<Rightarrow>
       if ls_damage ls = damageCreate then (Some (ListDamaged damageCreate), ls)
       else (case PrepareCompact (sv_E V) l of
           (Inl e, l1) \<Rightarrow> (Some (ListFailed e), ls\<lparr>ls_l := Some l1\<rparr>)
         | (Inr b, l1) \<Rightarrow> rebuilt V io (cb_live b) (cb_seg b) (\<lambda>bid. CommitCompact b bid) l1 ls))"

subsection \<open>Opening a list\<close>

record open_io =
  oi_config :: bool
  oi_base :: bool
  oi_save :: bool
  oi_journal :: bool
  oi_truncate :: bool
  oi_hash :: bool
  oi_rename :: bool

definition info_of :: "build_info \<Rightarrow> index_build_info" where
  "info_of b = \<lparr>bi_entries = bi_Entries b, bi_droppedKeys = bi_DroppedKeys b, bi_keylessEntries = bi_KeylessEntries b\<rparr>"

definition artifact_trusted :: "'b store_env \<Rightarrow> 'b klist \<Rightarrow> string \<Rightarrow> build_info option \<Rightarrow> bool" where
  "artifact_trusted V l digest build \<longleftrightarrow> digest \<noteq> '''' \<and> digest = AnalyzerSpecDigest V (list_steps l)
     \<and> (case build of None \<Rightarrow> False | Some b \<Rightarrow> bi_BaseID b = l_baseID l)"

text \<open>\<open>installWithArtifact\<close>: the list with the cached index installed, or \<open>None\<close> where a full build is needed.\<close>

definition installWithArtifact :: "'b store_env \<Rightarrow> 'b klist \<Rightarrow> entry list \<Rightarrow> string option \<Rightarrow> 'b klist option" where
  "installWithArtifact V l es idx =
     (let mc = lc_Match (l_cfg l) in
      case idx of
        None \<Rightarrow> None
      | Some bs \<Rightarrow>
          if mc_Mode mc = ''exact'' then
            (case load_exact (sv_unexjson V) bs of
               Inl _ \<Rightarrow> None
             | Inr (ix, digest, build) \<Rightarrow>
                 if \<not> artifact_trusted V l digest build then None
                 else (case ReplaceWithExactIndexInfo es (Some ix) (map_option info_of build) l of
                     (None, l1) \<Rightarrow> Some l1 | (Some _, _) \<Rightarrow> None))
          else if mc_Mode mc \<noteq> ''ngram'' then None
          else
            (case load_ngram (en_R (sv_E V)) (sv_read V) (sv_unngjson V) bs of
               Inl _ \<Rightarrow> None
             | Inr (ix, digest, build) \<Rightarrow>
                 if \<not> artifact_trusted V l digest build then None
                 else if map int (nc_Grams (ni_cfg ix)) \<noteq> mc_Grams mc \<or> nc_StripSpaces (ni_cfg ix) \<noteq> mc_StripSpaces mc then None
                 else (case ReplaceWithIndexInfo (sv_E V) es (Some ix) (map_option info_of build) l of
                     (None, l1) \<Rightarrow> Some l1 | (Some _, _) \<Rightarrow> None)))"

definition open_base ::
  "'b store_env \<Rightarrow> open_io \<Rightarrow> (entry list \<times> string) option \<Rightarrow> 'b klist \<Rightarrow> disk \<Rightarrow> store_error + ('b klist \<times> disk)" where
  "open_base V io base l d = (case base of
     None \<Rightarrow> Inr (stampFresh (SetBaseID ''empty'' l), d)
   | Some (es, bid) \<Rightarrow>
       let l0 = SetBaseID bid l in
       (case installWithArtifact V l0 es (d_idx d) of
          Some l1 \<Rightarrow> Inr (l1, d)
        | None \<Rightarrow>
            (case Replace (sv_E V) es l0 of
               (Some e, _) \<Rightarrow> Inl (ListFailed e)
             | (None, l1) \<Rightarrow>
                 Inr (l1, (case sn_base (l_snap l1) of None \<Rightarrow> d | Some seg \<Rightarrow> saveArtifact V (oi_save io) l1 seg d)))))"

definition open_journal ::
  "'b store_env \<Rightarrow> open_io \<Rightarrow> 'b klist \<Rightarrow> disk \<Rightarrow> (store_error + ('b klist \<times> string)) \<times> disk" where
  "open_journal V io l d =
     (if oi_journal io then (Inl IOFailed, d)
      else
        let (ops, tornAt) = readJournal V (d_journal d) in
        if tornAt \<noteq> None \<and> oi_truncate io then (Inl IOFailed, d)
        else
          let d1 = (case tornAt of None \<Rightarrow> d | Some n \<Rightarrow> d\<lparr>d_journal := Some (take n (file_of (d_journal d)))\<rparr>);
              hashed = file_of (d_journal d1)
          in if oi_hash io then (Inl IOFailed, d1)
             else
               let l1 = setJournalHash (Some (journal_digest V hashed)) l in
               if ops = [] then (Inr (l1, hashed), d1)
               else (case applyJournal (sv_E V) ops (int (length hashed)) l1 of
                   (None, l2) \<Rightarrow> (Inr (l2, hashed), d1)
                 | (Some _, _) \<Rightarrow>
                     if oi_rename io then (Inl IOFailed, d1\<lparr>d_quarantined := None\<rparr>)
                     else (Inr (setJournalHash (Some (journal_digest V [])) l1, []),
                       d1\<lparr>d_quarantined := d_journal d1, d_journal := None\<rparr>)))"

definition openList :: "'b store_env \<Rightarrow> open_io \<Rightarrow> string \<Rightarrow> disk \<Rightarrow> (store_error + ('b klist \<times> string)) \<times> disk" where
  "openList V io name d =
     (if d_marker d then (Inl MarkerPresent, d)
      else case (if oi_config io then None else d_config d) of
        None \<Rightarrow> (Inl ConfigUnreadable, d)
      | Some raw \<Rightarrow>
          (case sv_uncfg V raw of
             None \<Rightarrow> (Inl ConfigUnreadable, d)
           | Some cfg \<Rightarrow>
               (case new_list (sv_T V) (sv_sha V) (sv_cfgjson V) name cfg of
                  Inl e \<Rightarrow> (Inl (ConfigRefused e), d)
                | Inr l \<Rightarrow>
                    (case (if oi_base io then Inl IOFailed else readBase V (d_base d)) of
                       Inl e \<Rightarrow> (Inl e, d)
                     | Inr base \<Rightarrow>
                         (case open_base V io base l d of
                            Inl e \<Rightarrow> (Inl e, d)
                          | Inr (l1, d1) \<Rightarrow> open_journal V io l1 d1)))))"

subsection \<open>Creating and reloading\<close>

definition name_char :: "char \<Rightarrow> bool" where
  "name_char c \<longleftrightarrow> c \<in> set ''abcdefghijklmnopqrstuvwxyz0123456789''"

definition valid_name :: "string \<Rightarrow> bool" where
  "valid_name s \<longleftrightarrow> (case s of [] \<Rightarrow> False
     | c # cs \<Rightarrow> name_char c \<and> length cs \<le> 63 \<and> list_all (\<lambda>c. name_char c \<or> c = CHR ''_'' \<or> c = CHR ''-'') cs)"

text \<open>How \<open>writeFileAtomic\<close> ends: done, failed before the rename, or published without its directory sync.\<close>

datatype write_result = Written | WriteFailed | WritePublished

record create_io =
  ci_mkdir :: bool
  ci_marker :: write_result
  ci_remove :: "nat option"
  ci_config :: write_result
  ci_unmark :: bool
  ci_sync :: bool

definition wipe :: "nat \<Rightarrow> disk \<Rightarrow> disk" where
  "wipe n d = d\<lparr>d_base := (if n > 0 then None else d_base d), d_idx := (if n > 1 then None else d_idx d),
     d_journal := (if n > 2 then None else d_journal d)\<rparr>"

definition create_failed :: "disk \<Rightarrow> 'b list_state \<Rightarrow> store_error option \<times> 'b list_state" where
  "create_failed d ls = (Some IOFailed, ls\<lparr>ls_disk := d, ls_damage := damageCreate\<rparr>)"

definition explicit_steps :: "list_config \<Rightarrow> list_config" where
  "explicit_steps cfg = (case preset_steps (ac_Preset (lc_Analyzer cfg)) of
     None \<Rightarrow> cfg
   | Some steps \<Rightarrow> cfg\<lparr>lc_Analyzer := \<lparr>ac_Preset = '''', ac_Steps = steps\<rparr>\<rparr>)"

definition CreateListVersioned ::
  "'b store_env \<Rightarrow> create_io \<Rightarrow> list_config \<Rightarrow> 'b list_state \<Rightarrow> store_error option \<times> 'b list_state" where
  "CreateListVersioned V io cfg ls =
     (if \<not> valid_name (ls_name ls) then (Some InvalidName, ls)
      else case new_list (sv_T V) (sv_sha V) (sv_cfgjson V) (ls_name ls) (explicit_steps cfg) of
        Inl e \<Rightarrow> (Some (ConfigRefused e), ls)
      | Inr l \<Rightarrow>
          if ci_mkdir io then (Some IOFailed, ls)
          else
            let d1 = (ls_disk ls)\<lparr>d_marker := True\<rparr> in
            if ci_marker io = WriteFailed then (Some IOFailed, ls)
            else if ci_marker io = WritePublished then create_failed d1 ls
            else (case ci_remove io of
                Some n \<Rightarrow> create_failed (wipe (min n 2) d1) ls
              | None \<Rightarrow>
                  let d2 = wipe 3 d1; d3 = d2\<lparr>d_config := Some (sv_cfgjson V (l_cfg l) @ [nl])\<rparr> in
                  if ci_config io = WriteFailed then create_failed d2 ls
                  else if ci_config io = WritePublished then create_failed d3 ls
                  else if ci_unmark io then create_failed d3 ls
                  else
                    let d4 = d3\<lparr>d_marker := False\<rparr> in
                    if ci_sync io then create_failed d4 ls
                    else (None, ls\<lparr>ls_disk := d4, ls_damage := damageNone, ls_hashed := [],
                      ls_l := Some (stampFresh (setJournalHash (Some (journal_digest V [])) (SetBaseID ''empty'' l)))\<rparr>)))"

definition ReloadListVersioned :: "'b store_env \<Rightarrow> open_io \<Rightarrow> 'b list_state \<Rightarrow> store_error option \<times> 'b list_state" where
  "ReloadListVersioned V io ls =
     (if \<not> valid_name (ls_name ls) then (Some InvalidName, ls)
      else if ls_damage ls \<noteq> damageNone then (Some (ListDamaged (ls_damage ls)), ls)
      else if file_of (d_journal (ls_disk ls)) \<noteq> [] then (Some NonEmptyJournal, ls)
      else case openList V io (ls_name ls) (ls_disk ls) of
        (Inl e, d) \<Rightarrow> (Some e, ls\<lparr>ls_disk := d\<rparr>)
      | (Inr (l, hashed), d) \<Rightarrow> (None, ls\<lparr>ls_l := Some l, ls_hashed := hashed, ls_damage := damageNone, ls_disk := d\<rparr>))"

text \<open>The mutators of one list, each with the outcome of its file operations.\<close>

datatype store_op =
    SUpsert append_io "entry list"
  | SDelete append_io string
  | SReplace rebuild_io "entry list"
  | SCompact rebuild_io
  | SCreate create_io list_config
  | SReload open_io

fun store_apply :: "'b store_env \<Rightarrow> store_op \<Rightarrow> 'b list_state \<Rightarrow> store_error option \<times> 'b list_state" where
  "store_apply V (SUpsert io es) = UpsertVersioned V io es"
| "store_apply V (SDelete io eid) = DeleteVersioned V io eid"
| "store_apply V (SReplace io es) = ReplaceVersioned V io es"
| "store_apply V (SCompact io) = CompactVersioned V io"
| "store_apply V (SCreate io cfg) = CreateListVersioned V io cfg"
| "store_apply V (SReload io) = ReloadListVersioned V io"

definition empty_disk :: disk where
  "empty_disk = \<lparr>d_marker = False, d_config = None, d_base = None, d_idx = None, d_journal = None, d_quarantined = None\<rparr>"

text \<open>The placeholder state of a name the store has not seen.\<close>

definition fresh_state :: "string \<Rightarrow> 'b list_state" where
  "fresh_state name = \<lparr>ls_name = name, ls_l = None, ls_damage = damageNone, ls_disk = empty_disk, ls_hashed = []\<rparr>"

end
