(* ===== verification/Store_Lines.thy ===== *)
theory Store_Lines
  imports Store_Model
begin

text \<open>
  Reading back what the store wrote. A record or entry is stable when the bytes \<open>json.Marshal\<close> gives for it are one
  non-empty line that \<open>json.Unmarshal\<close> turns back into it; this is what encoding valid UTF-8 strings and a compact payload
  gives. A file of stable lines reads back to what was written, and any prefix of a journal, wherever a crash cut
  it, to a prefix of its records, with \<open>tornAt\<close> just past the last whole one.
\<close>

definition rec_stable :: "'b store_env \<Rightarrow> journal_rec \<Rightarrow> bool" where
  "rec_stable V r \<longleftrightarrow> (case sv_rec V r of None \<Rightarrow> True | Some line \<Rightarrow> line \<noteq> [] \<and> nl \<notin> set line \<and> sv_unrec V line = Some r)"

definition entry_stable :: "'b store_env \<Rightarrow> entry \<Rightarrow> bool" where
  "entry_stable V e \<longleftrightarrow> rec_stable V (JUpsert (Some e)) \<and> (case sv_entry V e of None \<Rightarrow> True
     | Some line \<Rightarrow> line \<noteq> [] \<and> nl \<notin> set line \<and> last line \<noteq> CHR 0x0D \<and> sv_unentry V line = Some e)"

lemma cut_line_at: "nl \<notin> set line \<Longrightarrow> cut_line (line @ nl # rest) = (line, Some rest)"
  by (simp add: cut_line_def dropWhile_append takeWhile_append dropWhile_eq_Nil_conv [THEN iffD2] takeWhile_eq_all_conv [THEN iffD2])

lemma cut_line_none: "nl \<notin> set bs \<Longrightarrow> cut_line bs = (bs, None)"
  unfolding cut_line_def by (subst dropWhile_eq_Nil_conv [THEN iffD2]) auto

subsection \<open>The journal\<close>

lemma journal_buf_Cons:
  "journal_buf V (r # rs) = Inr buf \<longleftrightarrow>
     (\<exists>line b. sv_rec V r = Some line \<and> length line + 1 \<le> scanLine \<and> journal_buf V rs = Inr b \<and> buf = line @ nl # b)"
  by (auto split: option.splits sum.splits)

lemma journal_buf_append:
  "journal_buf V (rs1 @ rs2) = Inr buf \<longleftrightarrow> (\<exists>b1 b2. journal_buf V rs1 = Inr b1 \<and> journal_buf V rs2 = Inr b2 \<and> buf = b1 @ b2)"
proof (induction rs1 arbitrary: buf)
  case (Cons r rs1)
  show ?case unfolding append_Cons journal_buf_Cons Cons.IH by auto
qed simp

lemma journal_line_step:
  assumes "sv_rec V r = Some line" "rec_stable V r" "length line + 1 \<le> scanLine"
  shows "journal_lines V (line @ nl # rest) ops off = journal_lines V rest (ops @ [r]) (off + length line + 1)"
  using assms by (subst journal_lines.simps) (simp add: rec_stable_def cut_line_at not_less)

text \<open>Reading the first \<open>n\<close> bytes of an encoded journal.\<close>

lemma journal_read_prefix:
  assumes "journal_buf V rs = Inr buf" "\<forall>r \<in> set rs. rec_stable V r" "n \<le> length buf"
  shows "\<exists>k b. k \<le> length rs \<and> journal_buf V (take k rs) = Inr b \<and> length b \<le> n \<and> take (length b) buf = b
    \<and> journal_lines V (take n buf) ops off = (ops @ take k rs, if length b = n then None else Some (off + length b))
    \<and> (\<forall>j b1. journal_buf V (take j rs) = Inr b1 \<longrightarrow> j \<le> length rs \<longrightarrow> length b1 \<le> n \<longrightarrow> j \<le> k)"
  using assms
proof (induction rs arbitrary: buf n ops off)
  case Nil
  then show ?case by (subst journal_lines.simps) (simp add: cut_line_def)
next
  case (Cons r rs)
  obtain line c where r: "sv_rec V r = Some line" "length line + 1 \<le> scanLine" "journal_buf V rs = Inr c" "buf = line @ nl # c"
    using Cons.prems(1) unfolding journal_buf_Cons by blast
  have st: "rec_stable V r" "nl \<notin> set line" "line \<noteq> []" using Cons.prems(2) r(1) by (auto simp: rec_stable_def)
  have long: "length b1 \<ge> length line + 1" if "journal_buf V (take (Suc j) (r # rs)) = Inr b1" for j b1
    using that unfolding take_Suc_Cons journal_buf_Cons by (auto simp: r(1))
  show ?case
  proof (cases "n \<le> length line")
    case True
    have "nl \<notin> set (take n line)" using st(2) in_set_takeD by metis
    then have "journal_lines V (take n buf) ops off = (ops, if n = 0 then None else Some off)"
      using True st(3) by (subst journal_lines.simps) (simp add: r(4) cut_line_none)
    moreover have "j \<le> 0" if "journal_buf V (take j (r # rs)) = Inr b1" "length b1 \<le> n" for j b1
      using that True long by (cases j) fastforce+
    ultimately show ?thesis by (intro exI [of _ 0] exI [of _ "[]"]) auto
  next
    case False
    define m where "m = n - (length line + 1)"
    have n: "n = length line + 1 + m" using False by (simp add: m_def)
    have m: "m \<le> length c" using Cons.prems(3) by (simp add: n r(4))
    obtain k b where ih: "k \<le> length rs" "journal_buf V (take k rs) = Inr b" "length b \<le> m" "take (length b) c = b"
      "journal_lines V (take m c) (ops @ [r]) (off + length line + 1)
        = ((ops @ [r]) @ take k rs, if length b = m then None else Some (off + length line + 1 + length b))"
      "\<forall>j b1. journal_buf V (take j rs) = Inr b1 \<longrightarrow> j \<le> length rs \<longrightarrow> length b1 \<le> m \<longrightarrow> j \<le> k"
      using Cons.IH [OF r(3) _ m, of "ops @ [r]" "off + length line + 1"] Cons.prems(2) by auto
    have t: "take n buf = line @ nl # take m c" by (simp add: n r(4))
    have e: "journal_lines V (take n buf) ops off = (ops @ take (Suc k) (r # rs),
        if length (line @ nl # b) = n then None else Some (off + length (line @ nl # b)))"
      unfolding t journal_line_step [OF r(1) st(1) r(2)] ih(5) by (simp add: n)
    have mx: "j \<le> Suc k" if j: "journal_buf V (take j (r # rs)) = Inr b1" "j \<le> length (r # rs)" "length b1 \<le> n" for j b1
    proof (cases j)
      case (Suc i)
      obtain d where "journal_buf V (take i rs) = Inr d" "b1 = line @ nl # d"
        using j(1) unfolding Suc take_Suc_Cons journal_buf_Cons by (auto simp: r(1))
      then show ?thesis using ih(6) j(2,3) by (simp add: Suc n)
    qed simp
    have bb: "journal_buf V (take (Suc k) (r # rs)) = Inr (line @ nl # b)"
      unfolding take_Suc_Cons journal_buf_Cons using r ih(2) by blast
    show ?thesis
      using e mx bb ih(1,3,4) by (intro exI [of _ "Suc k"] exI [of _ "line @ nl # b"]) (simp add: n r(4))
  qed
qed

lemma journal_read_all:
  assumes "journal_buf V rs = Inr buf" "\<forall>r \<in> set rs. rec_stable V r"
  shows "journal_lines V buf ops off = (ops @ rs, None)"
proof -
  obtain k b where k: "k \<le> length rs" "journal_buf V (take k rs) = Inr b"
    "journal_lines V (take (length buf) buf) ops off = (ops @ take k rs, if length b = length buf then None else Some (off + length b))"
    "\<forall>j b1. journal_buf V (take j rs) = Inr b1 \<longrightarrow> j \<le> length rs \<longrightarrow> length b1 \<le> length buf \<longrightarrow> j \<le> k"
    using journal_read_prefix [OF assms order_refl, of ops off] by blast
  have "k = length rs" using k(1,4) assms(1) by (metis le_antisym order_refl take_all)
  then show ?thesis using k(2,3) assms(1) by simp
qed

subsection \<open>The base\<close>

lemma base_buf_Cons:
  "base_buf V (e # es) = Inr buf \<longleftrightarrow>
     (\<exists>line b. sv_entry V e = Some line \<and> length line + 1 \<le> scanLine \<and> base_buf V es = Inr b \<and> buf = line @ nl # b)"
  by (auto split: option.splits sum.splits)

lemma base_read_all:
  assumes "base_buf V es = Inr buf" "\<forall>e \<in> set es. entry_stable V e"
  shows "base_lines V buf acc = Inr (acc @ es)"
  using assms
proof (induction es arbitrary: buf acc)
  case Nil
  then show ?case by (subst base_lines.simps) simp
next
  case (Cons e es)
  obtain line c where r: "sv_entry V e = Some line" "length line + 1 \<le> scanLine" "base_buf V es = Inr c" "buf = line @ nl # c"
    using Cons.prems(1) unfolding base_buf_Cons by blast
  have st: "line \<noteq> []" "nl \<notin> set line" "last line \<noteq> CHR 0x0D" "sv_unentry V line = Some e"
    using Cons.prems(2) r(1) by (auto simp: entry_stable_def)
  have "add_line V line acc = Inr (acc @ [e])" using r(2) st by (simp add: drop_cr_def not_less)
  then have "base_lines V buf acc = base_lines V c (acc @ [e])"
    by (subst base_lines.simps) (simp add: r(4) cut_line_at [OF st(2)] del: add_line.simps)
  then show ?case using Cons.IH [OF r(3)] Cons.prems(2) by simp
qed

end
