(* ===== verification/Run_Refinement.thy ===== *)
theory Run_Refinement
  imports View_Refinement
begin

text \<open>
  The contract of \<open>refined_by\<close> for the calls that satisfy a side condition, here what may be asked of a
  component whose data must survive an encoding. The unconditional contract is the instance without a condition.
\<close>

locale refined_when =
  fixes inv :: "'s \<Rightarrow> bool"
    and abs :: "'s \<Rightarrow> 'a"
    and app :: "'o \<Rightarrow> 's \<Rightarrow> 'e option \<times> 's"
    and spec :: "'o \<Rightarrow> 'a \<Rightarrow> 'a"
    and legal :: "'o \<Rightarrow> bool"
  assumes legal_keeps: "inv s \<Longrightarrow> legal x \<Longrightarrow> inv (snd (app x s))"
    and legal_succeeds: "inv s \<Longrightarrow> legal x \<Longrightarrow> app x s = (None, s1) \<Longrightarrow> abs s1 = spec x (abs s)"
    and legal_fails: "inv s \<Longrightarrow> legal x \<Longrightarrow> app x s = (Some e, s1) \<Longrightarrow> abs s1 = abs s"
begin

lemma run_when:
  assumes "inv s" "run_ops app xs s = (tr, s1)" "list_all legal xs"
  shows "inv s1 \<and> abs s1 = fold spec (succeeded tr) (abs s)"
  using assms
proof (induction xs arbitrary: s tr)
  case (Cons x xs)
  have x: "legal x" "list_all legal xs" using Cons.prems(3) by simp_all
  obtain e s2 where a: "app x s = (e, s2)" by force
  obtain tr1 where r: "run_ops app xs s2 = (tr1, s1)" and l: "tr = (x, e) # tr1"
    using Cons.prems(2) a by (auto split: prod.splits)
  have "inv s2" using legal_keeps [OF Cons.prems(1) x(1)] a by simp
  note ih = Cons.IH [OF this r x(2)]
  have "abs s2 = (if e = None then spec x (abs s) else abs s)"
    using legal_succeeds [OF Cons.prems(1) x(1)] legal_fails [OF Cons.prems(1) x(1)] a by (cases e) auto
  then show ?case using ih by (simp add: l succeeded_def)
qed (simp add: succeeded_def)

end

sublocale refined_by \<subseteq> refined_when inv abs app spec "\<lambda>_. True"
  by unfold_locales (auto intro: keeps succeeds fails)

end
