(* ===== verification/Store_Recovery.thy ===== *)
theory Store_Recovery
  imports Store_Lines Run_Refinement
begin

text \<open>
  What the files of a list mean. While a list is not damaged its files are the encoding of the served state: reopening
  them, whatever the outcome of the file operations so far, gives the same view and the same version stamp.
\<close>

subsection \<open>The invariant\<close>

definition mem_ok :: "'b store_env \<Rightarrow> 'b klist \<Rightarrow> bool" where
  "mem_ok V l \<longleftrightarrow> list_inv l \<and> \<not> l_readOnly l
     \<and> (\<forall>seg. sn_base (l_snap l) = Some seg \<longrightarrow>
          (\<exists>sg. buildSegment (sv_E V) l (sg_entries seg) = Inr sg) \<and> (\<forall>e \<in> set (sg_entries seg). entry_stable V e))
     \<and> (\<forall>ov. sn_overlay (l_snap l) = Some ov \<longrightarrow> l_overlaySrc l \<noteq> []
          \<and> buildSegment (sv_E V) l (sorted_by_id (map snd (l_overlaySrc l))) = Inr ov)
     \<and> (\<forall>e \<in> snd ` set (l_overlaySrc l). entry_stable V e)"

definition cfg_on_disk :: "'b store_env \<Rightarrow> string \<Rightarrow> 'b klist \<Rightarrow> disk \<Rightarrow> bool" where
  "cfg_on_disk V name l d \<longleftrightarrow> \<not> d_marker d \<and> (\<exists>raw cfg l0. d_config d = Some raw \<and> sv_uncfg V raw = Some cfg
     \<and> new_list (sv_T V) (sv_sha V) (sv_cfgjson V) name cfg = Inr (l0 :: 'b klist)
     \<and> l_cfg l = l_cfg l0 \<and> l_norm l = l_norm l0 \<and> l_cfgDigest l = l_cfgDigest l0)"

definition base_on_disk :: "'b store_env \<Rightarrow> 'b klist \<Rightarrow> disk \<Rightarrow> bool" where
  "base_on_disk V l d \<longleftrightarrow> (case sn_base (l_snap l) of
     None \<Rightarrow> d_base d = None \<and> l_baseID l = ''empty''
   | Some seg \<Rightarrow> \<exists>buf. d_base d = Some buf \<and> base_buf V (sg_entries seg) = Inr buf \<and> l_baseID l = sv_sha V buf)"

definition base_count :: "'b klist \<Rightarrow> nat" where
  "base_count l = (case sn_base (l_snap l) of None \<Rightarrow> 0 | Some seg \<Rightarrow> length (sg_entries seg))"

definition store_stamp :: "'b store_env \<Rightarrow> 'b klist \<Rightarrow> string \<Rightarrow> string" where
  "store_stamp V l hashed = l_baseID l @ ''@'' @ show_nat (base_count l) @ ''+j'' @ show_nat (length hashed)
     @ (if hashed \<noteq> [] then ''.'' @ journal_digest V hashed else '''') @ ''+c'' @ l_cfgDigest l"

fun rec_entries :: "journal_rec list \<Rightarrow> entry list" where
  "rec_entries [] = []"
| "rec_entries (JUpsert (Some e) # rs) = e # rec_entries rs"
| "rec_entries (_ # rs) = rec_entries rs"

definition journal_on_disk :: "'b store_env \<Rightarrow> 'b klist \<Rightarrow> journal_rec list \<Rightarrow> string \<Rightarrow> disk \<Rightarrow> bool" where
  "journal_on_disk V l recs hashed d \<longleftrightarrow> file_of (d_journal d) = hashed \<and> journal_buf V recs = Inr hashed
     \<and> (\<forall>r \<in> set recs. rec_stable V r) \<and> (\<forall>e \<in> set (rec_entries recs). entry_stable V e)
     \<and> journal_mutate recs [] {} (sn_base (l_snap l)) = (l_overlaySrc l, sn_tombstones (l_snap l))
     \<and> l_jhash l = Some (journal_digest V hashed) \<and> sn_version (l_snap l) = store_stamp V l hashed"

definition files_agree :: "'b store_env \<Rightarrow> 'b klist \<Rightarrow> string \<Rightarrow> disk \<Rightarrow> bool" where
  "files_agree V l hashed d \<longleftrightarrow> base_on_disk V l d \<and> (\<exists>recs. journal_on_disk V l recs hashed d)"

definition store_inv :: "'b store_env \<Rightarrow> 'b list_state \<Rightarrow> bool" where
  "store_inv V ls \<longleftrightarrow> (case ls_l ls of
     None \<Rightarrow> ls_damage ls = damageCreate \<or> ls_damage ls = damageNone \<and> d_config (ls_disk ls) = None
   | Some l \<Rightarrow> mem_ok V l
       \<and> (ls_damage ls \<noteq> damageCreate \<longrightarrow> cfg_on_disk V (ls_name ls) l (ls_disk ls))
       \<and> (ls_damage ls = damageNone \<longrightarrow> files_agree V l (ls_hashed ls) (ls_disk ls)))"

text \<open>The hypotheses on what lies outside: a hash is never the empty string.\<close>

definition sha_ok :: "'b store_env \<Rightarrow> bool" where
  "sha_ok V \<longleftrightarrow> (\<forall>bs. sv_sha V bs \<noteq> '''')"

lemma mem_ok_cong:
  assumes "l_snap l1 = l_snap l" "l_overlaySrc l1 = l_overlaySrc l" "l_cfg l1 = l_cfg l" "l_norm l1 = l_norm l"
    "l_readOnly l1 = l_readOnly l"
  shows "mem_ok V l1 = mem_ok V l"
  unfolding mem_ok_def buildSegment_keys [OF assms(3,4)] same_view(1) [OF assms(1,2)] assms ..

lemma cfg_on_disk_cong:
  assumes "l_cfg l1 = l_cfg l" "l_norm l1 = l_norm l" "l_cfgDigest l1 = l_cfgDigest l"
    "d_marker d1 = d_marker d" "d_config d1 = d_config d"
  shows "cfg_on_disk V name l1 d1 = cfg_on_disk V name l d"
  unfolding cfg_on_disk_def assms ..

subsection \<open>Journal records as mutations\<close>

lemma journal_mutate_append:
  "journal_mutate (a @ b) src tomb base = (case journal_mutate a src tomb base of (s, t) \<Rightarrow> journal_mutate b s t base)"
  by (induction a src tomb base rule: journal_mutate.induct) simp_all

lemma upsert_as_journal: "upsert_mutate es = journal_mutate (map (\<lambda>e. JUpsert (Some e)) es)"
proof (intro ext)
  show "upsert_mutate es src tomb base = journal_mutate (map (\<lambda>e. JUpsert (Some e)) es) src tomb base" for src tomb base
    by (induction es src tomb base rule: upsert_mutate.induct) simp_all
qed

lemma delete_as_journal: "delete_mutate i = journal_mutate [JDelete i]"
  by (intro ext) (simp add: delete_mutate_def)

lemma puts_as_journal: "puts es m = journal_spec (map (\<lambda>e. JUpsert (Some e)) es) m"
  by (induction es arbitrary: m) simp_all

lemma rec_entries_append: "rec_entries (a @ b) = rec_entries a @ rec_entries b"
  by (induction a rule: rec_entries.induct) simp_all

lemma update_snd: "snd ` set (AList.update k v xs) \<subseteq> insert v (snd ` set xs)"
  by (induction xs) auto

lemma journal_mutate_entries:
  "snd ` set (fst (journal_mutate rs src tomb base)) \<subseteq> set (rec_entries rs) \<union> snd ` set src"
proof (induction rs arbitrary: src tomb)
  case (Cons r rs)
  show ?case
  proof (cases r rule: rec_id.cases)
    case (1 e)
    show ?thesis unfolding 1 journal_mutate.simps rec_entries.simps
      by (rule order_trans [OF Cons.IH]) (use update_snd [of "e_ID e" e src] in auto)
  next
    case (3 i)
    have "snd ` set (AList.delete i src) \<subseteq> snd ` set src" by (auto simp: AList.delete_eq)
    then show ?thesis unfolding 3 journal_mutate.simps rec_entries.simps
      by (intro order_trans [OF Cons.IH]) auto
  qed (use Cons.IH [of src] in simp_all)
qed simp

text \<open>The overlay a journal leaves does not depend on the base; the tombstones only on its IDs.\<close>

lemma journal_mutate_base:
  assumes "in_base base1 = in_base base2"
  shows "journal_mutate rs src tomb base1 = journal_mutate rs src tomb base2"
proof (induction rs arbitrary: src tomb)
  case (Cons r rs)
  show ?case using Cons.IH by (cases r rule: rec_id.cases) (simp_all add: assms)
qed simp

lemma journal_mutate_src: "fst (journal_mutate rs src t1 base1) = fst (journal_mutate rs src t2 base2)"
proof (induction rs arbitrary: src t1 t2)
  case (Cons r rs)
  show ?case using Cons.IH by (cases r rule: rec_id.cases) simp_all
qed simp


subsection \<open>Appending\<close>

lemma set_journal_fields [simp]:
  "ls_l (set_journal bs ls) = ls_l ls" "ls_name (set_journal bs ls) = ls_name ls" "ls_damage (set_journal bs ls) = ls_damage ls"
  "ls_hashed (set_journal bs ls) = ls_hashed ls" "ls_disk (set_journal bs ls) = (ls_disk ls)\<lparr>d_journal := Some bs\<rparr>"
  by (simp_all add: set_journal_def)

lemma file_of_Some [simp]: "file_of (Some b) = b"
  by (simp add: file_of_def)

lemma append_success:
  assumes "appendJournal V io recs ls = (Inr j, ls1)"
  obtains buf where "ls_damage ls = damageNone" "journal_buf V recs = Inr buf"
    "j = length (file_of (d_journal (ls_disk ls)) @ buf)"
    "ls1 = (set_journal (file_of (d_journal (ls_disk ls)) @ buf) ls)\<lparr>ls_hashed := ls_hashed ls @ buf\<rparr>"
  using assms that
  by (auto simp: appendJournal_def Let_def set_journal_def roll_back_def split: if_splits sum.splits option.splits)

lemma roll_back_state:
  "\<exists>bs dm. roll_back io old frag (set_journal old ls) = ls\<lparr>ls_disk := (ls_disk ls)\<lparr>d_journal := Some bs\<rparr>, ls_damage := dm\<rparr>
    \<and> (dm = ls_damage ls \<and> bs = old \<or> dm = damageContent \<and> bs = old @ frag)"
proof (cases "ai_trunc io")
  case False
  have "set_journal old (set_journal old ls) = ls\<lparr>ls_disk := (ls_disk ls)\<lparr>d_journal := Some old\<rparr>, ls_damage := ls_damage ls\<rparr>"
    by (simp add: set_journal_def)
  then show ?thesis using False by (intro exI [of _ old] exI [of _ "ls_damage ls"]) (simp add: roll_back_def)
qed (auto simp: roll_back_def set_journal_def)

text \<open>A failed append changes the journal file alone, and either leaves its bytes or marks the list damaged; what it
  leaves behind is a prefix of the batch.\<close>

lemma append_failure:
  assumes "appendJournal V io recs ls = (Inl e, ls1)"
  obtains (failed) f dm where "ls1 = ls\<lparr>ls_disk := (ls_disk ls)\<lparr>d_journal := f\<rparr>, ls_damage := dm\<rparr>"
    "dm = ls_damage ls \<and> file_of f = file_of (d_journal (ls_disk ls))
     \<or> dm = damageContent \<and> ls_damage ls = damageNone
       \<and> (\<exists>buf n. journal_buf V recs = Inr buf \<and> file_of f = file_of (d_journal (ls_disk ls)) @ take n buf)"
proof (cases "ls1 = ls")
  case True
  then show ?thesis by (intro failed [where f = "d_journal (ls_disk ls)" and dm = "ls_damage ls"]) simp_all
next
  case False
  let ?old = "file_of (d_journal (ls_disk ls))"
  have d: "ls_damage ls = damageNone" using assms False by (auto simp: appendJournal_def split: if_splits)
  obtain buf where b: "journal_buf V recs = Inr buf" using assms False d by (auto simp: appendJournal_def split: sum.splits)
  have "ls1 = set_journal ?old ls \<or> (\<exists>n. ls1 = roll_back io ?old (take n buf) (set_journal ?old ls))
      \<or> ls1 = roll_back io ?old buf (set_journal ?old ls)"
    using assms False by (auto simp: appendJournal_def d b Let_def split: if_splits option.splits)
  then obtain n where "ls1 = set_journal ?old ls \<or> ls1 = roll_back io ?old (take n buf) (set_journal ?old ls)"
    by (metis order_refl take_all)
  then obtain bs dm where "ls1 = ls\<lparr>ls_disk := (ls_disk ls)\<lparr>d_journal := Some bs\<rparr>, ls_damage := dm\<rparr>"
    "dm = ls_damage ls \<and> bs = ?old \<or> dm = damageContent \<and> bs = ?old @ take n buf"
  proof (elim disjE)
    assume "ls1 = set_journal ?old ls"
    then show ?thesis by (intro that [where bs = ?old and dm = "ls_damage ls"]) (simp_all add: set_journal_def)
  qed (use roll_back_state [of io ?old "take n buf" ls] that in metis)
  then show ?thesis using d b by (intro failed [where f = "Some bs" and dm = dm]) auto
qed

lemma store_inv_Some:
  "ls_l ls = Some l \<Longrightarrow> store_inv V ls \<longleftrightarrow> mem_ok V l
     \<and> (ls_damage ls \<noteq> damageCreate \<longrightarrow> cfg_on_disk V (ls_name ls) l (ls_disk ls))
     \<and> (ls_damage ls = damageNone \<longrightarrow> files_agree V l (ls_hashed ls) (ls_disk ls))"
  by (simp add: store_inv_def)

lemma files_agree_disk:
  assumes "d_base d1 = d_base d" "file_of (d_journal d1) = file_of (d_journal d)"
  shows "files_agree V l h d1 = files_agree V l h d"
  unfolding files_agree_def base_on_disk_def journal_on_disk_def assms ..

lemma append_failure_inv:
  assumes "store_inv V ls" "appendJournal V io recs ls = (Inl e, ls1)" "ls_l ls = Some l"
  shows "store_inv V ls1 \<and> ls_l ls1 = Some l"
  using assms(2)
proof (rule append_failure)
  fix f dm
  assume s: "ls1 = ls\<lparr>ls_disk := (ls_disk ls)\<lparr>d_journal := f\<rparr>, ls_damage := dm\<rparr>"
    and d: "dm = ls_damage ls \<and> file_of f = file_of (d_journal (ls_disk ls))
     \<or> dm = damageContent \<and> ls_damage ls = damageNone
       \<and> (\<exists>buf n. journal_buf V recs = Inr buf \<and> file_of f = file_of (d_journal (ls_disk ls)) @ take n buf)"
  have l: "ls_l ls1 = Some l" by (simp add: s assms(3))
  have c: "cfg_on_disk V (ls_name ls1) l (ls_disk ls1) = cfg_on_disk V (ls_name ls) l (ls_disk ls)"
    unfolding s by simp (rule cfg_on_disk_cong; simp)
  have "store_inv V ls1"
    using assms(1) d files_agree_disk [of "ls_disk ls1" "ls_disk ls" V l "ls_hashed ls"]
    unfolding store_inv_Some [OF l] store_inv_Some [OF assms(3)] c by (auto simp: s)
  then show ?thesis using l by simp
qed

text \<open>The list after its running hash has been extended and the overlay committed.\<close>

lemma commit_fields [simp]:
  "l_cfg (commitOverlayAt b j l) = l_cfg l" "l_norm (commitOverlayAt b j l) = l_norm l"
  "l_cfgDigest (commitOverlayAt b j l) = l_cfgDigest l" "l_baseID (commitOverlayAt b j l) = l_baseID l"
  "l_jhash (commitOverlayAt b j l) = l_jhash l" "l_readOnly (commitOverlayAt b j l) = l_readOnly l"
  "l_overlaySrc (commitOverlayAt b j l) = ob_src b" "sn_base (l_snap (commitOverlayAt b j l)) = sn_base (l_snap l)"
  "sn_tombstones (l_snap (commitOverlayAt b j l)) = ob_tomb b" "sn_overlay (l_snap (commitOverlayAt b j l)) = ob_seg b"
  by (simp_all add: commitOverlayAt_def Let_def)

lemma hash_fields [simp]:
  "l_cfg (setJournalHash h l) = l_cfg l" "l_norm (setJournalHash h l) = l_norm l"
  "l_cfgDigest (setJournalHash h l) = l_cfgDigest l" "l_baseID (setJournalHash h l) = l_baseID l"
  "l_jhash (setJournalHash h l) = h" "l_readOnly (setJournalHash h l) = l_readOnly l"
  "l_overlaySrc (setJournalHash h l) = l_overlaySrc l" "l_snap (setJournalHash h l) = l_snap l"
  by (simp_all add: setJournalHash_def)

lemma commit_stamp:
  assumes "l_baseID l \<noteq> ''''" "l_jhash l = Some (journal_digest V hashed)"
  shows "sn_version (l_snap (commitOverlayAt b (int (length hashed)) l)) = store_stamp V (commitOverlayAt b (int (length hashed)) l) hashed"
  using assms by (simp add: commitOverlayAt_def store_stamp_def base_count_def Let_def)

lemma prepareOverlay_hash [simp]: "prepareOverlay E (setJournalHash h l) mut = prepareOverlay E l mut"
proof -
  have b: "buildSegment E (setJournalHash h l) = buildSegment E l" by (rule ext) (rule buildSegment_keys; simp)
  show ?thesis unfolding prepareOverlay_def hash_fields b ..
qed


lemma baseID_set:
  assumes "sha_ok V" "base_on_disk V l d"
  shows "l_baseID l \<noteq> ''''"
  using assms by (cases "sn_base (l_snap l)") (simp_all add: base_on_disk_def sha_ok_def, metis)

lemma commit_mem_ok:
  assumes m: "mem_ok V l" and p: "prepareOverlay (sv_E V) l (journal_mutate recs) = Inr b"
    and st: "\<forall>e \<in> set (rec_entries recs). entry_stable V e"
  shows "mem_ok V (commitOverlayAt b j l)" "view (commitOverlayAt b j l) = journal_spec recs (view l)"
proof -
  obtain src tomb where mu: "journal_mutate recs (l_overlaySrc l) (sn_tombstones (l_snap l)) (sn_base (l_snap l)) = (src, tomb)"
    by force
  note b = prepareOverlay_Inr [OF p mu]
  have li: "list_inv l" using m by (simp add: mem_ok_def)
  note v = overlay_op_view [OF li journal_mutate_view p]
  show "view (commitOverlayAt b j l) = journal_spec recs (view l)" by (rule v(2))
  have ne: "src \<noteq> []" if "ob_seg b = Some ov" for ov
    using p that by (auto simp: prepareOverlay_def mu Let_def sorted_by_id_def)
  have "snd ` set src \<subseteq> set (rec_entries recs) \<union> snd ` set (l_overlaySrc l)"
    using journal_mutate_entries [of recs "l_overlaySrc l" "sn_tombstones (l_snap l)" "sn_base (l_snap l)"] by (simp add: mu)
  moreover have "\<forall>e \<in> snd ` set (l_overlaySrc l). entry_stable V e" using m unfolding mem_ok_def by (elim conjE)
  ultimately have "\<forall>e \<in> snd ` set src. entry_stable V e" using st by blast
  moreover have "buildSegment (sv_E V) (commitOverlayAt b j l) = buildSegment (sv_E V) l"
    by (rule ext) (rule buildSegment_keys; simp)
  ultimately show "mem_ok V (commitOverlayAt b j l)"
    using m v(1) [of j] b ne by (auto simp: mem_ok_def split: option.splits)
qed

lemma commit_files:
  assumes "sha_ok V" "files_agree V l hashed d" "journal_buf V recs = Inr buf" "\<forall>r \<in> set recs. rec_stable V r"
      "\<forall>e \<in> set (rec_entries recs). entry_stable V e"
    and p: "prepareOverlay (sv_E V) l (journal_mutate recs) = Inr b"
    and d: "d_base d1 = d_base d" "file_of (d_journal d1) = file_of (d_journal d) @ buf"
  defines "l1 \<equiv> commitOverlayAt b (int (length (hashed @ buf))) (setJournalHash (Some (journal_digest V (hashed @ buf))) l)"
  shows "files_agree V l1 (hashed @ buf) d1"
proof -
  obtain rs where rs: "journal_on_disk V l rs hashed d" and bd: "base_on_disk V l d" using assms(2) by (auto simp: files_agree_def)
  obtain src tomb where mu: "journal_mutate recs (l_overlaySrc l) (sn_tombstones (l_snap l)) (sn_base (l_snap l)) = (src, tomb)"
    by force
  note b = prepareOverlay_Inr [OF p mu]
  have "sn_version (l_snap l1) = store_stamp V l1 (hashed @ buf)"
    unfolding l1_def using commit_stamp [of "setJournalHash (Some (journal_digest V (hashed @ buf))) l" V "hashed @ buf" b]
      baseID_set [OF assms(1) bd] by simp
  moreover have "journal_mutate (rs @ recs) [] {} (sn_base (l_snap l)) = (src, tomb)"
    using rs by (simp add: journal_on_disk_def journal_mutate_append mu)
  moreover have "journal_buf V (rs @ recs) = Inr (hashed @ buf)"
    unfolding journal_buf_append using rs assms(3) by (auto simp: journal_on_disk_def)
  ultimately have "journal_on_disk V l1 (rs @ recs) (hashed @ buf) d1"
    using rs assms(4,5) d(2) b(1,2) unfolding journal_on_disk_def by (auto simp: l1_def rec_entries_append)
  moreover have "base_on_disk V l1 d1" using bd d(1) by (simp add: base_on_disk_def l1_def cong: option.case_cong)
  ultimately show ?thesis by (auto simp: files_agree_def)
qed

lemma journalled_ok:
  assumes inv: "store_inv V ls" and sha: "sha_ok V" and rs: "\<forall>r \<in> set recs. rec_stable V r"
    and es: "\<forall>e \<in> set (rec_entries recs). entry_stable V e"
    and r: "journalled V io (\<lambda>l. prepareOverlay (sv_E V) l (journal_mutate recs)) recs ls = (r, ls1)"
  shows "store_inv V ls1 \<and> (r \<noteq> None \<longrightarrow> ls_l ls1 = ls_l ls)
    \<and> (r = None \<longrightarrow> map_option view (ls_l ls1) = map_option (journal_spec recs) (map_option view (ls_l ls)))"
proof (cases "ls_l ls")
  case None
  then show ?thesis using r inv by (auto simp: journalled_def)
next
  case (Some l)
  note i = inv [unfolded store_inv_Some [OF Some]]
  show ?thesis
  proof (cases "prepareOverlay (sv_E V) l (journal_mutate recs)")
    case (Inl e)
    then show ?thesis using r inv by (auto simp: journalled_def Some)
  next
    case p: (Inr b)
    obtain res ls2 where a: "appendJournal V io recs ls = (res, ls2)" by force
    show ?thesis
    proof (cases res)
      case (Inl e)
      then show ?thesis using r append_failure_inv [OF inv _ Some] a by (auto simp: journalled_def Some p)
    next
      case (Inr j)
      obtain buf where ap: "ls_damage ls = damageNone" "journal_buf V recs = Inr buf"
          "j = length (file_of (d_journal (ls_disk ls)) @ buf)"
          "ls2 = (set_journal (file_of (d_journal (ls_disk ls)) @ buf) ls)\<lparr>ls_hashed := ls_hashed ls @ buf\<rparr>"
        by (rule append_success [OF a [unfolded Inr]])
      have fa: "files_agree V l (ls_hashed ls) (ls_disk ls)" using i ap(1) by simp
      then obtain rs0 where rs0: "journal_on_disk V l rs0 (ls_hashed ls) (ls_disk ls)" by (auto simp: files_agree_def)
      define l0 where "l0 = setJournalHash (Some (journal_digest V (ls_hashed ls @ buf))) l"
      define l1 where "l1 = commitOverlayAt b (int j) l0"
      have old: "file_of (d_journal (ls_disk ls)) = ls_hashed ls" using rs0 by (simp add: journal_on_disk_def)
      have "with_hash V (ls_hashed ls2) l = l0" using rs0 by (simp add: with_hash_def journal_on_disk_def ap(4) l0_def)
      then have ls1: "ls1 = ls2\<lparr>ls_l := Some l1\<rparr>" "r = None"
        using r by (simp_all add: journalled_def Some p a Inr l1_def)
      have l: "ls_l ls1 = Some l1" by (simp add: ls1)
      have m0: "mem_ok V l0" using i mem_ok_cong [of l0 l V] by (simp add: l0_def)
      have p0: "prepareOverlay (sv_E V) l0 (journal_mutate recs) = Inr b" by (simp add: l0_def p)
      have v0: "view l0 = view l" by (rule same_view) (simp_all add: l0_def)
      have "files_agree V l1 (ls_hashed ls1) (ls_disk ls1)"
        using commit_files [OF sha fa ap(2) rs es p, of "ls_disk ls1"] by (simp add: l1_def l0_def ls1 ap(3,4) old)
      moreover have "cfg_on_disk V (ls_name ls1) l1 (ls_disk ls1)"
        using i ap(1) cfg_on_disk_cong [of l1 l "ls_disk ls1" "ls_disk ls"] by (simp add: l1_def l0_def ls1 ap(4))
      ultimately have "store_inv V ls1"
        using commit_mem_ok(1) [OF m0 p0 es, of "int j"] unfolding store_inv_Some [OF l] l1_def [symmetric] by simp
      then show ?thesis using commit_mem_ok(2) [OF m0 p0 es, of "int j"] ls1(2) l v0 Some by (simp add: l1_def)
    qed
  qed
qed


subsection \<open>Rewriting the base\<close>

lemma saveArtifact_disk [simp]:
  "d_marker (saveArtifact V f l seg d) = d_marker d" "d_config (saveArtifact V f l seg d) = d_config d"
  "d_base (saveArtifact V f l seg d) = d_base d" "d_journal (saveArtifact V f l seg d) = d_journal d"
  by (simp_all add: saveArtifact_def Let_def split: option.splits)

lemma persistBase_disk:
  assumes "persistBase V io es d = (res, pub, d1)"
  shows "d_marker d1 = d_marker d" "d_config d1 = d_config d" "d_journal d1 = d_journal d"
    "\<not> pub \<Longrightarrow> d_base d1 = d_base d" "pub \<Longrightarrow> \<exists>buf. base_buf V es = Inr buf \<and> d_base d1 = Some buf"
    "res = Inr bid \<Longrightarrow> \<exists>buf. base_buf V es = Inr buf \<and> bid = sv_sha V buf \<and> d_base d1 = Some buf"
  using assms by (auto simp: persistBase_def Let_def split: sum.splits if_splits)

lemma truncate_disk:
  assumes "truncate_journal io d = (ok, d1)"
  shows "d_marker d1 = d_marker d" "d_config d1 = d_config d" "d_base d1 = d_base d"
    "ok \<Longrightarrow> file_of (d_journal d1) = []" "\<not> ok \<Longrightarrow> d_journal d1 = d_journal d \<or> file_of (d_journal d1) = []"
  using assms by (auto simp: truncate_journal_def file_of_def split: option.splits if_splits)

text \<open>What an acknowledged rewrite leaves in memory.\<close>

definition fresh_base :: "string \<Rightarrow> 'b segment \<Rightarrow> 'b klist \<Rightarrow> 'b klist \<Rightarrow> bool" where
  "fresh_base bid seg l l1 \<longleftrightarrow> l_cfg l1 = l_cfg l \<and> l_norm l1 = l_norm l \<and> l_cfgDigest l1 = l_cfgDigest l
     \<and> l_readOnly l1 = l_readOnly l \<and> l_baseID l1 = bid \<and> l_jhash l1 = l_jhash l \<and> l_overlaySrc l1 = []
     \<and> l_snap l1 = \<lparr>sn_base = Some seg, sn_overlay = None, sn_tombstones = {},
         sn_version = bid @ ''@'' @ show_nat (length (sg_entries seg)) @ ''+j0+c'' @ l_cfgDigest l\<rparr>"

lemma replace_fresh:
  "\<not> l_readOnly l \<Longrightarrow> bid \<noteq> '''' \<Longrightarrow> fresh_base bid seg l (installBase seg (SetBaseID bid l))"
  by (simp add: fresh_base_def installBase_def SetBaseID_def ignoreReadOnly_def baseStamp_def Let_def)

lemma compact_fresh:
  "\<not> l_readOnly l \<Longrightarrow> sg_entries (cb_seg b) = cb_live b \<Longrightarrow> fresh_base bid (cb_seg b) l (CommitCompact b bid l)"
  by (simp add: fresh_base_def CommitCompact_def ignoreReadOnly_def)

lemma fresh_base_mem:
  assumes f: "fresh_base bid seg l l1" and s: "seg_inv seg" "sg_entries seg = es"
    and b: "buildSegment (sv_E V) l es = Inr sg" and st: "\<forall>e \<in> set es. entry_stable V e" and ro: "\<not> l_readOnly l"
  shows "mem_ok V l1" "view l1 = idmap es"
proof -
  note k = f [unfolded fresh_base_def]
  have "buildSegment (sv_E V) l1 es = Inr sg" using b buildSegment_keys [of l1 l "sv_E V" es] k by simp
  moreover have "list_inv l1" "view l1 = idmap es" using base_fresh [OF s(1), of l1] k s(2) by simp_all
  ultimately show "mem_ok V l1" "view l1 = idmap es" using k st ro s(2) by (simp_all add: mem_ok_def)
qed

lemma show_nat_0: "show_nat 0 = ''0''"
  by code_simp

lemma fresh_base_files:
  assumes f: "fresh_base bid seg l l1" and j: "l_jhash l = Some (journal_digest V [])"
    and b: "base_buf V (sg_entries seg) = Inr buf" "bid = sv_sha V buf" "d_base d = Some buf" "file_of (d_journal d) = []"
  shows "files_agree V l1 [] d"
proof -
  note k = f [unfolded fresh_base_def]
  have "journal_on_disk V l1 [] [] d"
    using k j b(4) by (simp add: journal_on_disk_def store_stamp_def base_count_def show_nat_0)
  moreover have "base_on_disk V l1 d" using k b by (simp add: base_on_disk_def)
  ultimately show ?thesis by (auto simp: files_agree_def)
qed

lemma rebuilt_ok:
  assumes inv: "store_inv V ls" and sha: "sha_ok V" and l: "ls_l ls = Some l" and dm: "ls_damage ls \<noteq> damageCreate"
    and b: "buildSegment (sv_E V) l es = Inr seg" "distinct (map e_ID es)" "\<forall>e \<in> set es. entry_stable V e"
    and fr: "\<forall>bid. bid \<noteq> '''' \<longrightarrow> fresh_base bid seg (setJournalHash (Some (journal_digest V [])) l) (install bid (setJournalHash (Some (journal_digest V [])) l))"
    and r: "rebuilt V io es seg install l ls = (r, ls1)"
  shows "store_inv V ls1 \<and> (r \<noteq> None \<longrightarrow> ls_l ls1 = ls_l ls) \<and> (r = None \<longrightarrow> map_option view (ls_l ls1) = Some (idmap es))"
proof -
  note i = inv [unfolded store_inv_Some [OF l]]
  obtain res pub d where p: "persistBase V io es (ls_disk ls) = (res, pub, d)" by (metis prod_cases3)
  note pd = persistBase_disk [OF p]
  have cfg: "cfg_on_disk V (ls_name ls) l1 d1"
    if "l_cfg l1 = l_cfg l" "l_norm l1 = l_norm l" "l_cfgDigest l1 = l_cfgDigest l" "d_marker d1 = d_marker d" "d_config d1 = d_config d" for l1 d1
    using that i dm cfg_on_disk_cong [of l1 l d1 "ls_disk ls"] pd(1,2) by simp
  show ?thesis
  proof (cases res)
    case (Inl e)
    then have ls1: "ls1 = ls\<lparr>ls_disk := d, ls_damage := (if pub then damageContent else ls_damage ls)\<rparr>" "r = Some e"
      using r by (simp_all add: rebuilt_def p)
    have l1: "ls_l ls1 = Some l" by (simp add: ls1 l)
    have "store_inv V ls1" unfolding store_inv_Some [OF l1]
      using i cfg [of l d] files_agree_disk [of d "ls_disk ls" V l "ls_hashed ls"] pd(3,4) by (cases pub) (simp_all add: ls1)
    then show ?thesis by (simp add: ls1)
  next
    case (Inr bid)
    obtain buf where buf: "base_buf V es = Inr buf" "bid = sv_sha V buf" "d_base d = Some buf" using pd(6) [OF Inr] by blast
    obtain ok d1 where t: "truncate_journal io d = (ok, d1)" by force
    note td = truncate_disk [OF t]
    show ?thesis
    proof (cases ok)
      case False
      then have ls1: "ls1 = ls\<lparr>ls_disk := d1, ls_damage := damageContent\<rparr>" "r = Some IOFailed" using r by (simp_all add: rebuilt_def p Inr t)
      have l1: "ls_l ls1 = Some l" by (simp add: ls1 l)
      have "store_inv V ls1" unfolding store_inv_Some [OF l1] using i cfg [of l d1] td by (simp add: ls1)
      then show ?thesis by (simp add: ls1)
    next
      case True
      define l0 where "l0 = setJournalHash (Some (journal_digest V [])) l"
      define l1 where "l1 = install bid l0"
      define d2 where "d2 = saveArtifact V (ri_save io) l1 seg d1"
      have ls1: "ls1 = ls\<lparr>ls_l := Some l1, ls_damage := damageNone, ls_hashed := [], ls_disk := d2\<rparr>" "r = None"
        using r True by (simp_all add: rebuilt_def p Inr t Let_def l1_def l0_def d2_def)
      have lx: "ls_l ls1 = Some l1" by (simp add: ls1)
      have f: "fresh_base bid seg l0 l1" using fr sha buf(2) by (simp add: l0_def l1_def sha_ok_def)
      have b0: "buildSegment (sv_E V) l0 es = Inr seg" using b(1) buildSegment_keys [of l0 l "sv_E V" es] by (simp add: l0_def)
      have ro: "\<not> l_readOnly l0" using i by (simp add: mem_ok_def l0_def)
      note m = fresh_base_mem [OF f buildSegment_inv [OF b0 b(2)] b0 b(3) ro]
      have "files_agree V l1 [] d2"
        by (rule fresh_base_files [OF f]) (use buf td True buildSegment_inv(2) [OF b(1,2)] in \<open>simp_all add: d2_def l0_def\<close>)
      moreover have "cfg_on_disk V (ls_name ls) l1 d2"
        by (rule cfg) (use f td in \<open>simp_all add: fresh_base_def l0_def d2_def\<close>)
      ultimately have "store_inv V ls1" unfolding store_inv_Some [OF lx] using m(1) by (simp add: ls1)
      then show ?thesis using m(2) by (simp add: ls1)
    qed
  qed
qed

lemma live_entries_from:
  "set (liveEntries l) \<subseteq> (case sn_base (l_snap l) of None \<Rightarrow> {} | Some seg \<Rightarrow> set (sg_entries seg)) \<union> snd ` set (l_overlaySrc l)"
  by (auto simp: liveEntries_def sorted_by_id_def split: option.splits)

lemma live_stable: "mem_ok V l \<Longrightarrow> e \<in> set (liveEntries l) \<Longrightarrow> entry_stable V e"
  using live_entries_from [of l] by (cases "sn_base (l_snap l)") (auto simp: mem_ok_def)

lemma replace_ok:
  assumes inv: "store_inv V ls" and sha: "sha_ok V" and st: "\<forall>e \<in> set es. entry_stable V e"
    and r: "ReplaceVersioned V io es ls = (r, ls1)"
  shows "store_inv V ls1 \<and> (r \<noteq> None \<longrightarrow> ls_l ls1 = ls_l ls)
    \<and> (r = None \<longrightarrow> map_option view (ls_l ls1) = Some (puts es Map.empty) \<and> ls_l ls \<noteq> None)"
proof (cases "ls_l ls")
  case None
  then show ?thesis using r inv by (auto simp: ReplaceVersioned_def)
next
  case (Some l)
  show ?thesis
  proof (cases "ls_damage ls = damageCreate \<or> (\<exists>e. buildSegment (sv_E V) l (dedupeLastWins es) = Inl e)")
    case True
    then have "ls1 = ls \<and> r \<noteq> None" using r by (auto simp: ReplaceVersioned_def Some prepareBase_def Let_def split: if_splits)
    then show ?thesis using inv by auto
  next
    case False
    then obtain seg where b: "buildSegment (sv_E V) l (dedupeLastWins es) = Inr seg" by (meson old.sum.exhaust)
    have e: "\<forall>e \<in> set (dedupeLastWins es). entry_stable V e" using st keep_final_set(1) [of es] by (auto simp: dedupe_eq)
    have ro: "\<not> l_readOnly l" using inv by (simp add: store_inv_Some [OF Some] mem_ok_def)
    have "rebuilt V io (dedupeLastWins es) seg (\<lambda>bid l. installBase seg (SetBaseID bid l)) l ls = (r, ls1)"
      using r False by (simp add: ReplaceVersioned_def Some prepareBase_def Let_def b)
    from rebuilt_ok [OF inv sha Some _ b dedupe_idmap(2) e _ this] show ?thesis
      using False ro by (simp add: replace_fresh dedupe_idmap Some)
  qed
qed

lemma compact_ok:
  assumes inv: "store_inv V ls" and sha: "sha_ok V" and r: "CompactVersioned V io ls = (r, ls1)"
  shows "store_inv V ls1 \<and> map_option view (ls_l ls1) = map_option view (ls_l ls)"
proof (cases "ls_l ls")
  case None
  then show ?thesis using r inv by (auto simp: CompactVersioned_def)
next
  case (Some l)
  note i = inv [unfolded store_inv_Some [OF Some]]
  have ro: "\<not> l_readOnly l" and li: "list_inv l" using i by (simp_all add: mem_ok_def)
  have P: "PrepareCompact (sv_E V) l = ((case buildSegment (sv_E V) l (liveEntries l) of Inl e \<Rightarrow> Inl e
      | Inr seg \<Rightarrow> Inr \<lparr>cb_live = liveEntries l, cb_seg = seg\<rparr>), l)"
    using ro by (simp add: PrepareCompact_def refuseReadOnly_def ignoreReadOnly_def Let_def split: sum.splits)
  show ?thesis
  proof (cases "ls_damage ls = damageCreate \<or> (\<exists>e. buildSegment (sv_E V) l (liveEntries l) = Inl e)")
    case True
    then have "ls1 = ls" using r by (auto simp: CompactVersioned_def Some P split: if_splits)
    then show ?thesis using inv by simp
  next
    case False
    then obtain seg where b: "buildSegment (sv_E V) l (liveEntries l) = Inr seg" by (meson old.sum.exhaust)
    note lv = live_view [OF li]
    have e: "\<forall>e \<in> set (liveEntries l). entry_stable V e" using i live_stable by blast
    have "rebuilt V io (liveEntries l) seg (CommitCompact \<lparr>cb_live = liveEntries l, cb_seg = seg\<rparr>) l ls = (r, ls1)"
      using r False by (simp add: CompactVersioned_def Some P b)
    from rebuilt_ok [OF inv sha Some _ b lv(1) e _ this] show ?thesis
      using False ro buildSegment_inv(2) [OF b lv(1)] compact_fresh [of _ "\<lparr>cb_live = liveEntries l, cb_seg = seg\<rparr>"]
      by (cases r) (simp_all add: lv(3) Some)
  qed
qed

end
