(* ===== verification/Store_Open.thy ===== *)
theory Store_Open
  imports Store_Recovery
begin

text \<open>
  Opening a list directory. Whatever way the base index comes about (cached artifact or full build), the list opened
  from a readable base and a journal with a possibly torn tail holds the base entries with the intact records
  applied, and its files agree with it.
\<close>

definition reads_ok :: "open_io \<Rightarrow> bool" where
  "reads_ok io \<longleftrightarrow> \<not> oi_config io \<and> \<not> oi_base io \<and> \<not> oi_journal io \<and> \<not> oi_hash io"

definition disk_base :: "'b store_env \<Rightarrow> entry list \<Rightarrow> disk \<Rightarrow> bool" where
  "disk_base V es d \<longleftrightarrow> d_base d = None \<and> es = [] \<or> (\<exists>buf. base_buf V es = Inr buf \<and> d_base d = Some buf)"

definition base_entries :: "'b klist \<Rightarrow> entry list option" where
  "base_entries l = map_option sg_entries (sn_base (l_snap l))"

definition overlay_builds :: "'b store_env \<Rightarrow> 'b klist \<Rightarrow> journal_rec list \<Rightarrow> bool" where
  "overlay_builds V l recs \<longleftrightarrow>
     (let src = fst (journal_mutate recs [] {} (None :: 'b segment option))
      in src = [] \<or> (\<exists>ov. buildSegment (sv_E V) l (sorted_by_id (map snd src)) = Inr ov))"

lemma dedupe_distinct: "distinct (map e_ID es) \<Longrightarrow> dedupeLastWins es = es"
  by (simp add: dedupeLastWins_def)

subsection \<open>The base\<close>

lemma prebuilt_installed:
  assumes "prebuilt_segment (dedupeLastWins es) ng ex bi n = Inr seg" "distinct (map e_ID es)"
  shows "seg_inv seg \<and> sg_entries seg = es"
  using prebuilt_inv [OF assms(1) dedupe_idmap(2)] dedupe_distinct [OF assms(2)] by simp

lemma indexes_installed:
  assumes "\<not> l_readOnly l" "distinct (map e_ID es)" "ReplaceWithIndexesInfo es ix c bi l = (None, l1)"
  shows "\<exists>seg. l1 = installBase seg l \<and> seg_inv seg \<and> sg_entries seg = es"
  using ReplaceWithIndexesInfo_cases [OF assms(1,3)] prebuilt_installed [OF _ assms(2)] by blast

lemma artifact_installed:
  assumes ro: "\<not> l_readOnly l" and d: "distinct (map e_ID es)" and i: "installWithArtifact V l es idx = Some l1"
  shows "\<exists>seg. l1 = installBase seg l \<and> seg_inv seg \<and> sg_entries seg = es"
proof -
  consider ix bi where "ReplaceWithExactIndexInfo es ix bi l = (None, l1)"
    | ix bi where "ReplaceWithIndexInfo (sv_E V) es ix bi l = (None, l1)"
    using i by (auto simp: installWithArtifact_def Let_def split: option.splits if_splits sum.splits prod.splits)
  then show ?thesis
  proof cases
    case 1
    then show ?thesis using ReplaceWithExactIndexInfo_cases [OF ro 1] prebuilt_installed [OF _ d] by blast
  next
    case 2
    from ro 2 show ?thesis
      by (cases rule: ReplaceWithIndexInfo_cases)
        (use indexes_installed [OF ro d] dedupe_distinct [OF d] in simp_all)
  qed
qed

lemma open_base_ok:
  assumes ro: "\<not> l_readOnly l" and bid: "bid \<noteq> ''''" and d: "distinct (map e_ID es)" and b: "buildSegment (sv_E V) l es = Inr sg"
  shows "\<exists>l1 d1 seg. open_base V io (Some (es, bid)) l dk = Inr (l1, d1) \<and> fresh_base bid seg l l1 \<and> seg_inv seg \<and> sg_entries seg = es
    \<and> d_marker d1 = d_marker dk \<and> d_config d1 = d_config dk \<and> d_base d1 = d_base dk \<and> d_journal d1 = d_journal dk"
proof -
  define l0 where "l0 = SetBaseID bid l"
  have l0: "\<not> l_readOnly l0" "buildSegment (sv_E V) l0 es = Inr sg"
    using ro b buildSegment_keys [of l0 l "sv_E V" es] by (simp_all add: l0_def SetBaseID_def ignoreReadOnly_def)
  have fr: "fresh_base bid seg l (installBase seg l0)" for seg using replace_fresh [OF ro bid] by (simp add: l0_def)
  show ?thesis
  proof (cases "installWithArtifact V l0 es (d_idx dk)")
    case (Some l1)
    then show ?thesis using artifact_installed [OF l0(1) d Some] fr by (auto simp: open_base_def Let_def l0_def)
  next
    case None
    have "Replace (sv_E V) es l0 = (None, installBase sg l0)"
      by (simp add: Replace_def guarded_passes [OF l0(1)] prepareBase_def dedupe_distinct [OF d] l0(2) Let_def)
    moreover have "sn_base (l_snap (installBase sg l0)) = Some sg" by (simp add: installBase_def Let_def)
    ultimately show ?thesis
      using None fr [of sg] buildSegment_inv [OF b d] by (auto simp: open_base_def Let_def l0_def)
  qed
qed

subsection \<open>The journal\<close>

lemma prepareOverlay_builds:
  assumes "overlay_builds V l recs" "l_overlaySrc l = []"
  shows "\<exists>b. prepareOverlay (sv_E V) l (journal_mutate recs) = Inr b"
proof -
  obtain src tomb where m: "journal_mutate recs [] (sn_tombstones (l_snap l)) (sn_base (l_snap l)) = (src, tomb)" by force
  then have "fst (journal_mutate recs [] {} (None :: 'a segment option)) = src"
    using journal_mutate_src [of recs "[]" "{}" None "sn_tombstones (l_snap l)" "sn_base (l_snap l)"] by simp
  then have "src = [] \<or> (\<exists>ov. buildSegment (sv_E V) l (sorted_by_id (map snd src)) = Inr ov)"
    using assms(1) by (simp add: overlay_builds_def Let_def)
  then show ?thesis
    by (auto simp: prepareOverlay_def assms(2) m Let_def sorted_by_id_def)
qed

lemma overlay_builds_cong:
  assumes "l_cfg l1 = l_cfg l" "l_norm l1 = l_norm l"
  shows "overlay_builds V l1 recs = overlay_builds V l recs"
  unfolding overlay_builds_def buildSegment_keys [OF assms] ..

lemma hash_twice: "setJournalHash h1 (setJournalHash h2 l) = setJournalHash h1 l"
  by (simp add: setJournalHash_def)

lemma open_journal_ok:
  assumes sha: "sha_ok V" and io: "reads_ok io" and m: "mem_ok V l" "l_overlaySrc l = []" "sn_tombstones (l_snap l) = {}"
    and bd: "base_on_disk V l d" and ver: "sn_version (l_snap l) = store_stamp V l []"
    and jr: "readJournal V (d_journal d) = (recs, t)" "journal_buf V recs = Inr b0"
      "t = None \<and> file_of (d_journal d) = b0 \<or> t = Some (length b0) \<and> take (length b0) (file_of (d_journal d)) = b0 \<and> \<not> oi_truncate io"
    and st: "\<forall>r \<in> set recs. rec_stable V r" "\<forall>e \<in> set (rec_entries recs). entry_stable V e" and ob: "overlay_builds V l recs"
  shows "\<exists>l1 d1. open_journal V io l d = (Inr (l1, b0), d1) \<and> mem_ok V l1 \<and> files_agree V l1 b0 d1
    \<and> view l1 = journal_spec recs (view l) \<and> sn_base (l_snap l1) = sn_base (l_snap l)
    \<and> journal_mutate recs [] {} (sn_base (l_snap l)) = (l_overlaySrc l1, sn_tombstones (l_snap l1))
    \<and> l_cfg l1 = l_cfg l \<and> l_norm l1 = l_norm l \<and> l_cfgDigest l1 = l_cfgDigest l \<and> l_baseID l1 = l_baseID l
    \<and> d_marker d1 = d_marker d \<and> d_config d1 = d_config d \<and> d_base d1 = d_base d \<and> file_of (d_journal d1) = b0"
proof -
  define d1 where "d1 = (case t of None \<Rightarrow> d | Some n \<Rightarrow> d\<lparr>d_journal := Some (take n (file_of (d_journal d)))\<rparr>)"
  define l0 where "l0 = setJournalHash (Some (journal_digest V b0)) l"
  have dd: "file_of (d_journal d1) = b0" "d_base d1 = d_base d" "d_marker d1 = d_marker d" "d_config d1 = d_config d"
    using jr(3) by (auto simp: d1_def)
  have m0: "mem_ok V l0" using m mem_ok_cong [of l0 l V] by (simp add: l0_def)
  have v0: "view l0 = view l" by (rule same_view) (simp_all add: l0_def)
  have oj: "open_journal V io l d = (if recs = [] then (Inr (l0, b0), d1)
      else case applyJournal (sv_E V) recs (int (length b0)) l0 of (None, l2) \<Rightarrow> (Inr (l2, b0), d1)
        | (Some _, _) \<Rightarrow> if oi_rename io then (Inl IOFailed, d1\<lparr>d_quarantined := None\<rparr>)
            else (Inr (setJournalHash (Some (journal_digest V [])) l0, []), d1\<lparr>d_quarantined := d_journal d1, d_journal := None\<rparr>))"
    using io jr(3) unfolding open_journal_def jr(1) d1_def [symmetric] Let_def prod.case dd(1) l0_def [symmetric] by (auto simp: reads_ok_def)
  have fa: "files_agree V (setJournalHash (Some (journal_digest V [])) l) [] (d\<lparr>d_journal := Some []\<rparr>)"
    using bd m ver by (auto simp: files_agree_def base_on_disk_def journal_on_disk_def store_stamp_def base_count_def
      intro!: exI [of _ "[]"] split: option.splits)
  show ?thesis
  proof (cases "recs = []")
    case True
    then have b0: "b0 = []" using jr(2) by simp
    have "files_agree V l0 [] d1"
      using fa files_agree_disk [of d1 "d\<lparr>d_journal := Some []\<rparr>" V l0] dd b0 by (simp add: l0_def)
    then show ?thesis using m m0 v0 dd by (simp add: oj True b0 l0_def)
  next
    case False
    obtain b where p: "prepareOverlay (sv_E V) l0 (journal_mutate recs) = Inr b"
      using prepareOverlay_builds [of V l0 recs] ob overlay_builds_cong [of l0 l V recs] m(2) by (auto simp: l0_def)
    define l1 where "l1 = commitOverlayAt b (int (length b0)) l0"
    have "files_agree V l1 b0 d1"
      using commit_files [OF sha fa jr(2) st, of b d1] p dd by (simp add: l1_def l0_def hash_twice)
    moreover have "journal_mutate recs [] {} (sn_base (l_snap l)) = (ob_src b, ob_tomb b)"
      using prepareOverlay_Inr(1,2) [OF p] m by (metis hash_fields(7,8) l0_def prod.exhaust)
    moreover note commit_mem_ok [OF m0 p st(2), of "int (length b0)", folded l1_def]
    moreover have "open_journal V io l d = (Inr (l1, b0), d1)" by (simp add: oj False applyJournal_def p l1_def)
    ultimately show ?thesis using v0 dd by (simp add: l1_def l0_def)
  qed
qed


subsection \<open>The whole directory\<close>

lemma new_list_fields:
  assumes "new_list T sha marsh name cfg = Inr l"
  shows "l_overlaySrc l = []" "l_snap l = \<lparr>sn_base = None, sn_overlay = None, sn_tombstones = {}, sn_version = ''empty@0''\<rparr>" "\<not> l_readOnly l"
  using assms by (auto simp: new_list_def split: sum.splits)

lemma stampFresh_ok:
  assumes "\<not> l_readOnly l" "l_overlaySrc l = []"
  defines "l1 \<equiv> stampFresh (SetBaseID ''empty'' l)"
  shows "mem_ok V l1" "view l1 = Map.empty" "l_overlaySrc l1 = []" "sn_tombstones (l_snap l1) = {}" "sn_base (l_snap l1) = None"
    "l_baseID l1 = ''empty''" "sn_version (l_snap l1) = store_stamp V l1 []" "l_cfg l1 = l_cfg l" "l_norm l1 = l_norm l"
    "l_cfgDigest l1 = l_cfgDigest l"
  using assms by (simp_all add: stampFresh_def SetBaseID_def ignoreReadOnly_def mem_ok_def list_inv_def tomb_ok_def view_def
      snap_view_def seg_map_def store_stamp_def base_count_def baseStamp_def show_nat_0)

lemma opened_base:
  assumes sha: "sha_ok V" and io: "\<not> oi_base io" and l0: "\<not> l_readOnly l0" "l_overlaySrc l0 = []"
    and db: "disk_base V es d" "distinct (map e_ID es)" "\<forall>e \<in> set es. entry_stable V e"
      "d_base d \<noteq> None \<longrightarrow> (\<exists>sg. buildSegment (sv_E V) l0 es = Inr sg)"
  shows "\<exists>base l1 d1. readBase V (d_base d) = Inr base \<and> open_base V io base l0 d = Inr (l1, d1) \<and> mem_ok V l1
    \<and> l_overlaySrc l1 = [] \<and> sn_tombstones (l_snap l1) = {} \<and> base_on_disk V l1 d1 \<and> sn_version (l_snap l1) = store_stamp V l1 []
    \<and> view l1 = idmap es \<and> base_entries l1 = (if d_base d = None then None else Some es)
    \<and> l_cfg l1 = l_cfg l0 \<and> l_norm l1 = l_norm l0 \<and> l_cfgDigest l1 = l_cfgDigest l0
    \<and> d_marker d1 = d_marker d \<and> d_config d1 = d_config d \<and> d_base d1 = d_base d \<and> d_journal d1 = d_journal d"
proof (cases "d_base d")
  case None
  note s = stampFresh_ok [OF l0]
  show ?thesis
    using s db(1) by (simp add: None readBase_def open_base_def base_on_disk_def base_entries_def disk_base_def idmap_def)
next
  case (Some buf)
  have buf: "base_buf V es = Inr buf" using db(1) Some by (auto simp: disk_base_def)
  have rb: "readBase V (d_base d) = Inr (Some (es, sv_sha V buf))"
    using base_read_all [OF buf db(3), of "[]"] by (simp add: readBase_def Some)
  obtain sg where sg: "buildSegment (sv_E V) l0 es = Inr sg" using db(4) Some by blast
  have bid: "sv_sha V buf \<noteq> ''''" using sha by (simp add: sha_ok_def)
  obtain l1 d1 seg where o: "open_base V io (Some (es, sv_sha V buf)) l0 d = Inr (l1, d1)" "fresh_base (sv_sha V buf) seg l0 l1"
      "seg_inv seg" "sg_entries seg = es" "d_marker d1 = d_marker d" "d_config d1 = d_config d" "d_base d1 = d_base d" "d_journal d1 = d_journal d"
    using open_base_ok [OF l0(1) bid db(2) sg] by blast
  note m = fresh_base_mem [OF o(2-4) sg db(3) l0(1)]
  note f = o(2) [unfolded fresh_base_def]
  have "sn_version (l_snap l1) = store_stamp V l1 []" using f by (simp add: store_stamp_def base_count_def show_nat_0)
  moreover have "base_on_disk V l1 d1" using f o(4,7) buf Some by (simp add: base_on_disk_def)
  ultimately show ?thesis using rb o m f Some by (auto simp: base_entries_def)
qed

lemma open_recovers:
  assumes sha: "sha_ok V" and io: "reads_ok io" and cfg: "cfg_on_disk V name l d"
    and db: "disk_base V es d" "distinct (map e_ID es)" "\<forall>e \<in> set es. entry_stable V e"
      "d_base d \<noteq> None \<longrightarrow> (\<exists>sg. buildSegment (sv_E V) l es = Inr sg)"
    and jr: "readJournal V (d_journal d) = (recs, t)" "journal_buf V recs = Inr b0"
      "t = None \<and> file_of (d_journal d) = b0 \<or> t = Some (length b0) \<and> take (length b0) (file_of (d_journal d)) = b0 \<and> \<not> oi_truncate io"
    and st: "\<forall>r \<in> set recs. rec_stable V r" "\<forall>e \<in> set (rec_entries recs). entry_stable V e" and ob: "overlay_builds V l recs"
  shows "\<exists>l1 d1. openList V io name d = (Inr (l1, b0), d1) \<and> mem_ok V l1 \<and> cfg_on_disk V name l1 d1 \<and> files_agree V l1 b0 d1
    \<and> view l1 = journal_spec recs (idmap es) \<and> base_entries l1 = (if d_base d = None then None else Some es)
    \<and> journal_mutate recs [] {} (sn_base (l_snap l1)) = (l_overlaySrc l1, sn_tombstones (l_snap l1))
    \<and> l_cfg l1 = l_cfg l \<and> l_norm l1 = l_norm l \<and> l_cfgDigest l1 = l_cfgDigest l
    \<and> d_base d1 = d_base d \<and> file_of (d_journal d1) = b0"
proof -
  obtain raw c and l0 :: "'a klist" where c: "\<not> d_marker d" "d_config d = Some raw" "sv_uncfg V raw = Some c"
      "new_list (sv_T V) (sv_sha V) (sv_cfgjson V) name c = Inr l0" "l_cfg l = l_cfg l0" "l_norm l = l_norm l0" "l_cfgDigest l = l_cfgDigest l0"
    using cfg by (auto simp: cfg_on_disk_def)
  note n = new_list_fields [OF c(4)]
  have io': "\<not> oi_base io" "\<not> oi_config io" using io by (simp_all add: reads_ok_def)
  have b0: "d_base d \<noteq> None \<longrightarrow> (\<exists>sg. buildSegment (sv_E V) l0 es = Inr sg)"
    using db(4) buildSegment_keys [OF c(5,6), of "sv_E V" es] by simp
  obtain base l1 d1 where b: "readBase V (d_base d) = Inr base" "open_base V io base l0 d = Inr (l1, d1)" "mem_ok V l1"
      "l_overlaySrc l1 = []" "sn_tombstones (l_snap l1) = {}" "base_on_disk V l1 d1" "sn_version (l_snap l1) = store_stamp V l1 []"
      "view l1 = idmap es" "base_entries l1 = (if d_base d = None then None else Some es)"
      "l_cfg l1 = l_cfg l0" "l_norm l1 = l_norm l0" "l_cfgDigest l1 = l_cfgDigest l0"
      "d_marker d1 = d_marker d" "d_config d1 = d_config d" "d_base d1 = d_base d" "d_journal d1 = d_journal d"
    using opened_base [OF sha io'(1) n(3,1) db(1-3) b0] by blast
  have ob1: "overlay_builds V l1 recs" using ob overlay_builds_cong [of l1 l V recs] b(10,11) c(5,6) by simp
  obtain l2 d2 where o: "open_journal V io l1 d1 = (Inr (l2, b0), d2)" "mem_ok V l2" "files_agree V l2 b0 d2"
      "view l2 = journal_spec recs (view l1)" "sn_base (l_snap l2) = sn_base (l_snap l1)"
      "journal_mutate recs [] {} (sn_base (l_snap l1)) = (l_overlaySrc l2, sn_tombstones (l_snap l2))"
      "l_cfg l2 = l_cfg l1" "l_norm l2 = l_norm l1" "l_cfgDigest l2 = l_cfgDigest l1"
      "d_marker d2 = d_marker d1" "d_config d2 = d_config d1" "d_base d2 = d_base d1" "file_of (d_journal d2) = b0"
    using open_journal_ok [OF sha io b(3-7) jr [folded b(16)] st ob1] by blast
  have "openList V io name d = (Inr (l2, b0), d2)"
    by (simp add: openList_def c io' b(1,2) o(1))
  moreover have "cfg_on_disk V name l2 d2 = cfg_on_disk V name l d"
    by (rule cfg_on_disk_cong) (simp_all add: o b c)
  ultimately show ?thesis using o b c(5-7) cfg by (auto simp: base_entries_def)
qed

end
