(* ===== verification/Store_Restart.thy ===== *)
theory Store_Restart
  imports Store_Open
begin

text \<open>
  Runs of the store's mutators over a list, any of whose file operations may fail: the served view is the plain map on
  which exactly the acknowledged mutations were performed, and while the list is not damaged a restart serves the same
  view under the same version stamp. A failed or interrupted rewrite changes nothing a restart can see.
\<close>

subsection \<open>Reopening\<close>

lemma readJournal_all:
  assumes "journal_buf V recs = Inr (file_of f)" "\<forall>r \<in> set recs. rec_stable V r"
  shows "readJournal V f = (recs, None)"
proof (cases f)
  case None
  then have "recs = []" using assms(1) by (cases recs) (auto simp: file_of_def split: option.splits sum.splits if_splits)
  then show ?thesis by (simp add: readJournal_def None)
next
  case (Some b)
  then show ?thesis using journal_read_all [of V recs b "[]" 0] assms by (simp add: readJournal_def)
qed

lemma overlay_same:
  assumes "mem_ok V l1" "mem_ok V l" "l_overlaySrc l1 = l_overlaySrc l" "l_cfg l1 = l_cfg l" "l_norm l1 = l_norm l"
  shows "sn_overlay (l_snap l1) = sn_overlay (l_snap l)"
  using assms buildSegment_keys [OF assms(4,5), of "sv_E V"]
  by (cases "sn_overlay (l_snap l1)"; cases "sn_overlay (l_snap l)") (auto simp: mem_ok_def list_inv_def)

definition es_of :: "'b klist \<Rightarrow> entry list" where
  "es_of l = (case base_entries l of None \<Rightarrow> [] | Some es \<Rightarrow> es)"

lemma seg_map_es: "seg_map (sn_base (l_snap l)) = idmap (es_of l)"
  by (simp add: seg_map_def es_of_def base_entries_def idmap_def split: option.splits)

lemma replayed_view:
  assumes "list_inv l" "journal_mutate recs [] {} (sn_base (l_snap l)) = (l_overlaySrc l, sn_tombstones (l_snap l))"
  shows "view l = journal_spec recs (idmap (es_of l))"
proof -
  have "src_ok []" "tomb_ok (sn_base (l_snap l)) [] {}" by (simp_all add: tomb_ok_def)
  then have "src_view (sn_base (l_snap l)) (l_overlaySrc l) (sn_tombstones (l_snap l)) = journal_spec recs (src_view (sn_base (l_snap l)) [] {})"
    using journal_mutate_view [OF list_inv_parts(1) [OF assms(1)], of "[]" "{}" recs] assms(2) by auto
  moreover have "src_view (sn_base (l_snap l)) [] {} = idmap (es_of l)" by (simp add: src_view_def seg_map_es restrict_map_def)
  ultimately show ?thesis using list_inv_parts(4) [OF assms(1)] by simp
qed

text \<open>What the invariant says about the base entries and the replay of the journal.\<close>

lemma base_facts:
  assumes "mem_ok V l"
  shows "distinct (map e_ID (es_of l))" "\<forall>e \<in> set (es_of l). entry_stable V e"
    "base_entries l \<noteq> None \<Longrightarrow> \<exists>sg. buildSegment (sv_E V) l (es_of l) = Inr sg"
    "base_on_disk V l d \<Longrightarrow> disk_base V (es_of l) d \<and> (d_base d = None \<longleftrightarrow> base_entries l = None)"
  using assms
  by (cases "sn_base (l_snap l)"; auto simp: mem_ok_def list_inv_def seg_inv_def es_of_def base_entries_def base_on_disk_def disk_base_def)+

lemma replay_builds:
  assumes "mem_ok V l" "journal_mutate recs [] {} (sn_base (l_snap l)) = (l_overlaySrc l, sn_tombstones (l_snap l))"
  shows "overlay_builds V l recs"
proof -
  have "fst (journal_mutate recs [] {} (None :: 'a segment option)) = l_overlaySrc l"
    using journal_mutate_src [of recs "[]" "{}" None "{}" "sn_base (l_snap l)"] assms(2) by simp
  then show ?thesis
    using assms(1) by (cases "sn_overlay (l_snap l)") (auto simp: overlay_builds_def Let_def mem_ok_def list_inv_def)
qed

lemma same_ids:
  assumes "mem_ok V l1" "mem_ok V l" "base_entries l1 = base_entries l"
  shows "in_base (sn_base (l_snap l1)) = in_base (sn_base (l_snap l))"
  using assms
  by (cases "sn_base (l_snap l1)"; cases "sn_base (l_snap l)")
    (auto simp: base_entries_def in_base_def mem_ok_def list_inv_def seg_inv_def)

lemma reopen_exact:
  assumes inv: "store_inv V ls" and l: "ls_l ls = Some l" and dm: "ls_damage ls = damageNone" and sha: "sha_ok V" and io: "reads_ok io"
  shows "\<exists>l1 d1. openList V io (ls_name ls) (ls_disk ls) = (Inr (l1, ls_hashed ls), d1)
    \<and> mem_ok V l1 \<and> cfg_on_disk V (ls_name ls) l1 d1 \<and> files_agree V l1 (ls_hashed ls) d1
    \<and> l_cfg l1 = l_cfg l \<and> l_norm l1 = l_norm l \<and> l_baseID l1 = l_baseID l \<and> l_jhash l1 = l_jhash l
    \<and> view l1 = view l \<and> sn_version (l_snap l1) = sn_version (l_snap l) \<and> base_entries l1 = base_entries l
    \<and> l_overlaySrc l1 = l_overlaySrc l \<and> sn_tombstones (l_snap l1) = sn_tombstones (l_snap l)
    \<and> sn_overlay (l_snap l1) = sn_overlay (l_snap l)"
proof -
  let ?d = "ls_disk ls" and ?h = "ls_hashed ls"
  have i: "mem_ok V l" "cfg_on_disk V (ls_name ls) l ?d" "base_on_disk V l ?d"
    using inv dm by (simp_all add: store_inv_Some [OF l] files_agree_def)
  obtain recs where j: "journal_on_disk V l recs ?h ?d" using inv dm by (auto simp: store_inv_Some [OF l] files_agree_def)
  note jd = j [unfolded journal_on_disk_def]
  have jb: "journal_buf V recs = Inr ?h" and st: "\<forall>r \<in> set recs. rec_stable V r" "\<forall>e \<in> set (rec_entries recs). entry_stable V e"
    and mu: "journal_mutate recs [] {} (sn_base (l_snap l)) = (l_overlaySrc l, sn_tombstones (l_snap l))" using jd by simp_all
  have rj: "readJournal V (d_journal ?d) = (recs, None)" by (rule readJournal_all) (use jd in simp_all)
  note b = base_facts [OF i(1)]
  have li: "list_inv l" using i(1) by (simp add: mem_ok_def)
  have fo: "None = None \<and> file_of (d_journal ?d) = ?h \<or> None = Some (length ?h) \<and> take (length ?h) (file_of (d_journal ?d)) = ?h \<and> \<not> oi_truncate io"
    using jd by simp
  have bs: "d_base ?d \<noteq> None \<longrightarrow> (\<exists>sg. buildSegment (sv_E V) l (es_of l) = Inr sg)" using b(3) b(4) [OF i(3)] by simp
  obtain l1 d1 where o: "openList V io (ls_name ls) ?d = (Inr (l1, ?h), d1)" "mem_ok V l1" "cfg_on_disk V (ls_name ls) l1 d1"
      "files_agree V l1 ?h d1" "view l1 = journal_spec recs (idmap (es_of l))"
      "base_entries l1 = (if d_base ?d = None then None else Some (es_of l))"
      "journal_mutate recs [] {} (sn_base (l_snap l1)) = (l_overlaySrc l1, sn_tombstones (l_snap l1))"
      "l_cfg l1 = l_cfg l" "l_norm l1 = l_norm l" "l_cfgDigest l1 = l_cfgDigest l" "d_base d1 = d_base ?d"
    using open_recovers [OF sha io i(2) conjunct1 [OF b(4) [OF i(3)]] b(1,2) bs rj jb fo st replay_builds [OF i(1) mu]] by blast
  have be: "base_entries l1 = base_entries l"
    using o(6) b(4) [OF i(3)] by (cases "base_entries l") (auto simp: es_of_def)
  have "journal_mutate recs [] {} (sn_base (l_snap l1)) = journal_mutate recs [] {} (sn_base (l_snap l))"
    by (rule journal_mutate_base [OF same_ids [OF o(2) i(1) be]])
  then have ov: "l_overlaySrc l1 = l_overlaySrc l" "sn_tombstones (l_snap l1) = sn_tombstones (l_snap l)" using o(7) mu by simp_all
  have bn: "base_count l1 = base_count l" "l_baseID l1 = l_baseID l"
    using be o(4,11) i(3) by (auto simp: base_count_def base_entries_def files_agree_def base_on_disk_def split: option.splits)
  obtain recs1 where j1: "journal_on_disk V l1 recs1 ?h d1" using o(4) by (auto simp: files_agree_def)
  have "l_jhash l1 = l_jhash l" using jd j1 by (simp add: journal_on_disk_def)
  moreover have "sn_version (l_snap l1) = sn_version (l_snap l)"
    using jd j1 bn o(10) by (simp add: journal_on_disk_def store_stamp_def)
  moreover have "view l1 = view l" using o(5) replayed_view [OF li mu] by simp
  ultimately show ?thesis using o be ov bn overlay_same [OF o(2) i(1) ov(1) o(8,9)] by blast
qed


subsection \<open>Creating and reloading\<close>

text \<open>A configuration is stable when the file written for what it resolves to reads back to that.\<close>

definition cfg_stable :: "'b store_env \<Rightarrow> list_config \<Rightarrow> bool" where
  "cfg_stable V cfg \<longleftrightarrow> (case resolve_config (explicit_steps cfg) of Inl _ \<Rightarrow> True
     | Inr (cfg1, an) \<Rightarrow> sv_uncfg V (sv_cfgjson V cfg1 @ [nl]) = Some cfg1)"

lemma created_cfg:
  assumes "new_list (sv_T V) (sv_sha V) (sv_cfgjson V) name (explicit_steps cfg) = Inr (l :: 'b klist)" "cfg_stable V cfg"
    and "\<not> d_marker d" "d_config d = Some (sv_cfgjson V (l_cfg l) @ [nl])"
  shows "cfg_on_disk V name l d"
proof -
  obtain cfg1 an where r: "resolve_config (explicit_steps cfg) = Inr (cfg1, an)" and l: "l_cfg l = cfg1" "l_norm l = normalize (sv_T V) an"
      "l_cfgDigest l = resolvedConfigDigest (sv_sha V) (sv_cfgjson V) cfg1 an"
    using assms(1) by (auto simp: new_list_def split: sum.splits)
  have "sv_uncfg V (sv_cfgjson V (l_cfg l) @ [nl]) = Some cfg1" using assms(2) by (simp add: cfg_stable_def r l)
  moreover obtain l0 :: "'b klist" where "new_list (sv_T V) (sv_sha V) (sv_cfgjson V) name cfg1 = Inr l0" "l_cfg l0 = cfg1"
      "l_norm l0 = normalize (sv_T V) an" "l_cfgDigest l0 = resolvedConfigDigest (sv_sha V) (sv_cfgjson V) cfg1 an"
    by (simp add: new_list_def config_resolve_idem [OF r])
  ultimately show ?thesis using assms(3,4) l unfolding cfg_on_disk_def by auto
qed

definition created :: "'b store_env \<Rightarrow> 'b klist \<Rightarrow> 'b klist" where
  "created V l = stampFresh (setJournalHash (Some (journal_digest V [])) (SetBaseID ''empty'' l))"

lemma created_alt: "created V l = setJournalHash (Some (journal_digest V [])) (stampFresh (SetBaseID ''empty'' l))"
  by (simp add: created_def stampFresh_def setJournalHash_def baseStamp_def)

lemma created_ok:
  assumes "\<not> l_readOnly l" "l_overlaySrc l = []" "d_base d = None" "d_journal d = None"
  shows "mem_ok V (created V l)" "view (created V l) = Map.empty" "files_agree V (created V l) [] d"
    "l_cfg (created V l) = l_cfg l" "l_norm (created V l) = l_norm l" "l_cfgDigest (created V l) = l_cfgDigest l"
proof -
  let ?l = "stampFresh (SetBaseID ''empty'' l)"
  note s = stampFresh_ok [OF assms(1,2)]
  show "mem_ok V (created V l)" using s(1) mem_ok_cong [of "created V l" ?l V] by (simp add: created_alt)
  show "view (created V l) = Map.empty" using s(2) same_view(2) [of "created V l" ?l] by (simp add: created_alt)
  show "l_cfg (created V l) = l_cfg l" "l_norm (created V l) = l_norm l" "l_cfgDigest (created V l) = l_cfgDigest l"
    using s(8-10) by (simp_all add: created_alt)
  have "journal_on_disk V (created V l) [] [] d"
    using s assms(4) by (simp add: journal_on_disk_def created_alt file_of_def store_stamp_def base_count_def)
  moreover have "base_on_disk V (created V l) d" using s assms(3) by (simp add: base_on_disk_def created_alt)
  ultimately show "files_agree V (created V l) [] d" by (auto simp: files_agree_def)
qed

lemma store_inv_kept:
  assumes "store_inv V ls" "ls_l ls1 = ls_l ls" "ls_name ls1 = ls_name ls" "ls_hashed ls1 = ls_hashed ls"
    "ls_damage ls1 = damageCreate \<or> ls_damage ls1 = ls_damage ls \<and> d_config (ls_disk ls1) = d_config (ls_disk ls) \<and> d_marker (ls_disk ls1) = d_marker (ls_disk ls)
      \<and> d_base (ls_disk ls1) = d_base (ls_disk ls) \<and> file_of (d_journal (ls_disk ls1)) = file_of (d_journal (ls_disk ls))"
  shows "store_inv V ls1"
proof (cases "ls_l ls")
  case None
  then show ?thesis using assms by (auto simp: store_inv_def)
next
  case (Some l)
  have l1: "ls_l ls1 = Some l" using assms(2) Some by simp
  show ?thesis
    using assms(1,3-5) files_agree_disk [of "ls_disk ls1" "ls_disk ls" V l "ls_hashed ls"]
      cfg_on_disk_cong [of l l "ls_disk ls1" "ls_disk ls" V "ls_name ls"]
    unfolding store_inv_Some [OF Some] store_inv_Some [OF l1] by auto
qed

lemma create_ok:
  assumes inv: "store_inv V ls" and st: "cfg_stable V cfg" and r: "CreateListVersioned V io cfg ls = (r, ls1)"
  shows "store_inv V ls1 \<and> (r \<noteq> None \<longrightarrow> ls_l ls1 = ls_l ls) \<and> (r = None \<longrightarrow> map_option view (ls_l ls1) = Some Map.empty)"
proof (cases r)
  case (Some e)
  then have "ls1 = ls \<or> (\<exists>d. ls1 = ls\<lparr>ls_disk := d, ls_damage := damageCreate\<rparr>)"
    using r by (auto simp: CreateListVersioned_def create_failed_def Let_def split: if_splits sum.splits option.splits)
  then have "ls_l ls1 = ls_l ls \<and> store_inv V ls1" using inv store_inv_kept [OF inv, of ls1] by auto
  then show ?thesis using Some by simp
next
  case None
  obtain l :: "'a klist" where n: "new_list (sv_T V) (sv_sha V) (sv_cfgjson V) (ls_name ls) (explicit_steps cfg) = Inr l"
    using r None by (auto simp: CreateListVersioned_def split: if_splits sum.splits)
  define d where "d = (wipe 3 (ls_disk ls))\<lparr>d_config := Some (sv_cfgjson V (l_cfg l) @ [nl]), d_marker := False\<rparr>"
  have d: "\<not> d_marker d" "d_config d = Some (sv_cfgjson V (l_cfg l) @ [nl])" "d_base d = None" "d_journal d = None"
    by (simp_all add: d_def wipe_def)
  have ls1: "ls1 = ls\<lparr>ls_disk := d, ls_damage := damageNone, ls_hashed := [], ls_l := Some (created V l)\<rparr>"
    using r None
    by (auto simp: CreateListVersioned_def n create_failed_def Let_def wipe_def created_def d_def split: if_splits option.splits)
  note nf = new_list_fields [OF n]
  note c = created_ok [OF nf(3,1) d(3,4), of V]
  have l1: "ls_l ls1 = Some (created V l)" by (simp add: ls1)
  have "cfg_on_disk V (ls_name ls) (created V l) d"
    using created_cfg [OF n st d(1,2)] cfg_on_disk_cong [of "created V l" l d d] c(4-6) by simp
  then show ?thesis using c(1-3) None unfolding store_inv_Some [OF l1] by (simp add: ls1)
qed

lemma open_base_disk:
  assumes "open_base V io base l d = Inr (l1, d1)"
  shows "d_marker d1 = d_marker d" "d_config d1 = d_config d" "d_base d1 = d_base d" "d_journal d1 = d_journal d"
  using assms by (auto simp: open_base_def Let_def split: option.splits prod.splits)

text \<open>With an empty journal a failed open leaves the files that matter as they were.\<close>

lemma open_failure_disk:
  assumes "openList V io name d = (Inl e, d1)" "file_of (d_journal d) = []"
  shows "d_marker d1 = d_marker d" "d_config d1 = d_config d" "d_base d1 = d_base d" "d_journal d1 = d_journal d"
proof -
  have rj: "readJournal V f = ([], None)" if "file_of f = []" for f
    by (rule readJournal_all) (use that in simp_all)
  have oj: "d2 = d'" if "open_journal V io l d' = (Inl e, d2)" "file_of (d_journal d') = []" for l d' d2
    using that rj [OF that(2)] by (auto simp: open_journal_def Let_def split: if_splits)
  have "d1 = d \<or> (\<exists>base l l1 d'. open_base V io base l d = Inr (l1, d') \<and> open_journal V io l1 d' = (Inl e, d1))"
    using assms(1) by (auto simp: openList_def split: if_splits option.splits sum.splits)
  then have "d1 = d \<or> (\<exists>base l l1. open_base V io base l d = Inr (l1, d1))"
    using oj open_base_disk(4) assms(2) by metis
  then show "d_marker d1 = d_marker d" "d_config d1 = d_config d" "d_base d1 = d_base d" "d_journal d1 = d_journal d"
    using open_base_disk by metis+
qed

lemma open_success_reads:
  assumes "openList V io name d = (Inr x, d1)"
  shows "reads_ok io"
  using assms by (auto simp: openList_def open_journal_def reads_ok_def Let_def split: if_splits option.splits sum.splits prod.splits)

lemma reload_ok:
  assumes inv: "store_inv V ls" and sha: "sha_ok V" and r: "ReloadListVersioned V io ls = (r, ls1)"
  shows "store_inv V ls1 \<and> map_option view (ls_l ls1) = map_option view (ls_l ls) \<and> (r \<noteq> None \<longrightarrow> ls_l ls1 = ls_l ls)"
proof (cases "\<not> valid_name (ls_name ls) \<or> ls_damage ls \<noteq> damageNone \<or> file_of (d_journal (ls_disk ls)) \<noteq> []")
  case True
  then have "ls1 = ls \<and> r \<noteq> None" using r by (auto simp: ReloadListVersioned_def split: if_splits)
  then show ?thesis using inv by simp
next
  case False
  then have f: "ls_damage ls = damageNone" "file_of (d_journal (ls_disk ls)) = []" by simp_all
  obtain res d where o: "openList V io (ls_name ls) (ls_disk ls) = (res, d)" by force
  show ?thesis
  proof (cases res)
    case (Inl e)
    then have ls1: "ls1 = ls\<lparr>ls_disk := d\<rparr>" "r = Some e" using r False o by (simp_all add: ReloadListVersioned_def)
    note od = open_failure_disk [OF o [unfolded Inl] f(2)]
    have "store_inv V ls1" by (rule store_inv_kept [OF inv]) (simp_all add: ls1 od)
    then show ?thesis by (simp add: ls1)
  next
    case (Inr x)
    obtain l1 h where x: "x = (l1, h)" by force
    have ls1: "ls1 = ls\<lparr>ls_l := Some l1, ls_hashed := h, ls_damage := damageNone, ls_disk := d\<rparr>" "r = None"
      using r False o by (simp_all add: ReloadListVersioned_def Inr x)
    have io: "reads_ok io" by (rule open_success_reads [OF o [unfolded Inr]])
    show ?thesis
    proof (cases "ls_l ls")
      case None
      then have "d_config (ls_disk ls) = None" using inv f(1) by (simp add: store_inv_def)
      then have "res \<noteq> Inr x" using o by (auto simp: openList_def split: if_splits)
      then show ?thesis using Inr by simp
    next
      case (Some l)
      have "mem_ok V l1 \<and> cfg_on_disk V (ls_name ls) l1 d \<and> files_agree V l1 h d \<and> view l1 = view l"
        using reopen_exact [OF inv Some f(1) sha io] o Inr x by auto
      moreover have "ls_l ls1 = Some l1" by (simp add: ls1)
      ultimately show ?thesis using store_inv_Some [of ls1 l1 V] by (simp add: ls1 Some)
    qed
  qed
qed

subsection \<open>Runs\<close>

fun stable_op :: "'b store_env \<Rightarrow> store_op \<Rightarrow> bool" where
  "stable_op V (SUpsert io es) \<longleftrightarrow> list_all (entry_stable V) es"
| "stable_op V (SDelete io i) \<longleftrightarrow> rec_stable V (JDelete i)"
| "stable_op V (SReplace io es) \<longleftrightarrow> list_all (entry_stable V) es"
| "stable_op V (SCreate io cfg) \<longleftrightarrow> cfg_stable V cfg"
| "stable_op V (SCompact io) \<longleftrightarrow> True"
| "stable_op V (SReload io) \<longleftrightarrow> True"

text \<open>The specification: a list, once created, is a map.\<close>

fun store_spec :: "store_op \<Rightarrow> (string \<rightharpoonup> entry) option \<Rightarrow> (string \<rightharpoonup> entry) option" where
  "store_spec (SUpsert io es) m = map_option (puts es) m"
| "store_spec (SDelete io i) m = map_option (\<lambda>m. m(i := None)) m"
| "store_spec (SReplace io es) m = Some (puts es Map.empty)"
| "store_spec (SCreate io cfg) m = Some Map.empty"
| "store_spec (SCompact io) m = m"
| "store_spec (SReload io) m = m"

definition served :: "'b list_state \<Rightarrow> (string \<rightharpoonup> entry) option" where
  "served ls = map_option view (ls_l ls)"

lemma rec_entries_upserts: "rec_entries (map (\<lambda>e. JUpsert (Some e)) es) = es"
  by (induction es) simp_all

lemma store_step:
  assumes inv: "store_inv V ls" and sha: "sha_ok V" and st: "stable_op V x" and r: "store_apply V x ls = (r, ls1)"
  shows "store_inv V ls1 \<and> served ls1 = (if r = None then store_spec x (served ls) else served ls)"
proof (cases x)
  case (SUpsert io es)
  let ?rs = "map (\<lambda>e. JUpsert (Some e)) es"
  have "journalled V io (\<lambda>l. prepareOverlay (sv_E V) l (journal_mutate ?rs)) ?rs ls = (r, ls1)"
    using r by (simp add: SUpsert UpsertVersioned_def prepareUpsert_def upsert_as_journal)
  moreover have "\<forall>e \<in> set es. entry_stable V e" using st by (simp add: SUpsert list_all_iff)
  ultimately show ?thesis
    using journalled_ok [OF inv sha, of ?rs io r ls1]
    by (simp add: SUpsert served_def rec_entries_upserts entry_stable_def puts_as_journal [abs_def])
next
  case (SDelete io i)
  have "journalled V io (\<lambda>l. prepareOverlay (sv_E V) l (journal_mutate [JDelete i])) [JDelete i] ls = (r, ls1)"
    using r by (simp add: SDelete DeleteVersioned_def prepareDelete_def delete_as_journal)
  moreover have "journal_spec [JDelete i] = (\<lambda>m. m(i := None))" by (rule ext) simp
  ultimately show ?thesis
    using journalled_ok [OF inv sha, of "[JDelete i]" io r ls1] st by (simp add: SDelete served_def del: journal_spec.simps)
next
  case (SReplace io es)
  then show ?thesis using replace_ok [OF inv sha, of es io r ls1] r st by (simp add: served_def list_all_iff)
next
  case (SCompact io)
  then show ?thesis using compact_ok [OF inv sha, of io r ls1] r by (simp add: served_def)
next
  case (SCreate io cfg)
  then show ?thesis using create_ok [OF inv, of cfg io r ls1] r st by (simp add: served_def)
next
  case (SReload io)
  then show ?thesis using reload_ok [OF inv sha, of io r ls1] r by (simp add: served_def)
qed

lemma fresh_inv: "store_inv V (fresh_state name)"
  by (simp add: store_inv_def fresh_state_def empty_disk_def)

interpretation store: refined_when "\<lambda>ls. store_inv V ls \<and> sha_ok V" served "store_apply V" store_spec "stable_op V" for V :: "'b store_env"
proof
  fix ls ls1 :: "'b list_state" and x e
  assume i: "store_inv V ls \<and> sha_ok V" and x: "stable_op V x"
  obtain r ls2 where a: "store_apply V x ls = (r, ls2)" by force
  note s = store_step [OF conjunct1 [OF i] conjunct2 [OF i] x]
  show "store_inv V (snd (store_apply V x ls)) \<and> sha_ok V" using s [OF a] i a by simp
  show "served ls1 = store_spec x (served ls)" if "store_apply V x ls = (None, ls1)" using s [OF that] by simp
  show "served ls1 = served ls" if "store_apply V x ls = (Some e, ls1)" using s [OF that] by simp
qed

end
