(* ===== verification/Store_Crash.thy ===== *)
theory Store_Crash
  imports Store_Restart
begin

text \<open>
  What a crash or a failed call leaves behind. A torn journal reads back to a prefix of the records that contains
  everything acknowledged; replaying a journal over a base that already contains its effect changes nothing, so a
  compaction cut off anywhere is invisible; a list that can no longer vouch for its files refuses to append to them.
\<close>

subsection \<open>Replay is idempotent\<close>

lemma journal_spec_override:
  "\<exists>f. \<forall>m. journal_spec recs m = (\<lambda>i. case f i of None \<Rightarrow> m i | Some v \<Rightarrow> v)"
proof (induction recs)
  case (Cons r recs)
  then obtain f where f: "\<And>m. journal_spec recs m = (\<lambda>i. case f i of None \<Rightarrow> m i | Some v \<Rightarrow> v)" by blast
  show ?case
  proof (cases r rule: rec_id.cases)
    case (1 e)
    show ?thesis unfolding 1 journal_spec.simps f
      by (intro exI [of _ "\<lambda>i. if f i = None \<and> i = e_ID e then Some (Some e) else f i"]) (auto simp: fun_eq_iff split: option.splits)
  next
    case (3 j)
    show ?thesis unfolding 3 journal_spec.simps f
      by (intro exI [of _ "\<lambda>i. if f i = None \<and> i = j then Some None else f i"]) (auto simp: fun_eq_iff split: option.splits)
  qed (use Cons.IH in simp_all)
qed (auto intro: exI [of _ "\<lambda>_. None"])

lemma journal_spec_idem: "journal_spec recs (journal_spec recs m) = journal_spec recs m"
  using journal_spec_override [of recs] by (auto split: option.splits)

subsection \<open>Interrupted compaction\<close>

lemma rebuilt_damaged:
  assumes "rebuilt V io es seg install l ls = (r, ls1)" "ls_damage ls = damageNone" "ls_damage ls1 \<noteq> damageNone"
  shows "\<exists>buf. base_buf V es = Inr buf \<and> d_base (ls_disk ls1) = Some buf"
    "d_journal (ls_disk ls1) = d_journal (ls_disk ls) \<or> file_of (d_journal (ls_disk ls1)) = []"
    "ls_damage ls1 = damageContent" "ls_l ls1 = ls_l ls" "ls_name ls1 = ls_name ls"
proof -
  obtain res pub d where p: "persistBase V io es (ls_disk ls) = (res, pub, d)" by (metis prod_cases3)
  obtain ok d1 where t: "truncate_journal io d = (ok, d1)" by force
  note pd = persistBase_disk [OF p] and td = truncate_disk [OF t]
  have "(\<exists>e. res = Inl e) \<and> pub \<and> ls1 = ls\<lparr>ls_disk := d, ls_damage := damageContent\<rparr>
      \<or> (\<exists>bid. res = Inr bid) \<and> \<not> ok \<and> ls1 = ls\<lparr>ls_disk := d1, ls_damage := damageContent\<rparr>"
    using assms by (cases res; cases ok) (auto simp: rebuilt_def p t Let_def split: if_splits)
  then show "\<exists>buf. base_buf V es = Inr buf \<and> d_base (ls_disk ls1) = Some buf"
    "d_journal (ls_disk ls1) = d_journal (ls_disk ls) \<or> file_of (d_journal (ls_disk ls1)) = []"
    "ls_damage ls1 = damageContent" "ls_l ls1 = ls_l ls" "ls_name ls1 = ls_name ls"
    using pd td by auto
qed

lemma compact_damaged:
  assumes inv: "store_inv V ls" and l: "ls_l ls = Some l" and dm: "ls_damage ls = damageNone" "ls_damage ls1 \<noteq> damageNone"
    and c: "CompactVersioned V io ls = (r, ls1)"
  shows "\<exists>sg buf. buildSegment (sv_E V) l (liveEntries l) = Inr sg \<and> base_buf V (liveEntries l) = Inr buf
    \<and> d_base (ls_disk ls1) = Some buf \<and> (d_journal (ls_disk ls1) = d_journal (ls_disk ls) \<or> file_of (d_journal (ls_disk ls1)) = [])
    \<and> ls_damage ls1 = damageContent \<and> ls_l ls1 = Some l \<and> ls_name ls1 = ls_name ls"
proof -
  have ro: "\<not> l_readOnly l" using inv by (simp add: store_inv_Some [OF l] mem_ok_def)
  obtain seg where b: "buildSegment (sv_E V) l (liveEntries l) = Inr seg"
    using c dm ro by (auto simp: CompactVersioned_def l PrepareCompact_def refuseReadOnly_def ignoreReadOnly_def Let_def split: sum.splits)
  then have "rebuilt V io (liveEntries l) seg (CommitCompact \<lparr>cb_live = liveEntries l, cb_seg = seg\<rparr>) l ls = (r, ls1)"
    using c dm(1) ro by (simp add: CompactVersioned_def l PrepareCompact_def refuseReadOnly_def ignoreReadOnly_def Let_def)
  from rebuilt_damaged [OF this dm] show ?thesis using b l by auto
qed

lemma compact_crash:
  assumes inv: "store_inv V ls" and sha: "sha_ok V" and l: "ls_l ls = Some l" and dm: "ls_damage ls = damageNone"
    and c: "CompactVersioned V io ls = (r, ls1)" and io: "reads_ok oio"
  shows "\<exists>l1 h d1. openList V oio (ls_name ls1) (ls_disk ls1) = (Inr (l1, h), d1) \<and> view l1 = view l"
proof (cases "ls_damage ls1 = damageNone")
  case True
  note k = compact_ok [OF inv sha c]
  then obtain l2 where l2: "ls_l ls1 = Some l2" "view l2 = view l" using l by (cases "ls_l ls1") auto
  show ?thesis using reopen_exact [OF conjunct1 [OF k] l2(1) True sha io] l2(2) by auto
next
  case False
  obtain sg buf where s: "buildSegment (sv_E V) l (liveEntries l) = Inr sg" "base_buf V (liveEntries l) = Inr buf"
      "d_base (ls_disk ls1) = Some buf" "d_journal (ls_disk ls1) = d_journal (ls_disk ls) \<or> file_of (d_journal (ls_disk ls1)) = []"
      "ls_damage ls1 = damageContent" "ls_l ls1 = Some l"
    using compact_damaged [OF inv l dm False c] by blast
  have i: "mem_ok V l" using inv by (simp add: store_inv_Some [OF l])
  have li: "list_inv l" using i by (simp add: mem_ok_def)
  have cfg: "cfg_on_disk V (ls_name ls1) l (ls_disk ls1)"
    using conjunct1 [OF compact_ok [OF inv sha c]] s(5) by (simp add: store_inv_Some [OF s(6)])
  obtain recs where "journal_on_disk V l recs (ls_hashed ls) (ls_disk ls)" using inv dm by (auto simp: store_inv_Some [OF l] files_agree_def)
  note jd = this [unfolded journal_on_disk_def]
  note lv = live_view [OF li]
  have ls: "\<forall>e \<in> set (liveEntries l). entry_stable V e" using live_stable [OF i] by blast
  have db: "disk_base V (liveEntries l) (ls_disk ls1)" using s(2,3) by (simp add: disk_base_def)
  have rec: "\<exists>l1 h d1. openList V oio (ls_name ls1) (ls_disk ls1) = (Inr (l1, h), d1) \<and> view l1 = journal_spec rs (view l)"
    if rs: "journal_buf V rs = Inr (file_of (d_journal (ls_disk ls1)))" "\<forall>r \<in> set rs. rec_stable V r"
      "\<forall>e \<in> set (rec_entries rs). entry_stable V e" "overlay_builds V l rs" for rs
    using open_recovers [OF sha io cfg db lv(1) ls _ readJournal_all [OF rs(1,2)] rs(1) _ rs(2,3,4)] s(1) by (auto simp: lv(3))
  show ?thesis
  proof (cases "file_of (d_journal (ls_disk ls1)) = []")
    case True
    then show ?thesis using rec [of "[]"] by (simp add: overlay_builds_def)
  next
    case False
    then have "file_of (d_journal (ls_disk ls1)) = ls_hashed ls" using s(4) jd by auto
    moreover have "overlay_builds V l recs" by (rule replay_builds [OF i]) (use jd in simp)
    moreover have "journal_spec recs (view l) = view l"
      using replayed_view [OF li, of recs] jd by (simp add: journal_spec_idem)
    ultimately show ?thesis using rec [of recs] jd by simp
  qed
qed

subsection \<open>Torn journals\<close>

lemma journal_torn:
  assumes b: "journal_buf V rs1 = Inr b1" "journal_buf V (rs1 @ rs2) = Inr buf" and st: "\<forall>r \<in> set (rs1 @ rs2). rec_stable V r"
    and n: "length b1 \<le> n"
  shows "\<exists>k c. k \<le> length rs2 \<and> journal_buf V (rs1 @ take k rs2) = Inr c \<and> take (length c) (take n buf) = c
    \<and> readJournal V (Some (take n buf)) = (rs1 @ take k rs2, if c = take n buf then None else Some (length c))"
proof -
  define m where "m = min n (length buf)"
  have m: "take n buf = take m buf" "m \<le> length buf" by (simp_all add: m_def min_def)
  obtain i c where i: "i \<le> length (rs1 @ rs2)" "journal_buf V (take i (rs1 @ rs2)) = Inr c" "length c \<le> m" "take (length c) buf = c"
      "journal_lines V (take m buf) [] 0 = ([] @ take i (rs1 @ rs2), if length c = m then None else Some (0 + length c))"
      "\<forall>j b1. journal_buf V (take j (rs1 @ rs2)) = Inr b1 \<longrightarrow> j \<le> length (rs1 @ rs2) \<longrightarrow> length b1 \<le> m \<longrightarrow> j \<le> i"
    using journal_read_prefix [OF b(2) st m(2), of "[]" 0] by blast
  have "length b1 \<le> length buf" using b(2) unfolding journal_buf_append using b(1) by auto
  then have "length rs1 \<le> i" using i(6) b(1) n by (simp add: m_def)
  then have t: "take i (rs1 @ rs2) = rs1 @ take (i - length rs1) rs2" by simp
  have "length c = m \<longleftrightarrow> c = take m buf" using i(3,4) m(2) by (metis length_take min.absorb2)
  then show ?thesis using i(1-5) unfolding t
    by (intro exI [of _ "i - length rs1"] exI [of _ c]) (auto simp: m(1) readJournal_def min_def)
qed


subsection \<open>Failed appends\<close>

lemma journalled_ends:
  assumes inv: "store_inv V ls" and l: "ls_l ls = Some l" and r: "journalled V io prep recs ls = (r, ls1)"
  obtains "ls1 = ls" "r \<noteq> None"
  | e where "appendJournal V io recs ls = (Inl e, ls1)" "r \<noteq> None"
  | j ls2 where "appendJournal V io recs ls = (Inr j, ls2)" "ls_disk ls1 = ls_disk ls2" "ls_damage ls1 = ls_damage ls2" "r = None"
  using r that by (auto simp: journalled_def l split: sum.splits prod.splits)

lemma append_outcome:
  assumes inv: "store_inv V ls" and l: "ls_l ls = Some l" and dm: "ls_damage ls = damageNone" and st: "\<forall>x \<in> set recs. rec_stable V x"
    and r: "journalled V io prep recs ls = (r, ls1)"
  shows "\<exists>old k t. readJournal V (d_journal (ls_disk ls)) = (old, None) \<and> k \<le> length recs
    \<and> readJournal V (d_journal (ls_disk ls1)) = (old @ take k recs, t)
    \<and> (r = None \<longrightarrow> k = length recs \<and> t = None) \<and> (r \<noteq> None \<and> ls_damage ls1 = damageNone \<longrightarrow> k = 0 \<and> t = None)"
proof -
  obtain old where j: "journal_buf V old = Inr (file_of (d_journal (ls_disk ls)))" "\<forall>x \<in> set old. rec_stable V x"
    using inv dm by (auto simp: store_inv_Some [OF l] files_agree_def journal_on_disk_def)
  have ro: "readJournal V (d_journal (ls_disk ls)) = (old, None)" by (rule readJournal_all [OF j])
  have same: ?thesis if "file_of (d_journal (ls_disk ls1)) = file_of (d_journal (ls_disk ls))" "r \<noteq> None"
    using ro readJournal_all [of V old "d_journal (ls_disk ls1)"] j that
    by (intro exI [of _ old] exI [of _ "0::nat"] exI [of _ "None :: nat option"]) auto
  from inv l r show ?thesis
  proof (cases rule: journalled_ends)
    case 1
    then show ?thesis using same by simp
  next
    case (2 e)
    from 2(1) show ?thesis
    proof (cases rule: append_failure)
      case (failed f dm1)
      then consider "file_of f = file_of (d_journal (ls_disk ls))"
        | buf n where "journal_buf V recs = Inr buf" "file_of f = file_of (d_journal (ls_disk ls)) @ take n buf" "dm1 = damageContent" by blast
      then show ?thesis
      proof cases
        case 1
        show ?thesis by (rule same) (use 1 2(2) failed(1) in simp_all)
      next
        case (2 buf n)
        let ?o = "file_of (d_journal (ls_disk ls))"
        have b: "journal_buf V (old @ recs) = Inr (?o @ buf)" unfolding journal_buf_append using j(1) 2(1) by blast
        have s: "\<forall>x \<in> set (old @ recs). rec_stable V x" using j(2) st by auto
        have ln: "length ?o \<le> length ?o + n" by simp
        obtain k t where k: "k \<le> length recs" "readJournal V (Some (take (length ?o + n) (?o @ buf))) = (old @ take k recs, t)"
          using journal_torn [OF j(1) b s ln] by blast
        moreover have "take (length ?o + n) (?o @ buf) = file_of f" using 2(2) by simp
        ultimately have k': "readJournal V (Some (file_of f)) = (old @ take k recs, t)" by simp
        have "readJournal V f = (old @ take k recs, t)"
        proof (cases f)
          case None
          then show ?thesis using k' by (simp add: file_of_def readJournal_def journal_lines.simps cut_line_def)
        qed (use k' in simp)
        then show ?thesis using ro k(1) failed(1) 2(3) \<open>r \<noteq> None\<close>
          by (intro exI [of _ old] exI [of _ k] exI [of _ t]) auto
      qed
    qed
  next
    case (3 pos ls2)
    from 3(1) obtain buf where ap: "journal_buf V recs = Inr buf"
        "ls2 = (set_journal (file_of (d_journal (ls_disk ls)) @ buf) ls)\<lparr>ls_hashed := ls_hashed ls @ buf\<rparr>"
      by (rule append_success)
    have "readJournal V (d_journal (ls_disk ls1)) = (old @ recs, None)"
      by (rule readJournal_all) (use j st ap 3(2) in \<open>auto simp: journal_buf_append\<close>)
    then show ?thesis using ro 3(4) by (intro exI [of _ old] exI [of _ "length recs"] exI [of _ "None :: nat option"]) simp
  qed
qed

subsection \<open>Damage\<close>

definition appends :: "store_op \<Rightarrow> bool" where
  "appends x \<longleftrightarrow> (case x of SUpsert _ _ \<Rightarrow> True | SDelete _ _ \<Rightarrow> True | _ \<Rightarrow> False)"

lemma damaged_append:
  assumes "ls_damage ls \<noteq> damageNone" "journalled V io prep recs ls = (r, ls1)"
  shows "r \<noteq> None \<and> ls1 = ls"
  using assms by (auto simp: journalled_def appendJournal_def split: option.splits sum.splits)

lemma rebuilt_end:
  assumes "rebuilt V io es seg install l ls = (r, ls1)" "ls_l ls = Some l"
  shows "r = None \<and> ls_damage ls1 = damageNone \<or> r \<noteq> None \<and> ls_l ls1 = ls_l ls \<and> (ls_damage ls1 = ls_damage ls \<or> ls_damage ls1 = damageContent)"
  using assms by (auto simp: rebuilt_def Let_def split: sum.splits prod.splits bool.splits if_splits)

lemma create_end:
  assumes "CreateListVersioned V io cfg ls = (r, ls1)"
  shows "r = None \<and> ls_damage ls1 = damageNone \<or> r \<noteq> None \<and> ls_l ls1 = ls_l ls \<and> (ls_damage ls1 = ls_damage ls \<or> ls_damage ls1 = damageCreate)"
  using assms
  by (auto simp: CreateListVersioned_def create_failed_def Let_def split: if_splits sum.splits option.splits)

end
