(* ===== verification/Store_Properties.thy ===== *)
theory Store_Properties
  imports Store_Crash Any_Of
begin

text \<open>
  The durability properties of the store, over runs of its mutators on one list name from an empty directory, and a small
  concrete store on which their hypotheses hold.
\<close>

subsection \<open>A concrete store\<close>

definition demo_store_config :: list_config where
  "demo_store_config = \<lparr>lc_Analyzer = \<lparr>ac_Preset = '''', ac_Steps = []\<rparr>,
     lc_Match = \<lparr>mc_Mode = ''exact'', mc_Fallback = '''', mc_ExactCompanion = False, mc_Grams = [], mc_StripSpaces = False,
       mc_Threshold = Fin 0, mc_TopK = 0\<rparr>,
     lc_Golden = [], lc_Filterable = [], lc_OverlayAutoCompact = 0\<rparr>"

definition demo_store_entry :: "string \<Rightarrow> entry" where
  "demo_store_entry i = demo_entry i ''x''"

fun demo_rec :: "journal_rec \<Rightarrow> string option" where
  "demo_rec (JUpsert (Some e)) = Some (CHR ''u'' # e_ID e)"
| "demo_rec (JDelete i) = Some (CHR ''d'' # i)"
| "demo_rec _ = None"

fun demo_unrec :: "string \<Rightarrow> journal_rec option" where
  "demo_unrec [] = None"
| "demo_unrec (c # i) = Some (if c = CHR ''u'' then JUpsert (Some (demo_store_entry i)) else JDelete i)"

definition demo_store :: "u32 set store_env" where
  "demo_store = \<lparr>sv_E = demo_env, sv_T = ascii_tables, sv_sha = (\<lambda>bs. CHR ''h'' # bs), sv_fsync = FsyncEvery,
     sv_cfgjson = (\<lambda>_. ''{}''), sv_uncfg = (\<lambda>_. Some demo_store_config), sv_rec = demo_rec, sv_unrec = demo_unrec,
     sv_entry = (\<lambda>e. Some (e_ID e)), sv_unentry = (\<lambda>s. Some (demo_store_entry s)),
     sv_exjson = (\<lambda>_. ''''), sv_unexjson = (\<lambda>_. None), sv_ngjson = (\<lambda>_. ''''), sv_unngjson = (\<lambda>_. None),
     sv_write = (\<lambda>_. ''''), sv_read = (\<lambda>_. None), sv_keys = (\<lambda>_. [])\<rparr>"

definition append_works :: append_io where
  "append_works = \<lparr>ai_open = False, ai_seek = False, ai_write = None, ai_sync = False, ai_close = False, ai_kept = 0,
     ai_commit = False, ai_trunc = False\<rparr>"

definition create_works :: create_io where
  "create_works = \<lparr>ci_mkdir = False, ci_marker = Written, ci_remove = None, ci_config = Written, ci_unmark = False, ci_sync = False\<rparr>"

definition open_works :: open_io where
  "open_works = \<lparr>oi_config = False, oi_base = False, oi_save = False, oi_journal = False, oi_truncate = False, oi_hash = False,
     oi_rename = False\<rparr>"

text \<open>A compaction whose journal truncation fails after the new base was published.\<close>

definition compact_cut :: rebuild_io where
  "compact_cut = \<lparr>ri_temp = False, ri_rmidx = False, ri_rename = False, ri_syncdir = False, ri_trunc = True, ri_truncsync = False,
     ri_save = False\<rparr>"

definition demo_run :: "store_op list" where
  "demo_run = [SCreate create_works demo_store_config, SUpsert append_works [demo_store_entry ''a'']]"

lemma demo_store_ok: "sha_ok demo_store" "reads_ok open_works" "entry_stable demo_store (demo_store_entry ''a'')"
  by (simp_all add: sha_ok_def demo_store_def reads_ok_def open_works_def entry_stable_def rec_stable_def demo_store_entry_def demo_entry_def)

lemma demo_resolves: "resolve_config demo_store_config = Inr (demo_store_config, \<lparr>an_steps = [], an_names = []\<rparr>)"
  by (simp add: resolve_config_def demo_store_config_def ResolveAnalyzer_def new_analyzer_def resolve_match_def f_outside_def
      maxListTopK_def check_fallback_def maxFilterFields_def Let_def)

lemma demo_explicit: "explicit_steps demo_store_config = demo_store_config"
  by (simp add: explicit_steps_def demo_store_config_def preset_steps_def presets_def)

lemma demo_run_stable: "list_all (stable_op demo_store) demo_run"
  using demo_store_ok(3) by (simp add: demo_run_def cfg_stable_def demo_explicit demo_resolves demo_store_def)


lemma demo_created:
  obtains l :: "u32 set klist" and s where "CreateListVersioned demo_store create_works demo_store_config (fresh_state ''d'') = (None, s)"
    "ls_l s = Some l" "ls_damage s = damageNone" "ls_disk s = empty_disk\<lparr>d_config := Some ''{}\<newline>''\<rparr>"
    "l_cfg l = demo_store_config" "l_overlaySrc l = []" "sn_base (l_snap l) = None" "l_jhash l \<noteq> None"
proof -
  have n: "valid_name ''d''" by (simp add: valid_name_def name_char_def)
  obtain l0 :: "u32 set klist" where l0: "new_list (sv_T demo_store) (sv_sha demo_store) (sv_cfgjson demo_store) ''d'' demo_store_config = Inr l0"
      "l_cfg l0 = demo_store_config" "l_overlaySrc l0 = []" "\<not> l_readOnly l0"
    by (simp add: new_list_def demo_resolves)
  have j: "sv_cfgjson demo_store c @ [nl] = ''{}\<newline>''" for c by (simp add: demo_store_def)
  note c = created_alt [of demo_store l0] stampFresh_ok [OF l0(4,3)]
  let ?s = "(fresh_state ''d'')\<lparr>ls_disk := empty_disk\<lparr>d_config := Some ''{}\<newline>''\<rparr>, ls_l := Some (created demo_store l0)\<rparr>"
  have "CreateListVersioned demo_store create_works demo_store_config (fresh_state ''d'') = (None, ?s)"
    by (simp add: CreateListVersioned_def fresh_state_def n demo_explicit l0 create_works_def Let_def wipe_def empty_disk_def j created_def)
  then show ?thesis
    by (rule that [where l = "created demo_store l0"]) (simp_all add: fresh_state_def c l0)
qed

lemma demo_run_state:
  obtains tr ls l where "run_ops (store_apply demo_store) demo_run (fresh_state ''d'') = (tr, ls)" "ls_damage ls = damageNone"
    "ls_l ls = Some l"
proof -
  let ?e = "demo_store_entry ''a''"
  obtain l and s :: "u32 set list_state" where s: "CreateListVersioned demo_store create_works demo_store_config (fresh_state ''d'') = (None, s)"
    "ls_l s = Some l" "ls_damage s = damageNone" "ls_disk s = empty_disk\<lparr>d_config := Some ''{}\<newline>''\<rparr>"
    "l_cfg l = demo_store_config" "l_overlaySrc l = []" "sn_base (l_snap l) = None" "l_jhash l \<noteq> None" by (rule demo_created)
  have "grams_ok l" by (simp add: grams_ok_def s(5) demo_store_config_def)
  then obtain seg where seg: "buildSegment demo_env l [?e] = Inr seg"
    using buildSegment_succeeds [OF demo_env_ok, of l "[?e]"] by (auto simp: raw_keys_def demo_store_entry_def demo_entry_def maxRun_def)
  obtain b where b: "prepareUpsert (sv_E demo_store) l [?e] = Inr b"
    by (simp add: prepareUpsert_def prepareOverlay_def s demo_store_def sorted_by_id_def seg Let_def)
  have buf: "journal_buf demo_store [JUpsert (Some ?e)] = Inr ''ua\<newline>''"
    by (simp add: demo_store_def demo_store_entry_def demo_entry_def scanLine_def)
  obtain j s1 where a: "appendJournal demo_store append_works [JUpsert (Some ?e)] s = (Inr j, s1)" "ls_damage s1 = damageNone"
    by (simp add: appendJournal_def s(3) buf append_works_def Let_def del: journal_buf.simps)
  have u: "\<exists>s2. UpsertVersioned demo_store append_works [?e] s = (None, s2) \<and> ls_damage s2 = damageNone \<and> ls_l s2 \<noteq> None"
    using a by (simp add: UpsertVersioned_def journalled_def s(2) b)
  then obtain s2 where "UpsertVersioned demo_store append_works [?e] s = (None, s2)" "ls_damage s2 = damageNone" "ls_l s2 \<noteq> None" by blast
  then show ?thesis using s(1) that by (auto simp: demo_run_def)
qed

subsection \<open>Properties\<close>

lemma run_facts:
  assumes "run_ops (store_apply V) ops (fresh_state name) = (tr, ls)" "sha_ok V" "list_all (stable_op V) ops"
  shows "store_inv V ls" "served ls = fold store_spec (succeeded tr) None"
  using store.run_when [of V "fresh_state name" ops tr ls] assms fresh_inv [of V name]
  by (simp_all add: served_def fresh_state_def)

lemma store_name:
  assumes "store_apply V x ls = (r, ls1)"
  shows "ls_name ls1 = ls_name ls"
proof -
  have a: "ls_name ls1 = ls_name ls" if "journalled V io prep recs ls = (r, ls1)" for io prep recs
  proof -
    have n: "ls_name s = ls_name ls" if "appendJournal V io recs ls = (q, s)" for q s
      using that by (cases q) (auto elim!: append_success append_failure)
    show ?thesis using that n by (auto simp: journalled_def split: option.splits sum.splits prod.splits)
  qed
  have b: "ls_name ls1 = ls_name ls" if "rebuilt V io es seg install l ls = (r, ls1)" for io es seg install l
    using that by (auto simp: rebuilt_def Let_def split: sum.splits prod.splits bool.splits)
  show ?thesis
    using assms a b
    by (cases x) (auto simp: UpsertVersioned_def DeleteVersioned_def ReplaceVersioned_def CompactVersioned_def CreateListVersioned_def
        ReloadListVersioned_def create_failed_def Let_def split: option.splits sum.splits prod.splits if_splits)
qed

lemma run_name:
  assumes "run_ops (store_apply V) ops s = (tr, ls)"
  shows "ls_name ls = ls_name s"
  using assms
proof (induction ops arbitrary: s tr)
  case (Cons x xs)
  obtain e s1 where x: "store_apply V x s = (e, s1)" by force
  then obtain tr1 where "run_ops (store_apply V) xs s1 = (tr1, ls)" using Cons.prems by (auto split: prod.splits)
  then show ?case using Cons.IH store_name [OF x] by simp
qed simp


text \<open>
  C9: A list serves what was acknowledged. Take a list name with an empty directory and any sequence of create, upsert,
  delete, replace, compact and reload calls of the store on stable data, with any of their file operations failing at any
  point. The entries served at the end (none, if no create succeeded) are those of the plain ID-to-entry map obtained by
  performing just the calls that returned without error; a compaction or reload does not change it.
\<close>

theorem store_serves_acknowledged:
  assumes "sha_ok V" "list_all (stable_op V) ops" "run_ops (store_apply V) ops (fresh_state name) = (tr, ls)"
  shows "served ls = fold store_spec (succeeded tr) None"
  by (rule run_facts(2) [OF assms(3,1,2)])

theorem store_serves_acknowledged_witness:
  "\<exists>tr ls. run_ops (store_apply demo_store) demo_run (fresh_state ''d'') = (tr, ls) \<and> ls_damage ls = damageNone
     \<and> served ls = fold store_spec (succeeded tr) None"
proof -
  obtain tr ls l where r: "run_ops (store_apply demo_store) demo_run (fresh_state ''d'') = (tr, ls)" "ls_damage ls = damageNone"
    "ls_l ls = Some l" by (rule demo_run_state)
  show ?thesis using store_serves_acknowledged [OF demo_store_ok(1) demo_run_stable r(1)] r by blast
qed

text \<open>
  C1: A restart loses and invents nothing. After any such run, if the list is served and not damaged, opening its
  directory (with readable files) succeeds whatever happened to the cached index, and gives a list with the same visible
  entries, the same configuration, base entries, overlay segment and tombstones, the same version stamp and the same
  running journal hash, and leaves base and journal files as they are.
\<close>

theorem store_restart_exact:
  assumes "sha_ok V" "list_all (stable_op V) ops" "run_ops (store_apply V) ops (fresh_state name) = (tr, ls)"
    and "ls_damage ls = damageNone" "ls_l ls = Some l" "reads_ok io"
  shows "\<exists>l1 d1. openList V io name (ls_disk ls) = (Inr (l1, ls_hashed ls), d1) \<and> view l1 = view l
    \<and> l_cfg l1 = l_cfg l \<and> base_entries l1 = base_entries l \<and> l_overlaySrc l1 = l_overlaySrc l
    \<and> sn_overlay (l_snap l1) = sn_overlay (l_snap l) \<and> sn_tombstones (l_snap l1) = sn_tombstones (l_snap l)
    \<and> sn_version (l_snap l1) = sn_version (l_snap l) \<and> l_jhash l1 = l_jhash l
    \<and> d_base d1 = d_base (ls_disk ls) \<and> file_of (d_journal d1) = file_of (d_journal (ls_disk ls))"
proof -
  note f = run_facts [OF assms(3,1,2)]
  have n: "ls_name ls = name" using run_name [OF assms(3)] by (simp add: fresh_state_def)
  obtain l1 d1 where o: "openList V io name (ls_disk ls) = (Inr (l1, ls_hashed ls), d1)" "files_agree V l1 (ls_hashed ls) d1"
      "l_cfg l1 = l_cfg l" "l_jhash l1 = l_jhash l" "view l1 = view l" "sn_version (l_snap l1) = sn_version (l_snap l)"
      "base_entries l1 = base_entries l" "l_overlaySrc l1 = l_overlaySrc l" "sn_tombstones (l_snap l1) = sn_tombstones (l_snap l)"
      "sn_overlay (l_snap l1) = sn_overlay (l_snap l)"
    using reopen_exact [OF f(1) assms(5,4,1,6)] unfolding n by blast
  have "files_agree V l (ls_hashed ls) (ls_disk ls)" using f(1) assms(4) by (simp add: store_inv_Some [OF assms(5)])
  then have "d_base d1 = d_base (ls_disk ls)" "file_of (d_journal d1) = file_of (d_journal (ls_disk ls))"
    using o(2,7) by (auto simp: files_agree_def journal_on_disk_def base_on_disk_def base_entries_def split: option.splits)
  then show ?thesis using o by blast
qed

theorem store_restart_exact_witness:
  "\<exists>tr ls l l1 d1. run_ops (store_apply demo_store) demo_run (fresh_state ''d'') = (tr, ls) \<and> ls_l ls = Some l
     \<and> openList demo_store open_works ''d'' (ls_disk ls) = (Inr (l1, ls_hashed ls), d1) \<and> view l1 = view l
     \<and> sn_version (l_snap l1) = sn_version (l_snap l)"
proof -
  obtain tr ls l where r: "run_ops (store_apply demo_store) demo_run (fresh_state ''d'') = (tr, ls)" "ls_damage ls = damageNone"
    "ls_l ls = Some l" by (rule demo_run_state)
  show ?thesis using store_restart_exact [OF demo_store_ok(1) demo_run_stable r demo_store_ok(2)] r by blast
qed

text \<open>
  C8: A compaction cut off anywhere is invisible. From an undamaged list after any such run, let \<open>Compact\<close> fail at any of
  its file operations, or succeed: reopening the directory it leaves, new base beside the old journal included, gives a
  list with exactly the entries that were served before.
\<close>

theorem compact_cut_invisible:
  assumes "sha_ok V" "list_all (stable_op V) ops" "run_ops (store_apply V) ops (fresh_state name) = (tr, ls)"
    and "ls_damage ls = damageNone" "ls_l ls = Some l" "CompactVersioned V cio ls = (r, ls1)" "reads_ok io"
  shows "\<exists>l1 h d1. openList V io name (ls_disk ls1) = (Inr (l1, h), d1) \<and> view l1 = view l"
proof -
  have "store_apply V (SCompact cio) ls = (r, ls1)" using assms(6) by simp
  then have "ls_name ls1 = name" using store_name run_name [OF assms(3)] by (fastforce simp: fresh_state_def)
  then show ?thesis using compact_crash [OF run_facts(1) [OF assms(3,1,2)] assms(1,5,4,6,7)] by simp
qed

theorem compact_cut_invisible_witness:
  "\<exists>tr ls l r ls1 l1 h d1. run_ops (store_apply demo_store) demo_run (fresh_state ''d'') = (tr, ls) \<and> ls_l ls = Some l
     \<and> CompactVersioned demo_store compact_cut ls = (r, ls1)
     \<and> openList demo_store open_works ''d'' (ls_disk ls1) = (Inr (l1, h), d1) \<and> view l1 = view l"
proof -
  obtain tr ls l where r: "run_ops (store_apply demo_store) demo_run (fresh_state ''d'') = (tr, ls)" "ls_damage ls = damageNone"
    "ls_l ls = Some l" by (rule demo_run_state)
  obtain e ls1 where c: "CompactVersioned demo_store compact_cut ls = (e, ls1)" by force
  show ?thesis using compact_cut_invisible [OF demo_store_ok(1) demo_run_stable r c demo_store_ok(2)] r c by blast
qed

text \<open>
  C10: The version stamp is evidence. In every undamaged state such a run reaches, the served stamp names the hash of the
  bytes of \<open>base.jsonl\<close> (or \<open>empty\<close>), the number of base entries, the exact size of \<open>journal.jsonl\<close> and, unless it is empty,
  the hash of its bytes, and the configuration digest: the running hash never drifts from the file.
\<close>

theorem stamp_names_files:
  assumes "sha_ok V" "list_all (stable_op V) ops" "run_ops (store_apply V) ops (fresh_state name) = (tr, ls)"
    and "ls_damage ls = damageNone" "ls_l ls = Some l" "journal = file_of (d_journal (ls_disk ls))"
  shows "sn_version (l_snap l) = (case d_base (ls_disk ls) of None \<Rightarrow> ''empty'' | Some bs \<Rightarrow> sv_sha V bs)
      @ ''@'' @ show_nat (base_count l) @ ''+j'' @ show_nat (length journal)
      @ (if journal = [] then '''' else ''.'' @ journal_digest V journal) @ ''+c'' @ l_cfgDigest l
    \<and> l_jhash l = Some (journal_digest V journal)"
proof -
  have fa: "files_agree V l (ls_hashed ls) (ls_disk ls)"
    using run_facts(1) [OF assms(3,1,2)] assms(4) by (simp add: store_inv_Some [OF assms(5)])
  then have "l_baseID l = (case d_base (ls_disk ls) of None \<Rightarrow> ''empty'' | Some bs \<Rightarrow> sv_sha V bs)"
    by (auto simp: files_agree_def base_on_disk_def split: option.splits)
  then show ?thesis
    using fa by (auto simp: files_agree_def journal_on_disk_def store_stamp_def assms(6))
qed

theorem stamp_names_files_witness:
  "\<exists>tr ls l. run_ops (store_apply demo_store) demo_run (fresh_state ''d'') = (tr, ls) \<and> ls_l ls = Some l
     \<and> l_jhash l = Some (journal_digest demo_store (file_of (d_journal (ls_disk ls))))"
proof -
  obtain tr ls l where r: "run_ops (store_apply demo_store) demo_run (fresh_state ''d'') = (tr, ls)" "ls_damage ls = damageNone"
    "ls_l ls = Some l" by (rule demo_run_state)
  show ?thesis using stamp_names_files [OF demo_store_ok(1) demo_run_stable r refl] r by blast
qed


text \<open>
  C11: A torn journal keeps every whole record. Cut an encoded journal anywhere at or after the end of its first records:
  reading the rest returns all of those and a prefix of the later ones, reports the cut exactly when it falls inside a
  record, with the offset just past the last whole one, and the file truncated there reads back to the same records cleanly.
\<close>

theorem journal_torn_tail:
  assumes "journal_buf V rs1 = Inr b1" "journal_buf V (rs1 @ rs2) = Inr buf" "\<forall>r \<in> set (rs1 @ rs2). rec_stable V r"
    and "length b1 \<le> n"
  shows "\<exists>k c. k \<le> length rs2 \<and> journal_buf V (rs1 @ take k rs2) = Inr c \<and> take (length c) (take n buf) = c
    \<and> readJournal V (Some (take n buf)) = (rs1 @ take k rs2, if c = take n buf then None else Some (length c))
    \<and> readJournal V (Some (take (length c) (take n buf))) = (rs1 @ take k rs2, None)"
proof -
  obtain k c where k: "k \<le> length rs2" "journal_buf V (rs1 @ take k rs2) = Inr c" "take (length c) (take n buf) = c"
      "readJournal V (Some (take n buf)) = (rs1 @ take k rs2, if c = take n buf then None else Some (length c))"
    using journal_torn [OF assms] by blast
  have "\<forall>r \<in> set (rs1 @ take k rs2). rec_stable V r" using assms(3) by (auto dest: in_set_takeD)
  then have "readJournal V (Some c) = (rs1 @ take k rs2, None)" using readJournal_all [of V _ "Some c"] k(2) by simp
  then show ?thesis using k by (intro exI [of _ k] exI [of _ c]) simp
qed

theorem journal_torn_tail_witness:
  "\<exists>k c. readJournal demo_store (Some (take 4 ''da\<newline>db\<newline>'')) = ([JDelete ''a''] @ take k [JDelete ''b''],
     if c = take 4 ''da\<newline>db\<newline>'' then None else Some (length c))"
proof -
  have "journal_buf demo_store [JDelete ''a''] = Inr ''da\<newline>''" "journal_buf demo_store ([JDelete ''a''] @ [JDelete ''b'']) = Inr ''da\<newline>db\<newline>''"
    "\<forall>r \<in> set ([JDelete ''a''] @ [JDelete ''b'']). rec_stable demo_store r" "length ''da\<newline>'' \<le> 4"
    by (simp_all add: demo_store_def scanLine_def rec_stable_def)
  from journal_torn_tail [OF this] show ?thesis by blast
qed

text \<open>
  C15: Appends are all or nothing for the caller. From an undamaged state of such a run, an upsert that returns without
  error leaves a journal that reads back to the old records followed by the whole batch. One that returns an error leaves
  the old records followed by a prefix of the batch, never less, and exactly the old records, cleanly readable, unless
  the list was marked damaged.
\<close>

theorem upsert_journal_outcome:
  assumes "sha_ok V" "list_all (stable_op V) ops" "run_ops (store_apply V) ops (fresh_state name) = (tr, ls)"
    and "ls_damage ls = damageNone" "ls_l ls = Some l" "list_all (entry_stable V) es" "UpsertVersioned V io es ls = (r, ls1)"
  shows "\<exists>old k t. readJournal V (d_journal (ls_disk ls)) = (old, None) \<and> k \<le> length es
    \<and> readJournal V (d_journal (ls_disk ls1)) = (old @ take k (map (\<lambda>e. JUpsert (Some e)) es), t)
    \<and> (r = None \<longrightarrow> k = length es \<and> t = None) \<and> (r \<noteq> None \<and> ls_damage ls1 = damageNone \<longrightarrow> k = 0 \<and> t = None)"
proof -
  have "\<forall>x \<in> set (map (\<lambda>e. JUpsert (Some e)) es). rec_stable V x" using assms(6) by (auto simp: list_all_iff entry_stable_def)
  from append_outcome [OF run_facts(1) [OF assms(3,1,2)] assms(5,4) this assms(7) [unfolded UpsertVersioned_def]]
  show ?thesis by simp
qed

theorem upsert_journal_outcome_witness:
  "\<exists>tr ls r ls1 old k t. run_ops (store_apply demo_store) demo_run (fresh_state ''d'') = (tr, ls)
     \<and> UpsertVersioned demo_store (append_works\<lparr>ai_write := Some 1, ai_trunc := True\<rparr>) [demo_store_entry ''a''] ls = (r, ls1)
     \<and> readJournal demo_store (d_journal (ls_disk ls)) = (old, None)
     \<and> readJournal demo_store (d_journal (ls_disk ls1)) = (old @ take k (map (\<lambda>e. JUpsert (Some e)) [demo_store_entry ''a'']), t)"
proof -
  obtain tr ls l where r: "run_ops (store_apply demo_store) demo_run (fresh_state ''d'') = (tr, ls)" "ls_damage ls = damageNone"
    "ls_l ls = Some l" by (rule demo_run_state)
  obtain e ls1 where u: "UpsertVersioned demo_store (append_works\<lparr>ai_write := Some 1, ai_trunc := True\<rparr>) [demo_store_entry ''a''] ls = (e, ls1)" by force
  have "list_all (entry_stable demo_store) [demo_store_entry ''a'']" using demo_store_ok(3) by simp
  from upsert_journal_outcome [OF demo_store_ok(1) demo_run_stable r this u] show ?thesis using r(1) u by blast
qed

text \<open>
  C16: Damage is contained and only the right repair clears it. On a damaged writable list upserts, deletes and reloads
  return an error and change nothing. Any call that succeeds leaves the list undamaged, and after a failed create only
  another create can succeed. A call that fails leaves the served list as it was and the list damaged, and never
  weakens the damage of a failed create.
\<close>

theorem damage_contained:
  assumes "ls_damage ls \<noteq> damageNone" "\<forall>l. ls_l ls = Some l \<longrightarrow> \<not> l_readOnly l" "store_apply V x ls = (r, ls1)"
  shows "(appends x \<or> (\<exists>io. x = SReload io) \<longrightarrow> r \<noteq> None \<and> ls1 = ls)
    \<and> (r = None \<longrightarrow> ls_damage ls1 = damageNone \<and> (ls_damage ls = damageCreate \<longrightarrow> (\<exists>io cfg. x = SCreate io cfg)))
    \<and> (r \<noteq> None \<longrightarrow> ls_l ls1 = ls_l ls \<and> ls_damage ls1 \<noteq> damageNone \<and> (ls_damage ls = damageCreate \<longrightarrow> ls_damage ls1 = damageCreate))"
proof (cases x)
  case (SUpsert io es)
  have "r \<noteq> None \<and> ls1 = ls" by (rule damaged_append [OF assms(1)]) (use assms(3) SUpsert in \<open>simp add: UpsertVersioned_def\<close>)
  then show ?thesis using assms(1) by auto
next
  case (SDelete io i)
  have "r \<noteq> None \<and> ls1 = ls" by (rule damaged_append [OF assms(1)]) (use assms(3) SDelete in \<open>simp add: DeleteVersioned_def\<close>)
  then show ?thesis using assms(1) by auto
next
  case (SReload io)
  then have "r \<noteq> None \<and> ls1 = ls" using assms(1,3) by (auto simp: ReloadListVersioned_def split: if_splits)
  then show ?thesis using assms(1) by auto
next
  case (SCreate io cfg)
  then show ?thesis using create_end [of V io cfg ls r ls1] assms(1,3) by (auto simp: appends_def)
next
  case (SReplace io es)
  have "r \<noteq> None \<and> ls1 = ls \<or> ls_damage ls \<noteq> damageCreate \<and> (\<exists>l es seg ins. ls_l ls = Some l \<and> rebuilt V io es seg ins l ls = (r, ls1))"
    using assms(3) SReplace by (auto simp: ReplaceVersioned_def split: option.splits if_splits sum.splits)
  then show ?thesis using rebuilt_end [of V io _ _ _ _ ls r ls1] assms(1) SReplace by (fastforce simp: appends_def)
next
  case (SCompact io)
  have "r \<noteq> None \<and> ls1 = ls \<or> ls_damage ls \<noteq> damageCreate \<and> (\<exists>l es seg ins. ls_l ls = Some l \<and> rebuilt V io es seg ins l ls = (r, ls1))"
    using assms(2,3) SCompact
    by (auto simp: CompactVersioned_def PrepareCompact_def refuseReadOnly_def ignoreReadOnly_def Let_def split: option.splits if_splits sum.splits)
  then show ?thesis using rebuilt_end [of V io _ _ _ _ ls r ls1] assms(1) SCompact by (fastforce simp: appends_def)
qed

theorem damage_contained_witness:
  "UpsertVersioned demo_store append_works [] ((fresh_state ''d'' :: u32 set list_state)\<lparr>ls_damage := damageCreate\<rparr>)
     = (Some UnknownList, (fresh_state ''d'')\<lparr>ls_damage := damageCreate\<rparr>)"
proof -
  let ?s = "(fresh_state ''d'' :: u32 set list_state)\<lparr>ls_damage := damageCreate\<rparr>"
  obtain r s1 where u: "store_apply demo_store (SUpsert append_works []) ?s = (r, s1)" by force
  have "s1 = ?s" using damage_contained [of ?s demo_store "SUpsert append_works []" r s1] u by (simp add: fresh_state_def appends_def)
  moreover have "r = Some UnknownList" using u by (simp add: UpsertVersioned_def journalled_def fresh_state_def)
  ultimately show ?thesis using u by simp
qed

end
