(* ===== verification/Store_Lists.thy ===== *)
theory Store_Lists
  imports Store_Properties
begin

text \<open>
  The store itself: its lists by name, opening a data directory, and the closed flag every mutator checks first
  (\<open>Open\<close>, \<open>get\<close>, \<open>beginOp\<close>, \<open>Close\<close>, \<open>List\<close>, \<open>Lists\<close>, \<open>DamagedLists\<close> of \<open>engine/store.go\<close>). A directory that does not open is
  kept as a state without a list, which every reader treats as absent; what \<open>Skipped\<close> records is returned beside the store.
\<close>

record 'b store =
  so_lists :: "string \<rightharpoonup> 'b list_state"
  so_closed :: bool

datatype call_error = ErrStoreClosed | CallFailed store_error

definition opened :: "string \<Rightarrow> (store_error + ('b klist \<times> string)) \<times> disk \<Rightarrow> 'b list_state" where
  "opened name res = (case res of
     (Inl _, d) \<Rightarrow> (fresh_state name)\<lparr>ls_disk := d\<rparr>
   | (Inr (l, hashed), d) \<Rightarrow> \<lparr>ls_name = name, ls_l = Some l, ls_damage = damageNone, ls_disk = d, ls_hashed = hashed\<rparr>)"

fun open_dirs :: "'b store_env \<Rightarrow> (string \<Rightarrow> open_io) \<Rightarrow> (string \<times> disk) list \<Rightarrow> 'b store \<Rightarrow> (string \<times> store_error) list
    \<Rightarrow> 'b store \<times> (string \<times> store_error) list" where
  "open_dirs V io [] st skipped = (st, skipped)"
| "open_dirs V io ((name, d) # ds) st skipped =
     (let res = openList V (io name) name d;
          st1 = st\<lparr>so_lists := (so_lists st)(name \<mapsto> opened name res)\<rparr>
      in open_dirs V io ds st1 (case fst res of Inl e \<Rightarrow> skipped @ [(name, e)] | Inr _ \<Rightarrow> skipped))"

definition empty_store :: "'b store" where
  "empty_store = \<lparr>so_lists = Map.empty, so_closed = False\<rparr>"

definition Open :: "'b store_env \<Rightarrow> (string \<Rightarrow> open_io) \<Rightarrow> (string \<times> disk) list \<Rightarrow> 'b store \<times> (string \<times> store_error) list" where
  "Open V io ds = open_dirs V io ds empty_store []"

text \<open>Create and reload make a state for a new name; the other mutators need a served list.\<close>

definition makes_state :: "store_op \<Rightarrow> bool" where
  "makes_state x \<longleftrightarrow> (case x of SCreate _ _ \<Rightarrow> True | SReload _ \<Rightarrow> True | _ \<Rightarrow> False)"

definition store_call :: "'b store_env \<Rightarrow> string \<times> store_op \<Rightarrow> 'b store \<Rightarrow> call_error option \<times> 'b store" where
  "store_call V c st = (case c of (name, x) \<Rightarrow>
     if so_closed st then (Some ErrStoreClosed, st)
     else case (case so_lists st name of None \<Rightarrow> if makes_state x \<and> valid_name name then Some (fresh_state name) else None | Some ls \<Rightarrow> Some ls) of
       None \<Rightarrow> (Some (CallFailed (if makes_state x then InvalidName else UnknownList)), st)
     | Some ls \<Rightarrow> (case store_apply V x ls of (r, ls1) \<Rightarrow>
         (map_option CallFailed r, st\<lparr>so_lists := (so_lists st)(name \<mapsto> ls1)\<rparr>)))"

definition Close :: "'b store \<Rightarrow> 'b store" where
  "Close st = st\<lparr>so_closed := True\<rparr>"

definition find_list :: "'b store \<Rightarrow> string \<Rightarrow> 'b klist option" where
  "find_list st name = Option.bind (so_lists st name) ls_l"

definition Lists :: "string list \<Rightarrow> 'b store \<Rightarrow> 'b klist list" where
  "Lists names st = List.map_filter (find_list st) (sort names)"

definition DamagedLists :: "string list \<Rightarrow> 'b store \<Rightarrow> (string \<times> damage_kind) list" where
  "DamagedLists names st = List.map_filter (\<lambda>n. case so_lists st n of None \<Rightarrow> None
     | Some ls \<Rightarrow> if ls_damage ls = damageNone then None else Some (n, ls_damage ls)) (sort names)"

subsection \<open>Runs of calls\<close>

definition stores_ok :: "'b store_env \<Rightarrow> 'b store \<Rightarrow> bool" where
  "stores_ok V st \<longleftrightarrow> (\<forall>name ls. so_lists st name = Some ls \<longrightarrow> store_inv V ls \<and> ls_name ls = name)"

lemma call_keeps:
  assumes "sha_ok V" "stores_ok V st" "stable_op V (snd c)" "store_call V c st = (r, st1)"
  shows "stores_ok V st1"
proof -
  obtain name x where c: "c = (name, x)" by force
  let ?t = "case so_lists st name of None \<Rightarrow> if makes_state x \<and> valid_name name then Some (fresh_state name) else None | Some ls \<Rightarrow> Some ls"
  show ?thesis
  proof (cases "so_closed st \<or> ?t = None")
    case True
    then have "st1 = st" using assms(4) by (auto simp: store_call_def c split: if_splits)
    then show ?thesis using assms(2) by simp
  next
    case False
    then obtain ls where ls: "?t = Some ls" by blast
    obtain q ls1 where q: "store_apply V x ls = (q, ls1)" by force
    have i: "store_inv V ls" "ls_name ls = name"
      using ls assms(2) fresh_inv [of V name] by (auto simp: stores_ok_def fresh_state_def split: option.splits if_splits)
    have "store_inv V ls1 \<and> ls_name ls1 = name"
      using store_step [OF i(1) assms(1) _ q] store_name [OF q] assms(3) i(2) by (simp add: c)
    moreover have "st1 = st\<lparr>so_lists := (so_lists st)(name \<mapsto> ls1)\<rparr>"
      using assms(4) False unfolding store_call_def c prod.case ls option.case q by simp
    ultimately show ?thesis using assms(2) by (simp add: stores_ok_def)
  qed
qed

lemma run_calls:
  assumes "sha_ok V" "list_all (\<lambda>c. stable_op V (snd c)) cs" "stores_ok V s" "run_ops (store_call V) cs s = (tr, st)"
  shows "stores_ok V st"
  using assms(2-)
proof (induction cs arbitrary: s tr)
  case (Cons c cs)
  obtain e s1 where c: "store_call V c s = (e, s1)" by force
  then obtain tr1 where "run_ops (store_call V) cs s1 = (tr1, st)" using Cons.prems(3) by (auto split: prod.splits)
  then show ?case using Cons.IH call_keeps [OF assms(1) Cons.prems(2) _ c] Cons.prems(1) by simp
qed simp

lemma open_dirs_lookup:
  assumes "distinct (map fst ds)"
  shows "so_lists (fst (open_dirs V io ds st sk)) name = (case map_of ds name of None \<Rightarrow> so_lists st name
      | Some d \<Rightarrow> Some (opened name (openList V (io name) name d)))"
  using assms
proof (induction ds arbitrary: st sk)
  case (Cons x ds)
  obtain n d where x: "x = (n, d)" by force
  have "map_of ds n = None" using Cons.prems x by (simp add: map_of_eq_None_iff)
  then show ?case using Cons by (simp add: x Let_def split: option.splits)
qed simp

lemma open_dirs_skipped:
  "set (snd (open_dirs V io ds st sk)) = set sk \<union> {(n, e). \<exists>d. (n, d) \<in> set ds \<and> fst (openList V (io n) n d) = Inl e}"
proof (induction ds arbitrary: st sk)
  case (Cons x ds)
  obtain n d where x: "x = (n, d)" by force
  show ?case
    by (cases "fst (openList V (io n) n d)") (auto simp: x Let_def Cons.IH)
qed simp

subsection \<open>Property\<close>


definition demo_calls :: "(string \<times> store_op) list" where
  "demo_calls = [(''d'', SCreate create_works demo_store_config)]"


end
