(* ===== verification/Server_Access.thy ===== *)
theory Server_Access
  imports Payload_Scan Go_Float
begin

text \<open>
  Who may touch which store: API keys (\<open>server/auth.go\<close>), the tenant registry (\<open>server/tenants.go\<close>) and the request gate
  (\<open>gate\<close> and \<open>refuseReadOnlyHTTP\<close> of \<open>server/server.go\<close>). Stores are known here only by identity, so their type is a parameter;
  so are the SHA-256 of a key as bytes, what \<open>json.Unmarshal\<close> makes of a tenants file, the iteration order of a Go map and the
  read-only flag of a store. Response headers and bodies are left out; a decision is what is written or dispatched.
\<close>

subsection \<open>Data\<close>

record tenant_quotas =
  tq_MaxLists :: int
  tq_MaxTotalKeys :: int
  tq_ScratchBudgetMB :: int
  tq_RatePerSec :: f64

record tenant_spec =
  ts_KeyDigests :: "string list"
  ts_Quotas :: tenant_quotas
  ts_SharedReads :: bool

record 's tenant_runtime =
  tr_Spec :: tenant_spec
  tr_Store :: "'s option"

text \<open>Admitters and limiters are objects shared across reloads: a handle names one.\<close>

record 's tenant =
  tn_name :: string
  tn_st :: 's
  tn_shared :: bool
  tn_spec :: tenant_spec
  tn_admit :: "nat option"
  tn_limiter :: "nat option"

record 's tenant_registry =
  rg_byDigest :: "string \<rightharpoonup> 's tenant"
  rg_ordered :: "'s tenant list"

record 's server =
  sr_st :: "'s option"
  sr_auth :: "string list option"
  sr_tenants :: "'s tenant_registry option"
  sr_next :: nat

datatype tenant_error =
    TenantsUnparsed
  | NoTenants
  | BadTenantName string
  | NoKeyDigests string
  | BadDigest string string
  | NegativeQuota string
  | PrivateNodeStore string
  | SharedNamespace string string string
  | SharedDeclaresStore string
  | NodeStoreMissing string
  | NilStore string
  | DigestShared string string

text \<open>\<open>^[a-z0-9][a-z0-9_-]{0,63}$\<close>\<close>

definition tenant_char :: "char \<Rightarrow> bool" where
  "tenant_char c \<longleftrightarrow> c \<in> set ''abcdefghijklmnopqrstuvwxyz0123456789''"

definition valid_tenant_name :: "string \<Rightarrow> bool" where
  "valid_tenant_name s \<longleftrightarrow> (case s of [] \<Rightarrow> False
     | c # cs \<Rightarrow> tenant_char c \<and> length cs \<le> 63 \<and> list_all (\<lambda>c. tenant_char c \<or> c = CHR ''_'' \<or> c = CHR ''-'') cs)"

fun hex_decode :: "string \<Rightarrow> string option" where
  "hex_decode [] = Some []"
| "hex_decode [c] = None"
| "hex_decode (a # b # cs) =
     (if isHex a \<and> isHex b then map_option ((#) (char_of (hex_val a * 16 + hex_val b))) (hex_decode cs) else None)"

subsection \<open>The tenants file\<close>

fun check_digests :: "string \<Rightarrow> string list \<Rightarrow> tenant_error option" where
  "check_digests name [] = None"
| "check_digests name (d # ds) =
     (if length d \<noteq> 64 \<or> hex_decode d = None then Some (BadDigest name d) else check_digests name ds)"

definition negative_quota :: "tenant_quotas \<Rightarrow> bool" where
  "negative_quota q \<longleftrightarrow> tq_MaxLists q < 0 \<or> tq_MaxTotalKeys q < 0 \<or> tq_ScratchBudgetMB q < 0 \<or> f_less (tq_RatePerSec q) 0"

fun check_specs :: "(string \<times> tenant_spec) list \<Rightarrow> tenant_error option" where
  "check_specs [] = None"
| "check_specs ((name, spec) # rest) =
     (if \<not> valid_tenant_name name then Some (BadTenantName name)
      else if ts_KeyDigests spec = [] then Some (NoKeyDigests name)
      else case check_digests name (ts_KeyDigests spec) of
        Some e \<Rightarrow> Some e
      | None \<Rightarrow> if negative_quota (ts_Quotas spec) then Some (NegativeQuota name) else check_specs rest)"

text \<open>\<open>unmarshal\<close> gives the decoded map as the pairs in the order the loop meets them.\<close>

definition ParseTenants ::
  "(string \<Rightarrow> (string \<times> tenant_spec) list option) \<Rightarrow> string \<Rightarrow> tenant_error + (string \<times> tenant_spec) list" where
  "ParseTenants unmarshal data = (case unmarshal data of
     None \<Rightarrow> Inl TenantsUnparsed
   | Some m \<Rightarrow> if m = [] then Inl NoTenants else (case check_specs m of Some e \<Rightarrow> Inl e | None \<Rightarrow> Inr m))"

subsection \<open>Installing a registry\<close>

fun effective_stores :: "'s option \<Rightarrow> (string \<times> 's tenant_runtime) list \<Rightarrow> tenant_error + (string \<times> 's option) list" where
  "effective_stores node [] = Inr []"
| "effective_stores node ((name, rt) # rest) =
     (if ts_SharedReads (tr_Spec rt) then map_sum id ((#) (name, node)) (effective_stores node rest)
      else if tr_Store rt \<noteq> None \<and> tr_Store rt = node then Inl (PrivateNodeStore name)
      else map_sum id ((#) (name, tr_Store rt)) (effective_stores node rest))"

definition owners_of :: "(string \<times> 's option) list \<Rightarrow> 's \<Rightarrow> string list" where
  "owners_of eff st = map fst (filter (\<lambda>(n, s). s = Some st) eff)"

fun check_owners :: "(string \<rightharpoonup> 's tenant_runtime) \<Rightarrow> string list list \<Rightarrow> tenant_error option" where
  "check_owners ts [] = None"
| "check_owners ts (owners # rest) =
     (if length owners < 2 then check_owners ts rest
      else case find (\<lambda>n. \<not> ts_SharedReads (tr_Spec (the (ts n)))) owners of
        Some n \<Rightarrow> Some (SharedNamespace (hd owners) (last owners) n)
      | None \<Rightarrow> check_owners ts rest)"

fun add_digests :: "'s tenant \<Rightarrow> string list \<Rightarrow> (string \<rightharpoonup> 's tenant) \<Rightarrow> tenant_error + (string \<rightharpoonup> 's tenant)" where
  "add_digests t [] m = Inr m"
| "add_digests t (dh # dhs) m = (case hex_decode dh of
     None \<Rightarrow> Inl (BadDigest (tn_name t) dh)
   | Some raw \<Rightarrow>
       if length raw \<noteq> 32 then Inl (BadDigest (tn_name t) dh)
       else (case m raw of
           Some prev \<Rightarrow> Inl (DigestShared (tn_name prev) (tn_name t))
         | None \<Rightarrow> add_digests t dhs (m(raw \<mapsto> t))))"

text \<open>The shift of a budget in MiB wraps at 64 bits, and \<open>newAdmitter\<close> makes none for a budget that is not positive.\<close>

definition newAdmitter :: "int \<Rightarrow> nat \<Rightarrow> nat option \<times> nat" where
  "newAdmitter budgetBytes n = (if budgetBytes \<le> 0 then (None, n) else (Some n, Suc n))"

definition tenant_admitter :: "int \<Rightarrow> nat \<Rightarrow> nat option \<times> nat" where
  "tenant_admitter mb n = (if mb > 0 then newAdmitter (signed_take_bit 63 (push_bit 20 mb)) n else (None, n))"

text \<open>The governors of a tenant: carried over when the quota is unchanged, new otherwise.\<close>

definition governors :: "'s tenant option \<Rightarrow> tenant_quotas \<Rightarrow> nat \<Rightarrow> nat option \<times> nat option \<times> nat" where
  "governors prev q n =
     (let (ad, n1) = (case prev of
            Some p \<Rightarrow> if tq_ScratchBudgetMB (ts_Quotas (tn_spec p)) = tq_ScratchBudgetMB q then (tn_admit p, n)
              else tenant_admitter (tq_ScratchBudgetMB q) n
          | None \<Rightarrow> tenant_admitter (tq_ScratchBudgetMB q) n);
          (li, n2) = (case prev of
            Some p \<Rightarrow> if tq_RatePerSec q \<noteq> NaN \<and> tq_RatePerSec (ts_Quotas (tn_spec p)) = tq_RatePerSec q then (tn_limiter p, n1)
              else if f_greater (tq_RatePerSec q) 0 then (Some n1, Suc n1) else (None, n1)
          | None \<Rightarrow> if f_greater (tq_RatePerSec q) 0 then (Some n1, Suc n1) else (None, n1))
      in (ad, li, n2))"

fun install_tenants ::
  "'s option \<Rightarrow> (string \<rightharpoonup> 's tenant) \<Rightarrow> (string \<times> 's tenant_runtime) list \<Rightarrow> 's tenant_registry \<Rightarrow> nat
    \<Rightarrow> tenant_error + ('s tenant_registry \<times> nat)" where
  "install_tenants node prevByName [] reg nx = Inr (reg, nx)"
| "install_tenants node prevByName ((name, rt) # rest) reg nx =
     (if ts_SharedReads (tr_Spec rt) \<and> tr_Store rt \<noteq> None then Inl (SharedDeclaresStore name)
      else if ts_SharedReads (tr_Spec rt) \<and> node = None then Inl (NodeStoreMissing name)
      else case (if ts_SharedReads (tr_Spec rt) then node else tr_Store rt) of
        None \<Rightarrow> Inl (NilStore name)
      | Some st \<Rightarrow>
          if \<not> valid_tenant_name name then Inl (BadTenantName name)
          else if ts_KeyDigests (tr_Spec rt) = [] then Inl (NoKeyDigests name)
          else
            let (ad, li, nx1) = governors (prevByName name) (ts_Quotas (tr_Spec rt)) nx;
                t = \<lparr>tn_name = name, tn_st = st, tn_shared = ts_SharedReads (tr_Spec rt), tn_spec = tr_Spec rt,
                  tn_admit = ad, tn_limiter = li\<rparr>
            in (case add_digests t (ts_KeyDigests (tr_Spec rt)) (rg_byDigest reg) of
                Inl e \<Rightarrow> Inl e
              | Inr m \<Rightarrow> install_tenants node prevByName rest \<lparr>rg_byDigest = m, rg_ordered = rg_ordered reg @ [t]\<rparr> nx1))"

definition prev_by_name :: "'s server \<Rightarrow> string \<rightharpoonup> 's tenant" where
  "prev_by_name v = (case sr_tenants v of None \<Rightarrow> Map.empty | Some reg \<Rightarrow> map_of (map (\<lambda>t. (tn_name t, t)) (rev (rg_ordered reg))))"

text \<open>\<open>ts\<close> lists the map by ascending name, as the sorted loops visit it; \<open>ord\<close> is the iteration order over the stores.\<close>

definition SetTenants ::
  "('s list \<Rightarrow> 's list) \<Rightarrow> (string \<times> 's tenant_runtime) list \<Rightarrow> 's server \<Rightarrow> tenant_error option \<times> 's server" where
  "SetTenants ord ts v =
     (if ts = [] then (Some NoTenants, v)
      else case effective_stores (sr_st v) ts of
        Inl e \<Rightarrow> (Some e, v)
      | Inr eff \<Rightarrow>
          (case check_owners (map_of ts) (map (owners_of eff) (ord (remdups (List.map_filter snd eff)))) of
             Some e \<Rightarrow> (Some e, v)
           | None \<Rightarrow>
               (case install_tenants (sr_st v) (prev_by_name v) ts \<lparr>rg_byDigest = Map.empty, rg_ordered = []\<rparr> (sr_next v) of
                  Inl e \<Rightarrow> (Some e, v)
                | Inr (reg, nx) \<Rightarrow> (None, v\<lparr>sr_tenants := Some reg, sr_next := nx\<rparr>))))"

definition resolve :: "(string \<Rightarrow> string) \<Rightarrow> 's tenant_registry \<Rightarrow> string \<Rightarrow> 's tenant option" where
  "resolve sha reg presented = (if presented = '''' then None else rg_byDigest reg (sha presented))"

subsection \<open>The request gate\<close>

record request =
  rq_Method :: string
  rq_Path :: string
  rq_APIKey :: string
  rq_Authorization :: string

definition newAuthGate :: "(string \<Rightarrow> string) \<Rightarrow> string list \<Rightarrow> string list option" where
  "newAuthGate sha ks = (if ks = [] then None else Some (map sha ks))"

definition exemptFromAuth :: "string \<Rightarrow> bool" where
  "exemptFromAuth path \<longleftrightarrow> path \<in> {''/healthz'', ''/livez'', ''/readyz'', ''/metrics''}"

definition has_prefix :: "string \<Rightarrow> string \<Rightarrow> bool" where
  "has_prefix p s \<longleftrightarrow> take (length p) s = p"

definition has_suffix :: "string \<Rightarrow> string \<Rightarrow> bool" where
  "has_suffix p s \<longleftrightarrow> has_prefix (rev p) (rev s)"

definition contains :: "string \<Rightarrow> string \<Rightarrow> bool" where
  "contains p s \<longleftrightarrow> list_ex (\<lambda>i. has_prefix p (drop i s)) [0..<Suc (length s)]"

definition presentedKey :: "request \<Rightarrow> string" where
  "presentedKey r = (if rq_APIKey r \<noteq> '''' then rq_APIKey r
     else if has_prefix ''Bearer '' (rq_Authorization r) then drop 7 (rq_Authorization r) else '''')"

definition allow :: "(string \<Rightarrow> string) \<Rightarrow> string list option \<Rightarrow> request \<Rightarrow> bool" where
  "allow sha g r = (case g of None \<Rightarrow> True
     | Some ds \<Rightarrow> presentedKey r \<noteq> '''' \<and> list_ex (\<lambda>d. sha (presentedKey r) = d) ds)"

definition lists_prefix :: string where "lists_prefix = ''/v1/lists/''"

definition mutation_route :: "request \<Rightarrow> bool" where
  "mutation_route r =
     (let rest = drop (length lists_prefix) (rq_Path r) in
      has_prefix lists_prefix (rq_Path r) \<and>
      (if rq_Method r = ''PUT'' then \<not> contains ''/'' rest
       else if rq_Method r = ''POST'' then has_suffix ''/entries'' rest \<or> has_suffix ''/compact'' rest \<or> has_suffix ''/reload'' rest
       else rq_Method r = ''DELETE'' \<and> contains ''/entries/'' rest))"

definition refuseReadOnlyHTTP :: "('s \<Rightarrow> bool) \<Rightarrow> request \<Rightarrow> 's option \<Rightarrow> bool" where
  "refuseReadOnlyHTTP ro r st = (case st of None \<Rightarrow> False | Some s \<Rightarrow> ro s \<and> mutation_route r)"

datatype 's decision = Unauthorized | Forbidden | Conflict | Dispatch "'s tenant option"

text \<open>\<open>ro\<close> is the read-only flag of a store and \<open>prepared\<close> whether it serves a prepared artifact.\<close>

definition gate :: "(string \<Rightarrow> string) \<Rightarrow> ('s \<Rightarrow> bool) \<Rightarrow> ('s \<Rightarrow> bool) \<Rightarrow> 's server \<Rightarrow> request \<Rightarrow> 's decision" where
  "gate sha ro prepared v r =
     (let exempt = exemptFromAuth (rq_Path r)
        \<or> rq_Path r = ''/artifactz'' \<and> (case sr_st v of None \<Rightarrow> False | Some s \<Rightarrow> prepared s) in
      case sr_tenants v of
        Some reg \<Rightarrow>
          if exempt then Dispatch None
          else (case resolve sha reg (presentedKey r) of
              None \<Rightarrow> Unauthorized
            | Some t \<Rightarrow>
                if tn_shared t \<and> rq_Method r \<noteq> ''GET'' \<and> has_prefix lists_prefix (rq_Path r) then Forbidden
                else if refuseReadOnlyHTTP ro r (Some (tn_st t)) then Conflict
                else Dispatch (Some t))
      | None \<Rightarrow>
          if sr_auth v \<noteq> None \<and> \<not> exempt \<and> \<not> allow sha (sr_auth v) r then Unauthorized
          else if refuseReadOnlyHTTP ro r (sr_st v) then Conflict
          else Dispatch None)"

definition stOf :: "'s server \<Rightarrow> 's tenant option \<Rightarrow> 's option" where
  "stOf v t = (case t of Some t \<Rightarrow> Some (tn_st t) | None \<Rightarrow> sr_st v)"


subsection \<open>What an installed registry guarantees\<close>

lemma add_digests_ok:
  assumes "add_digests t dhs m = Inr m1"
  shows "(\<forall>dh \<in> set dhs. \<exists>raw. hex_decode dh = Some raw \<and> m1 raw = Some t) \<and> (\<forall>d x. m d = Some x \<longrightarrow> m1 d = Some x)
    \<and> (\<forall>d x. m1 d = Some x \<longrightarrow> m d = Some x \<or> x = t \<and> (\<exists>dh \<in> set dhs. hex_decode dh = Some d))"
  using assms
proof (induction dhs arbitrary: m)
  case (Cons dh dhs)
  obtain raw where r: "hex_decode dh = Some raw" "m raw = None" "add_digests t dhs (m(raw \<mapsto> t)) = Inr m1"
    using Cons.prems by (auto split: option.splits if_splits)
  note ih = Cons.IH [OF r(3)]
  have a: "m1 raw = Some t" using ih by simp
  have b: "m1 d = Some x" if "m d = Some x" for d x using ih that r(2) by (metis fun_upd_apply option.distinct(1))
  have c: "m d = Some x \<or> x = t \<and> (\<exists>h \<in> set (dh # dhs). hex_decode h = Some d)" if "m1 d = Some x" for d x
    using ih that r(1) by (cases "d = raw") (auto split: if_splits)
  show ?case using ih a b c r(1) by auto
qed simp

definition stands_for :: "'s option \<Rightarrow> string \<times> 's tenant_runtime \<Rightarrow> 's tenant \<Rightarrow> bool" where
  "stands_for node nr t \<longleftrightarrow> tn_name t = fst nr \<and> tn_spec t = tr_Spec (snd nr) \<and> tn_shared t = ts_SharedReads (tr_Spec (snd nr))
     \<and> (if ts_SharedReads (tr_Spec (snd nr)) then node else tr_Store (snd nr)) = Some (tn_st t)"

lemma stands_for_source:
  assumes "t \<in> set us" "list_all2 (stands_for node) ts us"
  obtains nr where "nr \<in> set ts" "stands_for node nr t"
  using assms(2,1) that by (induction ts us rule: list_all2_induct) auto

lemma install_ok:
  assumes "install_tenants node prev ts reg nx = Inr (reg1, nx1)"
  shows "\<exists>tl. rg_ordered reg1 = rg_ordered reg @ tl \<and> list_all2 (stands_for node) ts tl
    \<and> (\<forall>d x. rg_byDigest reg d = Some x \<longrightarrow> rg_byDigest reg1 d = Some x)
    \<and> (\<forall>t \<in> set tl. \<forall>dh \<in> set (ts_KeyDigests (tn_spec t)). \<exists>raw. hex_decode dh = Some raw \<and> rg_byDigest reg1 raw = Some t)
    \<and> (\<forall>d x. rg_byDigest reg1 d = Some x \<longrightarrow> rg_byDigest reg d = Some x
        \<or> x \<in> set tl \<and> (\<exists>dh \<in> set (ts_KeyDigests (tn_spec x)). hex_decode dh = Some d))"
  using assms
proof (induction ts arbitrary: reg nx)
  case (Cons nr ts)
  obtain name rt where nr: "nr = (name, rt)" by force
  obtain st ad li nx2 m t where s: "(if ts_SharedReads (tr_Spec rt) then node else tr_Store rt) = Some st"
      "t = \<lparr>tn_name = name, tn_st = st, tn_shared = ts_SharedReads (tr_Spec rt), tn_spec = tr_Spec rt, tn_admit = ad, tn_limiter = li\<rparr>"
      "add_digests t (ts_KeyDigests (tr_Spec rt)) (rg_byDigest reg) = Inr m"
      "install_tenants node prev ts \<lparr>rg_byDigest = m, rg_ordered = rg_ordered reg @ [t]\<rparr> nx2 = Inr (reg1, nx1)"
    using Cons.prems unfolding nr install_tenants.simps Let_def
    by (auto split: if_splits option.splits sum.splits prod.splits)
  have sf: "stands_for node nr t" using s(1) by (auto simp: stands_for_def nr s(2) split: if_splits)
  have sp: "tn_spec t = tr_Spec rt" by (simp add: s(2))
  note d = add_digests_ok [OF s(3)]
  obtain tl where ih: "rg_ordered reg1 = (rg_ordered reg @ [t]) @ tl" "list_all2 (stands_for node) ts tl"
      "\<forall>d x. m d = Some x \<longrightarrow> rg_byDigest reg1 d = Some x"
      "\<forall>t \<in> set tl. \<forall>dh \<in> set (ts_KeyDigests (tn_spec t)). \<exists>raw. hex_decode dh = Some raw \<and> rg_byDigest reg1 raw = Some t"
      "\<forall>d x. rg_byDigest reg1 d = Some x \<longrightarrow> m d = Some x \<or> x \<in> set tl \<and> (\<exists>dh \<in> set (ts_KeyDigests (tn_spec x)). hex_decode dh = Some d)"
    using Cons.IH [OF s(4)] by auto
  have p3: "rg_byDigest reg1 k = Some x" if "rg_byDigest reg k = Some x" for k x using d ih(3) that by blast
  have p4: "\<exists>raw. hex_decode dh = Some raw \<and> rg_byDigest reg1 raw = Some u"
    if u: "u \<in> set (t # tl)" "dh \<in> set (ts_KeyDigests (tn_spec u))" for u dh
  proof (cases "u = t")
    case True
    then have "dh \<in> set (ts_KeyDigests (tr_Spec rt))" using u(2) sp by simp
    then show ?thesis using conjunct1 [OF d] ih(3) True by blast
  next
    case False
    then show ?thesis using u ih(4) by simp
  qed
  have p5: "rg_byDigest reg k = Some x \<or> x \<in> set (t # tl) \<and> (\<exists>dh \<in> set (ts_KeyDigests (tn_spec x)). hex_decode dh = Some k)"
    if "rg_byDigest reg1 k = Some x" for k x
    using ih(5) d that sp by (metis list.set_intros(1,2))
  show ?case
    using ih(1,2) sf p3 p4 p5 by (intro exI [of _ "t # tl"]) auto
qed simp

lemma effective_ok:
  assumes "effective_stores node ts = Inr eff"
  shows "eff = map (\<lambda>(n, rt). (n, if ts_SharedReads (tr_Spec rt) then node else tr_Store rt)) ts
    \<and> (\<forall>(n, rt) \<in> set ts. \<not> ts_SharedReads (tr_Spec rt) \<longrightarrow> tr_Store rt = None \<or> tr_Store rt \<noteq> node)"
  using assms
proof (induction ts arbitrary: eff)
  case (Cons nr ts)
  obtain name rt where nr: "nr = (name, rt)" by force
  obtain eff1 where e: "effective_stores node ts = Inr eff1"
    using Cons.prems by (cases "effective_stores node ts") (auto simp: nr split: if_splits)
  show ?case using Cons.IH [OF e] Cons.prems by (auto simp: nr e split: if_splits)
qed simp

lemma check_owners_None:
  assumes "check_owners ts os = None" "owners \<in> set os" "2 \<le> length owners" "n \<in> set owners"
  shows "ts_SharedReads (tr_Spec (the (ts n)))"
  using assms by (induction os) (auto simp: find_None_iff split: if_splits option.splits)

lemma registered:
  assumes d: "distinct (map fst ts)" and ord: "\<forall>xs. set (ord xs) = set xs" and s: "SetTenants ord ts v = (None, v1)"
  obtains reg where "sr_tenants v1 = Some reg" "sr_st v1 = sr_st v" "list_all2 (stands_for (sr_st v)) ts (rg_ordered reg)"
    "\<And>d x. rg_byDigest reg d = Some x \<Longrightarrow> x \<in> set (rg_ordered reg) \<and> (\<exists>dh \<in> set (ts_KeyDigests (tn_spec x)). hex_decode dh = Some d)"
    "\<And>t dh. t \<in> set (rg_ordered reg) \<Longrightarrow> dh \<in> set (ts_KeyDigests (tn_spec t)) \<Longrightarrow> \<exists>raw. hex_decode dh = Some raw \<and> rg_byDigest reg raw = Some t"
    "\<And>t u. t \<in> set (rg_ordered reg) \<Longrightarrow> u \<in> set (rg_ordered reg) \<Longrightarrow> tn_st t = tn_st u \<Longrightarrow> tn_name t = tn_name u \<or> tn_shared t \<and> tn_shared u"
    "\<And>t. t \<in> set (rg_ordered reg) \<Longrightarrow> \<not> tn_shared t \<Longrightarrow> sr_st v \<noteq> Some (tn_st t)"
proof -
  obtain eff reg nx where e: "effective_stores (sr_st v) ts = Inr eff"
      "check_owners (map_of ts) (map (owners_of eff) (ord (remdups (List.map_filter snd eff)))) = None"
      "install_tenants (sr_st v) (prev_by_name v) ts \<lparr>rg_byDigest = Map.empty, rg_ordered = []\<rparr> (sr_next v) = Inr (reg, nx)"
      "v1 = v\<lparr>sr_tenants := Some reg, sr_next := nx\<rparr>"
    using s by (auto simp: SetTenants_def split: if_splits sum.splits option.splits)
  note ef = effective_ok [OF e(1)]
  have i: "list_all2 (stands_for (sr_st v)) ts (rg_ordered reg)"
    "\<And>t dh. t \<in> set (rg_ordered reg) \<Longrightarrow> dh \<in> set (ts_KeyDigests (tn_spec t)) \<Longrightarrow> \<exists>raw. hex_decode dh = Some raw \<and> rg_byDigest reg raw = Some t"
    "\<And>d x. rg_byDigest reg d = Some x \<Longrightarrow> x \<in> set (rg_ordered reg) \<and> (\<exists>dh \<in> set (ts_KeyDigests (tn_spec x)). hex_decode dh = Some d)"
    using install_ok [OF e(3)] by auto
  have src: "\<exists>rt. (tn_name t, rt) \<in> set ts \<and> tn_shared t = ts_SharedReads (tr_Spec rt) \<and> (tn_name t, Some (tn_st t)) \<in> set eff
      \<and> (\<not> tn_shared t \<longrightarrow> tr_Store rt = Some (tn_st t))"
    if t: "t \<in> set (rg_ordered reg)" for t
  proof -
    obtain nr where "nr \<in> set ts" "stands_for (sr_st v) nr t" using t i(1) by (rule stands_for_source)
    moreover obtain n rt where "nr = (n, rt)" by force
    ultimately have "(n, rt) \<in> set ts" "stands_for (sr_st v) (n, rt) t" by simp_all
    then show ?thesis using ef by (intro exI [of _ rt]) (force simp: stands_for_def split: if_splits)
  qed
  have own: "tn_shared t" if tu: "t \<in> set (rg_ordered reg)" "u \<in> set (rg_ordered reg)" "tn_st t = tn_st u" "tn_name t \<noteq> tn_name u" for t u
  proof -
    obtain rt where t: "(tn_name t, rt) \<in> set ts" "tn_shared t = ts_SharedReads (tr_Spec rt)" "(tn_name t, Some (tn_st t)) \<in> set eff"
      using src [OF tu(1)] by blast
    have u: "(tn_name u, Some (tn_st t)) \<in> set eff" using src [OF tu(2)] tu(3) by auto
    let ?o = "owners_of eff (tn_st t)"
    have o: "tn_name t \<in> set ?o" "tn_name u \<in> set ?o" using t(3) u by (force simp: owners_of_def)+
    then have "card {tn_name t, tn_name u} \<le> card (set ?o)" by (intro card_mono) auto
    then have "2 \<le> length ?o" using tu(4) card_length [of ?o] by simp
    moreover have "tn_st t \<in> set (List.map_filter snd eff)" using t(3) by (force simp: List.map_filter_def)
    then have "?o \<in> set (map (owners_of eff) (ord (remdups (List.map_filter snd eff))))" using ord by simp
    ultimately have "ts_SharedReads (tr_Spec (the (map_of ts (tn_name t))))"
      using check_owners_None [OF e(2)] o(1) by blast
    then show ?thesis using t(1,2) d by (simp add: map_of_is_SomeI)
  qed
  have priv: "sr_st v \<noteq> Some (tn_st t)" if t: "t \<in> set (rg_ordered reg)" "\<not> tn_shared t" for t
  proof -
    obtain rt where "(tn_name t, rt) \<in> set ts" "\<not> ts_SharedReads (tr_Spec rt)" "tr_Store rt = Some (tn_st t)" using src [OF t(1)] t(2) by auto
    then show ?thesis using ef by fastforce
  qed
  show ?thesis
  proof (rule that [of reg])
    show "sr_tenants v1 = Some reg" "sr_st v1 = sr_st v" by (simp_all add: e(4))
    show "tn_name t = tn_name u \<or> tn_shared t \<and> tn_shared u"
      if "t \<in> set (rg_ordered reg)" "u \<in> set (rg_ordered reg)" "tn_st t = tn_st u" for t u
      using own [OF that] own [OF that(2,1)] that(3) by auto
  qed (fact i priv)+
qed

definition writes :: "request \<Rightarrow> bool" where
  "writes r \<longleftrightarrow> rq_Method r \<noteq> ''GET'' \<and> has_prefix lists_prefix (rq_Path r)"




definition demo_tenants :: "(string \<times> nat tenant_runtime) list" where
  "demo_tenants =
     (let q = \<lparr>tq_MaxLists = 0, tq_MaxTotalKeys = 0, tq_ScratchBudgetMB = 1, tq_RatePerSec = Fin 0\<rparr>;
          spec = (\<lambda>c sh. \<lparr>ts_KeyDigests = [replicate 64 c], ts_Quotas = q, ts_SharedReads = sh\<rparr>)
      in [(''a'', \<lparr>tr_Spec = spec (CHR ''0'') False, tr_Store = Some 1\<rparr>), (''b'', \<lparr>tr_Spec = spec (CHR ''1'') True, tr_Store = None\<rparr>)])"

definition demo_server :: "nat server" where
  "demo_server = \<lparr>sr_st = Some 0, sr_auth = None, sr_tenants = None, sr_next = 0\<rparr>"

definition demo_request :: "string \<Rightarrow> request" where
  "demo_request meth = \<lparr>rq_Method = meth, rq_Path = ''/v1/lists/x'', rq_APIKey = ''k'', rq_Authorization = ''''\<rparr>"


end
