(* ===== verification/Server_Quota.thy ===== *)
theory Server_Quota
  imports Server_Access Store_Lists
begin

text \<open>
  Capacity quotas (\<open>server/quota.go\<close>): the projected number of lists and of live raw keys of a tenant's store, checked before
  the mutation. \<open>None\<close> stands for a request without a tenant. The names of the store's lists are passed along
  because a map has no list of its keys.
\<close>

datatype quota_error = MaxListsReached int int | MaxTotalKeysExceeded int int int int

definition tenantKeyUsage :: "string list \<Rightarrow> 'b store \<Rightarrow> int" where
  "tenantKeyUsage names st = (\<Sum>l\<leftarrow>Lists names st. KeyCount l)"

definition checkListQuota :: "tenant_quotas option \<Rightarrow> string list \<Rightarrow> 'b store \<Rightarrow> string \<Rightarrow> quota_error option" where
  "checkListQuota t names st name = (case t of
     None \<Rightarrow> None
   | Some q \<Rightarrow>
       if tq_MaxLists q \<le> 0 then None
       else if find_list st name \<noteq> None then None
       else if int (length (Lists names st)) \<ge> tq_MaxLists q then Some (MaxListsReached (int (length (Lists names st))) (tq_MaxLists q))
       else None)"

definition checkKeyQuota ::
  "tenant_quotas option \<Rightarrow> string list \<Rightarrow> 'b store \<Rightarrow> string \<Rightarrow> entry list \<Rightarrow> bool \<Rightarrow> quota_error option" where
  "checkKeyQuota t names st name entries repl = (case t of
     None \<Rightarrow> None
   | Some q \<Rightarrow>
       if tq_MaxTotalKeys q \<le> 0 then None
       else
         let batch = (\<Sum>e\<leftarrow>entries. int (length (e_Keys e)));
             usage = tenantKeyUsage names st;
             projected = usage + batch - (if repl then (case find_list st name of None \<Rightarrow> 0 | Some l \<Rightarrow> KeyCount l) else 0)
         in if projected > tq_MaxTotalKeys q then Some (MaxTotalKeysExceeded usage batch projected (tq_MaxTotalKeys q)) else None)"

subsection \<open>Keys of a map of entries\<close>

definition map_keys :: "(string \<rightharpoonup> entry) \<Rightarrow> int" where
  "map_keys m = (\<Sum>i\<in>dom m. int (length (e_Keys (the (m i)))))"

lemma map_keys_upd:
  assumes "finite (dom m)"
  shows "map_keys (m(e_ID e \<mapsto> e)) \<le> map_keys m + int (length (e_Keys e))"
proof -
  let ?f = "\<lambda>m i. int (length (e_Keys (the (m i))))"
  let ?d = "dom m - {e_ID e}"
  have "map_keys (m(e_ID e \<mapsto> e)) = int (length (e_Keys e)) + sum (?f (m(e_ID e \<mapsto> e))) ?d"
    using assms by (simp add: map_keys_def sum.insert_remove)
  also have "sum (?f (m(e_ID e \<mapsto> e))) ?d = sum (?f m) ?d" by (rule sum.cong) auto
  also have "sum (?f m) ?d \<le> map_keys m" unfolding map_keys_def by (rule sum_mono2) (use assms in auto)
  finally show ?thesis by (simp del: fun_upd_apply)
qed

lemma map_keys_puts:
  assumes "finite (dom m)"
  shows "map_keys (puts es m) \<le> map_keys m + (\<Sum>e\<leftarrow>es. int (length (e_Keys e)))" "finite (dom (puts es m))"
proof -
  have "finite (dom m) \<Longrightarrow> map_keys (puts es m) \<le> map_keys m + (\<Sum>e\<leftarrow>es. int (length (e_Keys e))) \<and> finite (dom (puts es m))" for m
  proof (induction es arbitrary: m)
    case (Cons e es)
    have "finite (dom (m(e_ID e \<mapsto> e)))" using Cons.prems by simp
    from Cons.IH [OF this] map_keys_upd [OF Cons.prems, of e] show ?case by (simp del: fun_upd_apply)
  qed simp
  then show "map_keys (puts es m) \<le> map_keys m + (\<Sum>e\<leftarrow>es. int (length (e_Keys e)))" "finite (dom (puts es m))" using assms by blast+
qed

lemma map_keys_idmap:
  assumes "distinct (map e_ID es)"
  shows "map_keys (idmap es) = (\<Sum>e\<leftarrow>es. int (length (e_Keys e)))"
proof -
  have i: "inj_on e_ID (set es)" "distinct es" using assms by (simp_all add: distinct_map)
  have v: "idmap es (e_ID e) = Some e" if "e \<in> set es" for e using idmap_distinct [OF assms] that by blast
  have "map_keys (idmap es) = (\<Sum>i\<in>e_ID ` set es. int (length (e_Keys (the (idmap es i)))))" by (simp add: map_keys_def dom_idmap)
  also have "\<dots> = (\<Sum>e\<in>set es. int (length (e_Keys (the (idmap es (e_ID e))))))" by (simp add: sum.reindex [OF i(1)])
  also have "\<dots> = (\<Sum>e\<in>set es. int (length (e_Keys e)))"
    by (rule sum.cong) (simp_all add: v)
  also have "\<dots> = (\<Sum>e\<leftarrow>es. int (length (e_Keys e)))" by (simp add: sum_list_distinct_conv_sum_set [OF i(2)])
  finally show ?thesis .
qed

definition small_base :: "'b klist \<Rightarrow> bool" where
  "small_base l \<longleftrightarrow> (case sn_base (l_snap l) of None \<Rightarrow> True | Some seg \<Rightarrow> length (sg_entries seg) \<le> 2 ^ 32)"

lemma KeyCount_view:
  assumes "list_inv l" "small_base l"
  shows "KeyCount l = map_keys (view l)" "finite (dom (view l))"
proof -
  have "KeyCount l = (\<Sum>e\<leftarrow>liveEntries l. int (length (e_Keys e)))"
    by (rule key_count [OF assms(1)]) (use assms(2) in \<open>simp add: small_base_def\<close>)
  then show "KeyCount l = map_keys (view l)" using map_keys_idmap [OF live_view(1) [OF assms(1)]] live_view(3) [OF assms(1)] by simp
  show "finite (dom (view l))" by (simp add: live_view(3) [OF assms(1), symmetric] dom_idmap)
qed

subsection \<open>Usage of a store\<close>

definition list_keys :: "'b store \<Rightarrow> string \<Rightarrow> int" where
  "list_keys st n = (case find_list st n of None \<Rightarrow> 0 | Some l \<Rightarrow> KeyCount l)"

lemma usage_sum:
  assumes "distinct names"
  shows "tenantKeyUsage names st = (\<Sum>n\<in>set names. list_keys st n)"
proof -
  have "(\<Sum>l\<leftarrow>List.map_filter (find_list st) ns. KeyCount l) = (\<Sum>n\<leftarrow>ns. list_keys st n)" for ns
    by (induction ns) (simp_all add: list_keys_def split: option.splits)
  then show ?thesis using assms by (simp add: tenantKeyUsage_def Lists_def sum_list_distinct_conv_sum_set)
qed

lemma usage_change:
  assumes "distinct names" "name \<in> set names" "\<forall>n. n \<noteq> name \<longrightarrow> so_lists st1 n = so_lists st n"
  shows "tenantKeyUsage names st1 = tenantKeyUsage names st - list_keys st name + list_keys st1 name"
proof -
  have "(\<Sum>n\<in>set names - {name}. list_keys st1 n) = (\<Sum>n\<in>set names - {name}. list_keys st n)"
    by (rule sum.cong) (use assms(3) in \<open>auto simp: list_keys_def find_list_def\<close>)
  then show ?thesis using assms(1,2) by (simp add: usage_sum sum.remove [of "set names" name])
qed


lemma call_effect:
  assumes "store_call V (name, x) st = (None, st1)" "\<not> makes_state x"
  obtains ls ls1 where "so_lists st name = Some ls" "store_apply V x ls = (None, ls1)"
    "st1 = st\<lparr>so_lists := (so_lists st)(name \<mapsto> ls1)\<rparr>"
  using assms by (auto simp: store_call_def split: if_splits option.splits prod.splits)

lemma list_keys_served:
  assumes "so_lists st n = Some ls" "store_inv V ls" "\<forall>l. ls_l ls = Some l \<longrightarrow> small_base l"
  shows "list_keys st n = (case served ls of None \<Rightarrow> 0 | Some m \<Rightarrow> map_keys m)" "\<forall>m. served ls = Some m \<longrightarrow> finite (dom m)"
proof -
  have "list_inv l \<and> small_base l" if "ls_l ls = Some l" for l using that assms(2,3) by (simp add: store_inv_Some mem_ok_def)
  then show "list_keys st n = (case served ls of None \<Rightarrow> 0 | Some m \<Rightarrow> map_keys m)" "\<forall>m. served ls = Some m \<longrightarrow> finite (dom m)"
    using KeyCount_view by (cases "ls_l ls"; auto simp: list_keys_def find_list_def assms(1) served_def)+
qed


definition demo_quotas :: tenant_quotas where
  "demo_quotas = \<lparr>tq_MaxLists = 1, tq_MaxTotalKeys = 1, tq_ScratchBudgetMB = 0, tq_RatePerSec = Fin 0\<rparr>"


end
