(* ===== verification/Spec2Isabelle.thy ===== *)
theory Spec2Isabelle
  imports Kurn_Prelude Exact_Index Index_Artifact Ngram_Index Ngram_Artifact Analyzer List_Config List_View Filter_Number Typed_Filter Any_Of Exact_Query Store_Lists Server_Quota
begin

text \<open>
  Verification of kurn, a screening engine: named lists of entries (an ID, raw keys, an opaque JSON payload) that are
  searched by exact or n-gram matching of analyzed keys, filtered by typed predicates over the payload, kept in memory as
  immutable snapshots and made durable by a base file, an index cache and an append-only journal.

  \<^bold>\<open>How the program is put together.\<close> An analyzer (\<open>engine/analyzer\<close>) normalises keys and queries. A list (\<open>engine/list.go\<close>)
  owns a base segment and an overlay segment; building a segment analyzes its keys and fills an exact index
  (\<open>engine/exact\<close>) or an n-gram index (\<open>engine/ngram\<close>), or both. Mutations rebuild the overlay and tombstone base entries;
  compaction folds both into a new base. A query takes one snapshot, prices itself, looks the indexes up, masks, filters
  (\<open>engine/filter.go\<close>, \<open>typed_filter.go\<close>, \<open>payload.go\<close>), ranks (\<open>rank.go\<close>) and attributes its hits. The store (\<open>engine/store.go\<close>)
  keeps one directory per list: it journals before it commits, rewrites the base on replace and compact, caches the index as
  an artifact (\<open>engine/artifact\<close>) and rebuilds everything on open.

  \<^bold>\<open>Theories, in the order of the code.\<close>
  \<^item> \<open>Kurn_Prelude\<close>, \<open>Go_Strings\<close>, \<open>Go_Float\<close>: types and lemmas shared by the components, UTF-8 decoding and the string functions
    of Go's library that the sources call, floating point numbers with a rounding parameter.
  \<^item> \<open>Index_Interface\<close>: the contract of an ordinal index (locale \<open>ordinal_index\<close>): lookups are ascending and below the number of ordinals.
    \<open>Exact_Index\<close> and \<open>Ngram_Index\<close> interpret it on their models.
  \<^item> \<open>Exact_Index\<close> (\<open>engine/exact/exact.go\<close>): builder, packed arena, \<open>Finish\<close>, lookups, \<open>Restore\<close>. \<open>Index_Artifact\<close>
    (\<open>engine/artifact/exact.go\<close>): the bytes of an exact artifact and every check of the loader.
  \<^item> \<open>Topk_Heap\<close>, \<open>Ngram_Index\<close> (\<open>engine/ngram/ngram.go\<close>): grams, builder, IDF weights, the generator and probe scan, the bounded
    heap; \<open>Ngram_Artifact\<close> (\<open>engine/artifact/artifact.go\<close>): its file format.
  \<^item> \<open>Analyzer\<close> (\<open>engine/analyzer/analyzer.go\<close>): parsing of steps, every step, presets.
  \<^item> \<open>List_Config\<close> (\<open>engine/types.go\<close>, \<open>NewList\<close>): validation, defaults, the configuration digest.
  \<^item> \<open>List_State\<close> (\<open>engine/list.go\<close>, \<open>journal.go\<close>, the guards of \<open>store_prepared.go\<close>): state and mutators of a list. \<open>List_Build\<close>: what a
    built segment guarantees. \<open>View_Refinement\<close>: the contract of a component refined by a specification (locale \<open>refined_by\<close>).
    \<open>List_View\<close> interprets it: a list is a map from IDs to entries.
  \<^item> \<open>Filter_Number\<close>, \<open>Payload_Scan\<close>, \<open>Payload_Match\<close>, \<open>Typed_Filter\<close> (\<open>engine/typed_filter.go\<close>, \<open>payload.go\<close>, \<open>filter.go\<close>): canonical numbers, the
    one-pass strict JSON walk, the path trie, parsing and compiling filters.
  \<^item> \<open>Query_Model\<close>, \<open>Query_Live\<close>, \<open>Any_Of\<close>, \<open>Exact_Query\<close> (\<open>engine/list.go\<close>, \<open>engine/rank.go\<close>): preparing, pricing, executing and
    attributing queries, and their correctness against the visible map.
  \<^item> \<open>Store_Model\<close> (\<open>engine/store.go\<close>): the files of a list, every mutator with every file call that can fail, \<open>openList\<close>.
    \<open>Store_Lines\<close>: reading back what was written, torn tails. \<open>Store_Recovery\<close>: the invariant relating memory and files, kept by
    appends and rewrites. \<open>Store_Open\<close>: what opening a directory yields. \<open>Run_Refinement\<close>: the refinement contract for calls with
    a side condition (locale \<open>refined_when\<close>, of which \<open>refined_by\<close> is an instance). \<open>Store_Restart\<close> interprets it on the store.
    \<open>Store_Crash\<close>: interrupted compactions, failed appends, damage. \<open>Store_Properties\<close> and \<open>Store_Lists\<close>: the durability properties of
    one list and of the whole data directory.
  \<^item> \<open>Server_Access\<close> (\<open>server/auth.go\<close>, \<open>server/tenants.go\<close>, the gate of \<open>server/server.go\<close>): keys, the tenant registry, which
    request reaches which store. \<open>Server_Quota\<close> (\<open>server/quota.go\<close>): list and key quotas over the modelled store.

  \<^bold>\<open>What the lemmas show.\<close> The indexes find exactly the entries that hold a key (exact) or reach the threshold (n-gram, in exact
  arithmetic), restored indexes are safe, artifacts round-trip. Accepted configurations are fixed points of
  resolution. Whatever sequence of operations runs, failures included, a list is the map its successful operations
  describe, its counters are exact, errors leave no trace, and its builders never panic. Filters decide payloads as the
  JSON they denote. Any-of and exact queries return precisely the visible matching entries, within the price charged.
  The store serves exactly what it acknowledged, restarts to the same content and stamp, survives compactions cut off
  anywhere and torn journals, and contains damage. Tenants are isolated and admitted batches stay within their quota.

  \<^bold>\<open>Errors, machine integers, bounds and fuel.\<close> Every error return is a value of an error datatype; Go panics the sources
  can reach (index out of range, the n-gram builder's explicit panic) are a \<open>None\<close> or an error of their own, and are shown
  unreachable. Ordinals are 32-bit words and generations 64-bit words; the theorems that need it assume fewer than
  \<open>2 ^ 32\<close> entries in a segment, the width of an ordinal. The packed offsets of the exact index keep their 44 and 20 bit fields.
  The payload walk is the only recursion with fuel: \<open>3 n + 1\<close> calls suffice for \<open>n\<close> bytes, as \<open>payload_scan_terminates\<close> proves, so a
  result never depends on it. All other loops are structural or have a measure.

  \<^bold>\<open>Parameters.\<close> What is not in the repository is an argument: the roaring bitmaps (\<open>roaring_ok\<close>), Unicode tables, the IDNA
  profile and folding chain (\<open>text_tables\<close>), \<open>math.Log\<close> and floating point rounding (\<open>float_model\<close>, with an IEEE and an exact
  instance), the iteration order of Go maps, the cancellation of a context, \<open>encoding/json\<close> on whole values, SHA-256 (never
  the empty string), the outcome of each file call. The store theorems speak about stable data: entries, IDs and
  configurations that \<open>json.Unmarshal\<close> reads back from what \<open>json.Marshal\<close> wrote. A payload with insignificant white space or
  unescaped HTML characters, or a string that is not UTF-8, is not stable: the encoder rewrites it.

  \<^bold>\<open>Concurrency.\<close> A list lock covers each mutator and a query reads one immutable snapshot, so a run is a sequence of
  atomic steps; a background compaction is a step of its own. Crash points are the failure points of the file calls.

  \<^bold>\<open>Not modelled.\<close> The HTTP handlers, metrics, audit log and readiness (\<open>server\<close>): request decoding and response writing over
  \<open>net/http\<close> around the engine. The admission semaphore and the rate limiter (\<open>server/admit.go\<close>): thin wrappers of third-party
  packages; a tenant's governors are handles here. Feed parsers and bundle building (\<open>ingest\<close>), the commands (\<open>cmd\<close>), benchmarks and examples: I/O
  and text formats of third parties. Prepared artifacts (\<open>engine/prepared\<close>): memory-mapped files over unsafe views and
  the frozen bitmap format of the bitmap library; the read-only lists that serve them are modelled as the read-only
  guards of every mutator. The group-commit goroutine: its outcome is an argument of the append. Temporary files are only
  visible through the renames that publish them.
\<close>

end
